(* ===== verification/Go_Prelude.thy ===== *)
theory Go_Prelude
  imports Main "HOL-Library.Word" "HOL-Library.Multiset" "HOL-Library.List_Lexorder" "HOL-Library.Char_ord"
begin

text \<open>
  Shared vocabulary of the development: the Go values the components exchange and the generic
  facts about them.

  \<^item> \<open>byte\<close>, \<open>bytes\<close>: Go's \<^verbatim>\<open>byte\<close> and \<^verbatim>\<open>[]byte\<close>.
  \<^item> \<open>address\<close>, \<open>hash\<close>: \<^verbatim>\<open>common.Address\<close> (20 bytes) and
    \<^verbatim>\<open>common.Hash\<close> (32 bytes), each as the big-endian number its bytes spell, so that the
    byte-wise order of Go's \<^verbatim>\<open>bytes.Compare\<close> on arrays of equal length is \<open><\<close>.
  \<^item> \<open>be_nat\<close>, \<open>be_bytes\<close>, \<open>min_be\<close>: the big-endian conversions of Go's
    \<^verbatim>\<open>encoding/binary\<close> and of \<^verbatim>\<open>big.Int.SetBytes\<close>/\<^verbatim>\<open>big.Int.Bytes\<close>.
  \<^item> \<open>big_Uint64\<close>, \<open>big_Int64\<close>: \<^verbatim>\<open>big.Int.Uint64\<close> and
    \<^verbatim>\<open>big.Int.Int64\<close>, the low 64 bits of the absolute value.
  \<^item> \<open>remove_nth\<close>: the slice idiom \<^verbatim>\<open>append(s[:i], s[i+1:]...)\<close>.
\<close>

unbundle bit_operations_syntax

named_theorems go_simps \<open>unfolding facts of small Go helpers\<close>

section \<open>Types\<close>

type_synonym byte = "8 word"
type_synonym bytes = "byte list"
type_synonym address = "160 word"
type_synonym hash = "256 word"

section \<open>Results\<close>

text \<open>A Go call that returns \<^verbatim>\<open>(T, error)\<close> is a value of \<open>'e + 'a\<close>.\<close>

definition rbind :: "'e + 'a \<Rightarrow> ('a \<Rightarrow> 'e + 'b) \<Rightarrow> 'e + 'b" where
  "rbind r f = (case r of Inl e \<Rightarrow> Inl e | Inr x \<Rightarrow> f x)"

lemma rbind_simps [simp]:
  "rbind (Inl e) f = Inl e"
  "rbind (Inr x) f = f x"
  by (simp_all add: rbind_def)

lemma rbind_eq_Inr_iff: "rbind r f = Inr y \<longleftrightarrow> (\<exists>x. r = Inr x \<and> f x = Inr y)"
  by (cases r) auto

section \<open>Big-endian numbers\<close>

definition be_nat :: "bytes \<Rightarrow> nat" where
  "be_nat bs = foldl (\<lambda>n b. n * 256 + unat b) 0 bs"

primrec be_bytes :: "nat \<Rightarrow> nat \<Rightarrow> bytes" where
  "be_bytes 0 x = []"
| "be_bytes (Suc n) x = be_bytes n (x div 256) @ [of_nat x]"

fun min_be :: "nat \<Rightarrow> bytes" where
  "min_be x = (if x = 0 then [] else min_be (x div 256) @ [of_nat x])"

declare min_be.simps [simp del]

lemma unat_of_nat_byte [simp]: "unat (of_nat x :: byte) = x mod 256"
  by (simp add: unat_of_nat)

lemma byte_of_nat_mod: "(of_nat (x mod 256) :: byte) = of_nat x"
  by (simp add: word_unat_eq_iff)

lemma unat_byte_lt [simp]: "unat (b :: byte) < 256"
  using unsigned_less [of b, where ?'a = nat] by simp

lemma byte_of_snoc: "(of_nat (n * 256 + unat b) :: byte) = b"
  by (simp add: word_unat_eq_iff del: of_nat_add of_nat_mult)

lemma unat_addr_lt: "unat (a :: address) < 256 ^ 20"
  using unsigned_less [of a, where ?'a = nat] by simp

lemma unat_hash_lt: "unat (h :: hash) < 256 ^ 32"
  using unsigned_less [of h, where ?'a = nat] by simp

lemma be_nat_Nil [simp]: "be_nat [] = 0"
  by (simp add: be_nat_def)

lemma be_nat_snoc [simp]: "be_nat (bs @ [b]) = be_nat bs * 256 + unat b"
  by (simp add: be_nat_def)

lemma be_nat_single [simp]: "be_nat [b] = unat b"
  by (simp add: be_nat_def)

lemma be_nat_append: "be_nat (xs @ ys) = be_nat xs * 256 ^ length ys + be_nat ys"
proof (induction ys rule: rev_induct)
  case (snoc y ys)
  then show ?case
    by (simp add: append_assoc [symmetric] algebra_simps del: append_assoc)
qed simp

lemma be_nat_Cons: "be_nat (b # bs) = unat b * 256 ^ length bs + be_nat bs"
  using be_nat_append [of "[b]" bs] by simp

lemma be_nat_less: "be_nat bs < 256 ^ length bs"
proof (induction bs rule: rev_induct)
  case (snoc b bs)
  have "be_nat bs * 256 + unat b < (be_nat bs + 1) * 256"
    by simp
  also have "\<dots> \<le> 256 ^ length bs * 256"
    using snoc.IH by (intro mult_le_mono) simp_all
  finally show ?case by simp
qed simp

lemma length_be_bytes [simp]: "length (be_bytes n x) = n"
  by (induction n arbitrary: x) simp_all

lemma be_nat_be_bytes: "be_nat (be_bytes n x) = x mod 256 ^ n"
proof (induction n arbitrary: x)
  case (Suc n)
  have "x mod (256 * 256 ^ n) = 256 * (x div 256 mod 256 ^ n) + x mod 256"
    by (rule mod_mult2_eq)
  then show ?case by (simp add: Suc.IH)
qed simp

lemma be_bytes_be_nat [simp]: "be_bytes (length bs) (be_nat bs) = bs"
proof (induction bs rule: rev_induct)
  case (snoc b bs)
  have "(be_nat bs * 256 + unat b) div 256 = be_nat bs"
    by simp
  moreover have "(of_nat (be_nat bs * 256 + unat b) :: byte) = b"
    by (rule byte_of_snoc)
  ultimately show ?case using snoc.IH by simp
qed simp

lemma min_be_0 [simp]: "min_be 0 = []"
  by (simp add: min_be.simps)

lemma min_be_eq_Nil_iff [simp]: "min_be x = [] \<longleftrightarrow> x = 0"
  by (simp add: min_be.simps [of x])

lemma be_nat_min_be [simp]: "be_nat (min_be x) = x"
proof (induction x rule: min_be.induct)
  case (1 x)
  then show ?case
    by (cases "x = 0") (simp_all add: min_be.simps [of x])
qed

lemma min_be_hd: "x \<noteq> 0 \<Longrightarrow> hd (min_be x) \<noteq> 0"
proof (induction x rule: min_be.induct)
  case (1 x)
  show ?case
  proof (cases "x div 256 = 0")
    case True
    then have "x < 256" by (simp add: div_eq_0_iff)
    then have "(of_nat x :: byte) \<noteq> 0" using "1.prems" by (simp add: word_unat_eq_iff)
    then show ?thesis using True "1.prems" by (simp add: min_be.simps [of x])
  next
    case False
    with "1" have "hd (min_be (x div 256)) \<noteq> 0" by simp
    then show ?thesis using False "1.prems" by (simp add: min_be.simps [of x] hd_append)
  qed
qed

text \<open>A byte string without a leading zero byte is the minimal one of its value.\<close>

lemma min_be_be_nat: "(bs = [] \<or> hd bs \<noteq> 0) \<Longrightarrow> min_be (be_nat bs) = bs"
proof (induction bs rule: rev_induct)
  case (snoc b bs)
  let ?x = "be_nat bs * 256 + unat b"
  have nz: "?x \<noteq> 0"
  proof (cases bs)
    case Nil
    with snoc.prems show ?thesis by (simp add: unat_eq_0)
  next
    case (Cons c cs)
    with snoc.prems have "unat c \<noteq> 0" by (simp add: unat_eq_0)
    then show ?thesis by (simp add: Cons be_nat_Cons)
  qed
  have "min_be ?x = min_be (be_nat bs) @ [of_nat ?x]"
    using nz by (simp add: min_be.simps [of ?x])
  also have "(of_nat ?x :: byte) = b"
    by (rule byte_of_snoc)
  also have "min_be (be_nat bs) = bs"
    using snoc by (cases bs) simp_all
  finally show ?case by simp
qed simp

lemma length_min_be_le: "x < 256 ^ n \<Longrightarrow> length (min_be x) \<le> n"
proof (induction n arbitrary: x)
  case (Suc n)
  show ?case
  proof (cases "x = 0")
    case False
    from Suc.prems have "x div 256 < 256 ^ n"
      by (simp add: less_mult_imp_div_less mult.commute)
    then have "length (min_be (x div 256)) \<le> n" by (rule Suc.IH)
    with False show ?thesis by (simp add: min_be.simps [of x])
  qed simp
qed simp

lemma length_min_be_pos: "x \<noteq> 0 \<Longrightarrow> 0 < length (min_be x)"
  by simp

section \<open>Words as byte arrays\<close>

definition addr_bytes :: "address \<Rightarrow> bytes" where
  "addr_bytes a = be_bytes 20 (unat a)"

definition hash_bytes :: "hash \<Rightarrow> bytes" where
  "hash_bytes h = be_bytes 32 (unat h)"

definition addr_of_bytes :: "bytes \<Rightarrow> address" where
  "addr_of_bytes bs = of_nat (be_nat bs)"

definition hash_of_bytes :: "bytes \<Rightarrow> hash" where
  "hash_of_bytes bs = of_nat (be_nat bs)"

lemma length_addr_bytes [simp]: "length (addr_bytes a) = 20"
  by (simp add: addr_bytes_def)

lemma length_hash_bytes [simp]: "length (hash_bytes h) = 32"
  by (simp add: hash_bytes_def)

lemma addr_of_bytes_inverse [simp]: "addr_of_bytes (addr_bytes a) = a"
  using unat_addr_lt [of a] by (simp add: addr_of_bytes_def addr_bytes_def be_nat_be_bytes)

lemma hash_of_bytes_inverse [simp]: "hash_of_bytes (hash_bytes h) = h"
  using unat_hash_lt [of h] by (simp add: hash_of_bytes_def hash_bytes_def be_nat_be_bytes)

lemma hash_bytes_inject [simp]: "hash_bytes h = hash_bytes h' \<longleftrightarrow> h = h'"
  by (metis hash_of_bytes_inverse)

lemma addr_bytes_inject [simp]: "addr_bytes a = addr_bytes b \<longleftrightarrow> a = b"
  by (metis addr_of_bytes_inverse)

section \<open>Go integers\<close>

text \<open>\<^verbatim>\<open>big.Int.Uint64\<close> and \<^verbatim>\<open>big.Int.Int64\<close>: the low 64 bits of the absolute
  value, the sign put back by \<^verbatim>\<open>Int64\<close>.\<close>

definition big_Uint64 :: "int \<Rightarrow> nat" where
  "big_Uint64 i = nat \<bar>i\<bar> mod 2 ^ 64"

definition wrap_i64 :: "int \<Rightarrow> int" where
  "wrap_i64 i = (i + 2 ^ 63) mod 2 ^ 64 - 2 ^ 63"

definition big_Int64 :: "int \<Rightarrow> int" where
  "big_Int64 i = (let v = wrap_i64 (int (big_Uint64 i)) in if i < 0 then wrap_i64 (- v) else v)"

lemma big_Uint64_small: "0 \<le> i \<Longrightarrow> i < 2 ^ 64 \<Longrightarrow> big_Uint64 i = nat i"
  by (simp add: big_Uint64_def nat_less_iff)

lemma big_Uint64_less: "big_Uint64 i < 2 ^ 64"
  by (simp add: big_Uint64_def)

text \<open>The three-way comparison \<^verbatim>\<open>big.Int.Cmp\<close>.\<close>

definition big_Cmp :: "int \<Rightarrow> int \<Rightarrow> int" where
  "big_Cmp x y = (if x < y then - 1 else if x > y then 1 else 0)"

lemma big_Cmp_iff [simp]:
  "big_Cmp x y = 0 \<longleftrightarrow> x = y"
  "big_Cmp x y < 0 \<longleftrightarrow> x < y"
  "0 < big_Cmp x y \<longleftrightarrow> y < x"
  "0 \<le> big_Cmp x y \<longleftrightarrow> y \<le> x"
  "big_Cmp x y = - 1 \<longleftrightarrow> x < y"
  by (auto simp: big_Cmp_def)

section \<open>Slices\<close>

definition remove_nth :: "nat \<Rightarrow> 'a list \<Rightarrow> 'a list" where
  "remove_nth i xs = take i xs @ drop (Suc i) xs"

lemma remove_nth_simps [simp]:
  "remove_nth 0 (x # xs) = xs"
  "remove_nth (Suc i) (x # xs) = x # remove_nth i xs"
  by (simp_all add: remove_nth_def)

lemma length_remove_nth: "i < length xs \<Longrightarrow> length (remove_nth i xs) = length xs - 1"
  by (simp add: remove_nth_def)

lemma mset_remove_nth: "i < length xs \<Longrightarrow> add_mset (xs ! i) (mset (remove_nth i xs)) = mset xs"
proof -
  assume i: "i < length xs"
  have "mset xs = mset (take i xs @ xs ! i # drop (Suc i) xs)"
    using i by (simp add: id_take_nth_drop [symmetric])
  then show ?thesis by (simp add: remove_nth_def)
qed

lemma set_remove_nth_subset: "set (remove_nth i xs) \<subseteq> set xs"
  by (auto simp: remove_nth_def dest: in_set_takeD in_set_dropD)

text \<open>The index of the first element that satisfies a test, as Go's
  \<^verbatim>\<open>for i, v := range s { if p(v) { return i } }\<close> finds it.\<close>

fun find_index :: "('a \<Rightarrow> bool) \<Rightarrow> 'a list \<Rightarrow> nat option" where
  "find_index p [] = None"
| "find_index p (x # xs) = (if p x then Some 0 else map_option Suc (find_index p xs))"

lemma find_index_None [simp]: "find_index p xs = None \<longleftrightarrow> (\<forall>x \<in> set xs. \<not> p x)"
  by (induction xs) auto

lemma find_index_SomeD:
  "find_index p xs = Some i \<Longrightarrow> i < length xs \<and> p (xs ! i) \<and> (\<forall>j < i. \<not> p (xs ! j))"
proof (induction xs arbitrary: i)
  case (Cons x xs)
  show ?case
  proof (cases "p x")
    case False
    with Cons.prems obtain k where k: "find_index p xs = Some k" "i = Suc k" by auto
    then show ?thesis using Cons.IH [OF k(1)] False by (auto simp: nth_Cons split: nat.splits)
  qed (use Cons.prems in auto)
qed simp

lemma find_index_remove:
  "find_index p xs = Some i \<Longrightarrow> \<exists>ys y zs. xs = ys @ y # zs \<and> p y \<and> (\<forall>x \<in> set ys. \<not> p x) \<and>
     remove_nth i xs = ys @ zs \<and> i = length ys"
proof (induction xs arbitrary: i)
  case (Cons x xs)
  show ?case
  proof (cases "p x")
    case True
    with Cons.prems have "i = 0" by simp
    with True show ?thesis by (intro exI [of _ "[]"]) simp
  next
    case False
    with Cons.prems obtain k where k: "find_index p xs = Some k" "i = Suc k" by auto
    from Cons.IH [OF k(1)] obtain ys y zs where *: "xs = ys @ y # zs" "p y"
      "\<forall>x \<in> set ys. \<not> p x" "remove_nth k xs = ys @ zs" "k = length ys" by auto
    show ?thesis
      using * False k(2) by (intro exI [of _ "x # ys"] exI [of _ y] exI [of _ zs]) auto
  qed
qed simp

section \<open>Operations that may panic\<close>

text \<open>The outcome of Go code that returns a value and an error, or panics at run time.\<close>

datatype ('e, 'a) outcome = Ok 'a | Fail 'e | Panic

end
