(* ===== verification/RLP_Encode.thy ===== *)
theory RLP_Encode
  imports Go_Prelude
begin

text \<open>
  The encoder of package rlp (\<^verbatim>\<open>src/rlp/encode.go\<close>).

  The Go encoder walks a value by reflection and writes into an \<^verbatim>\<open>encbuf\<close>: string data goes
  to \<open>str\<close>, and every list leaves a \<^verbatim>\<open>listhead\<close> (its offset in \<open>str\<close> and, once
  \<^verbatim>\<open>listEnd\<close> ran, its encoded size) in \<open>lheads\<close>; \<^verbatim>\<open>toBytes\<close> merges both at
  the end. The reflective type of a value picks a writer function. Here an \<open>rval\<close> is a value
  together with the writer its Go type selects: one constructor per writer, and \<open>rlp_write\<close> has one
  equation per writer function of the source.

  \<open>enc_spec\<close> is the reference encoding, the recursive definition of the RLP format;
  the properties show that the buffer with its out-of-line list headers computes it, and which values
  are refused with which error.
\<close>

section \<open>The encoder buffer\<close>

text \<open>The errors of the writers: a negative big integer, an \<^verbatim>\<open>Encoder\<close> with a pointer method whose
  value has no address, a type without a writer, and the error an \<^verbatim>\<open>EncodeRLP\<close> method returns itself.\<close>

datatype rlp_encode_error =
    NegativeBigInt
  | UnaddressableValue
  | NotSerializable
  | EncoderError string

record listhead =
  lh_offset :: nat
  lh_size :: nat

record encbuf =
  eb_str :: bytes
  eb_lheads :: "listhead list"
  eb_lhsize :: nat

definition reset :: "encbuf \<Rightarrow> encbuf" where
  "reset w = w\<lparr>eb_str := [], eb_lheads := [], eb_lhsize := 0\<rparr>"

definition buf_append :: "bytes \<Rightarrow> encbuf \<Rightarrow> encbuf" where
  "buf_append b w = w\<lparr>eb_str := eb_str w @ b\<rparr>"

text \<open>\<^verbatim>\<open>putint\<close> writes an integer in the least number of bytes (one byte for 0).\<close>

definition putint :: "nat \<Rightarrow> bytes" where
  "putint i =
     (if i < 2 ^ 8 then [of_nat i]
      else if i < 2 ^ 16 then [of_nat (i div 2 ^ 8), of_nat i]
      else if i < 2 ^ 24 then [of_nat (i div 2 ^ 16), of_nat (i div 2 ^ 8), of_nat i]
      else if i < 2 ^ 32 then
        [of_nat (i div 2 ^ 24), of_nat (i div 2 ^ 16), of_nat (i div 2 ^ 8), of_nat i]
      else if i < 2 ^ 40 then
        [of_nat (i div 2 ^ 32), of_nat (i div 2 ^ 24), of_nat (i div 2 ^ 16), of_nat (i div 2 ^ 8),
         of_nat i]
      else if i < 2 ^ 48 then
        [of_nat (i div 2 ^ 40), of_nat (i div 2 ^ 32), of_nat (i div 2 ^ 24), of_nat (i div 2 ^ 16),
         of_nat (i div 2 ^ 8), of_nat i]
      else if i < 2 ^ 56 then
        [of_nat (i div 2 ^ 48), of_nat (i div 2 ^ 40), of_nat (i div 2 ^ 32), of_nat (i div 2 ^ 24),
         of_nat (i div 2 ^ 16), of_nat (i div 2 ^ 8), of_nat i]
      else
        [of_nat (i div 2 ^ 56), of_nat (i div 2 ^ 48), of_nat (i div 2 ^ 40), of_nat (i div 2 ^ 32),
         of_nat (i div 2 ^ 24), of_nat (i div 2 ^ 16), of_nat (i div 2 ^ 8), of_nat i])"

text \<open>\<^verbatim>\<open>intsize\<close>: the loop shifts right by eight bits until nothing is left.\<close>

fun intsize :: "nat \<Rightarrow> nat" where
  "intsize i = (if i div 256 = 0 then 1 else Suc (intsize (i div 256)))"

declare intsize.simps [simp del]

definition headsize :: "nat \<Rightarrow> nat" where
  "headsize n = (if n < 56 then 1 else 1 + intsize n)"

definition puthead :: "byte \<Rightarrow> byte \<Rightarrow> nat \<Rightarrow> bytes" where
  "puthead smalltag largetag n =
     (if n < 56 then [smalltag + of_nat n]
      else let s = putint n in (largetag + of_nat (length s)) # s)"

definition listhead_encode :: "listhead \<Rightarrow> bytes" where
  "listhead_encode h = puthead 0xC0 0xF7 (lh_size h)"

definition encodeStringHeader :: "nat \<Rightarrow> encbuf \<Rightarrow> encbuf" where
  "encodeStringHeader n w =
     (if n < 56 then buf_append [0x80 + of_nat n] w
      else let s = putint n in buf_append ((0xB7 + of_nat (length s)) # s) w)"

definition encodeString :: "bytes \<Rightarrow> encbuf \<Rightarrow> encbuf" where
  "encodeString b w =
     (if length b = 1 \<and> b ! 0 \<le> 0x7F then buf_append [b ! 0] w
      else buf_append b (encodeStringHeader (length b) w))"

definition encbuf_size :: "encbuf \<Rightarrow> nat" where
  "encbuf_size w = length (eb_str w) + eb_lhsize w"

text \<open>\<^verbatim>\<open>list\<close> returns a pointer to the new header; the model returns its index.\<close>

definition list_start :: "encbuf \<Rightarrow> nat \<times> encbuf" where
  "list_start w =
     (length (eb_lheads w),
      w\<lparr>eb_lheads := eb_lheads w @ [\<lparr>lh_offset = length (eb_str w), lh_size = eb_lhsize w\<rparr>]\<rparr>)"

definition listEnd :: "nat \<Rightarrow> encbuf \<Rightarrow> encbuf" where
  "listEnd lh w =
     (let h = eb_lheads w ! lh;
          sz = encbuf_size w - lh_offset h - lh_size h
      in w\<lparr>eb_lheads := (eb_lheads w)[lh := h\<lparr>lh_size := sz\<rparr>],
           eb_lhsize := eb_lhsize w + (if sz < 56 then 1 else 1 + intsize sz)\<rparr>)"

fun merge_heads :: "nat \<Rightarrow> listhead list \<Rightarrow> bytes \<Rightarrow> bytes" where
  "merge_heads strpos [] s = drop strpos s"
| "merge_heads strpos (h # hs) s =
     take (lh_offset h - strpos) (drop strpos s) @ listhead_encode h @
       merge_heads (strpos + length (take (lh_offset h - strpos) (drop strpos s))) hs s"

definition toBytes :: "encbuf \<Rightarrow> bytes" where
  "toBytes w = merge_heads 0 (eb_lheads w) (eb_str w)"

section \<open>Writers\<close>

text \<open>A value with the writer function its Go type selects in \<^verbatim>\<open>makeWriter\<close>:
  \<^item> \<open>RRaw\<close>: \<^verbatim>\<open>writeRawValue\<close>; \<open>RUint\<close>: \<^verbatim>\<open>writeUint\<close>; \<open>RBool\<close>:
    \<^verbatim>\<open>writeBool\<close>;
  \<^item> \<open>RBigPtr\<close>: \<^verbatim>\<open>writeBigIntPtr\<close> (\<open>None\<close> is the nil pointer), \<open>RBig\<close>:
    \<^verbatim>\<open>writeBigInt\<close>;
  \<^item> \<open>RBytes\<close>: \<^verbatim>\<open>writeBytes\<close>, \<^verbatim>\<open>writeByteArray\<close> and \<^verbatim>\<open>writeString\<close>, which
    all encode one byte string;
  \<^item> \<open>RSlice\<close>: \<^verbatim>\<open>makeSliceWriter\<close>; \<open>RStruct\<close>: \<^verbatim>\<open>makeStructWriter\<close>, with the
    fields in order;
  \<^item> \<open>RNilArray\<close>, \<open>RNilStruct\<close>, \<open>RNilIface\<close>: the nil cases of
    \<^verbatim>\<open>makePtrWriter\<close> and \<^verbatim>\<open>writeInterface\<close> (the remaining nil pointers write the zero value of
    their type, which is then the value here);
  \<^item> \<open>RTail\<close>: \<^verbatim>\<open>makeSliceWriter\<close> for a field with the \<^verbatim>\<open>tail\<close> tag, which writes no list header;
  \<^item> \<open>REncoder\<close>: \<^verbatim>\<open>writeEncoder\<close>. The method \<^verbatim>\<open>EncodeRLP\<close> of the type is given by what it does with
    the writer it is handed: it passes values to \<^verbatim>\<open>Encode\<close>, which appends to the same buffer (or
    bytes to \<^verbatim>\<open>Write\<close>, an \<open>RRaw\<close>), stops at the first error, and ends with an error of its own or nil;
  \<^item> \<open>REncoderNoPtr\<close>: \<^verbatim>\<open>writeEncoderNoPtr\<close>, with the answer of \<^verbatim>\<open>CanAddr\<close> first;
  \<^item> \<open>RUnserializable\<close>: a value, on top or in an interface, for whose type \<^verbatim>\<open>cachedTypeInfo\<close> finds no
    writer.\<close>

datatype rval =
    RRaw bytes
  | RUint nat
  | RBool bool
  | RBig int
  | RBigPtr "int option"
  | RBytes bytes
  | RSlice "rval list"
  | RStruct "rval list"
  | RNilArray
  | RNilStruct
  | RNilIface
  | RTail "rval list"
  | REncoder "rval list" "string option"
  | REncoderNoPtr bool "rval list" "string option"
  | RUnserializable

definition writeUint :: "nat \<Rightarrow> encbuf \<Rightarrow> encbuf" where
  "writeUint i w =
     (if i = 0 then buf_append [0x80] w
      else if i < 128 then buf_append [of_nat i] w
      else let s = putint i in buf_append ((0x80 + of_nat (length s)) # s) w)"

definition writeBool :: "bool \<Rightarrow> encbuf \<Rightarrow> encbuf" where
  "writeBool b w = (if b then buf_append [0x01] w else buf_append [0x80] w)"

definition writeBigInt :: "int \<Rightarrow> encbuf \<Rightarrow> rlp_encode_error option \<times> encbuf" where
  "writeBigInt i w =
     (if i < 0 then (Some NegativeBigInt, w)
      else if i = 0 then (None, buf_append [0x80] w)
      else (None, encodeString (min_be (nat i)) w))"

definition writeBigIntPtr :: "int option \<Rightarrow> encbuf \<Rightarrow> rlp_encode_error option \<times> encbuf" where
  "writeBigIntPtr p w =
     (case p of None \<Rightarrow> (None, buf_append [0x80] w) | Some i \<Rightarrow> writeBigInt i w)"

text \<open>The element loop stops at the first error. A slice closes its list header on every path
  (\<^verbatim>\<open>defer w.listEnd(w.list())\<close>), a struct only when all fields were written.\<close>

fun rlp_write :: "rval \<Rightarrow> encbuf \<Rightarrow> rlp_encode_error option \<times> encbuf"
and write_elems :: "rval list \<Rightarrow> encbuf \<Rightarrow> rlp_encode_error option \<times> encbuf" where
  "rlp_write (RRaw b) w = (None, buf_append b w)"
| "rlp_write (RUint i) w = (None, writeUint i w)"
| "rlp_write (RBool b) w = (None, writeBool b w)"
| "rlp_write (RBig i) w = writeBigInt i w"
| "rlp_write (RBigPtr p) w = writeBigIntPtr p w"
| "rlp_write (RBytes b) w = (None, encodeString b w)"
| "rlp_write (RSlice vs) w =
     (case list_start w of (lh, w1) \<Rightarrow>
      (case write_elems vs w1 of (e, w2) \<Rightarrow> (e, listEnd lh w2)))"
| "rlp_write (RStruct vs) w =
     (case list_start w of (lh, w1) \<Rightarrow>
      (case write_elems vs w1 of
         (None, w2) \<Rightarrow> (None, listEnd lh w2)
       | (Some e, w2) \<Rightarrow> (Some e, w2)))"
| "rlp_write RNilArray w = (None, buf_append [0x80] w)"
| "rlp_write RNilStruct w = (case list_start w of (lh, w1) \<Rightarrow> (None, listEnd lh w1))"
| "rlp_write RNilIface w = (None, buf_append [0xC0] w)"
| "rlp_write (RTail vs) w = write_elems vs w"
| "rlp_write (REncoder vs err) w =
     (case write_elems vs w of
        (None, w1) \<Rightarrow> (map_option EncoderError err, w1)
      | (Some e, w1) \<Rightarrow> (Some e, w1))"
| "rlp_write (REncoderNoPtr addr vs err) w =
     (if \<not> addr then (Some UnaddressableValue, w)
      else (case write_elems vs w of
              (None, w1) \<Rightarrow> (map_option EncoderError err, w1)
            | (Some e, w1) \<Rightarrow> (Some e, w1)))"
| "rlp_write RUnserializable w = (Some NotSerializable, w)"
| "write_elems [] w = (None, w)"
| "write_elems (v # vs) w =
     (case rlp_write v w of
        (Some e, w1) \<Rightarrow> (Some e, w1)
      | (None, w1) \<Rightarrow> write_elems vs w1)"

definition new_encbuf :: encbuf where
  "new_encbuf = \<lparr>eb_str = [], eb_lheads = [], eb_lhsize = 0\<rparr>"

definition EncodeToBytes :: "rval \<Rightarrow> rlp_encode_error + bytes" where
  "EncodeToBytes v =
     (case rlp_write v (reset new_encbuf) of
        (Some e, w) \<Rightarrow> Inl e
      | (None, w) \<Rightarrow> Inr (toBytes w))"

section \<open>The RLP format\<close>

definition enc_string :: "bytes \<Rightarrow> bytes" where
  "enc_string b =
     (if length b = 1 \<and> b ! 0 \<le> 0x7F then b else puthead 0x80 0xB7 (length b) @ b)"

definition enc_list :: "bytes \<Rightarrow> bytes" where
  "enc_list payload = puthead 0xC0 0xF7 (length payload) @ payload"

definition enc_nat :: "nat \<Rightarrow> bytes" where
  "enc_nat n = enc_string (min_be n)"

fun enc_spec :: "rval \<Rightarrow> bytes" where
  "enc_spec (RRaw b) = b"
| "enc_spec (RUint i) = enc_nat i"
| "enc_spec (RBool b) = (if b then [0x01] else [0x80])"
| "enc_spec (RBig i) = enc_nat (nat i)"
| "enc_spec (RBigPtr p) = (case p of None \<Rightarrow> [0x80] | Some i \<Rightarrow> enc_nat (nat i))"
| "enc_spec (RBytes b) = enc_string b"
| "enc_spec (RSlice vs) = enc_list (concat (map enc_spec vs))"
| "enc_spec (RStruct vs) = enc_list (concat (map enc_spec vs))"
| "enc_spec RNilArray = [0x80]"
| "enc_spec RNilStruct = enc_list []"
| "enc_spec RNilIface = [0xC0]"
| "enc_spec (RTail vs) = concat (map enc_spec vs)"
| "enc_spec (REncoder vs err) = concat (map enc_spec vs)"
| "enc_spec (REncoderNoPtr addr vs err) = concat (map enc_spec vs)"
| "enc_spec RUnserializable = []"

text \<open>The values the encoder accepts: no negative big integer, machine integers in 64 bits, no failing
  or unreachable \<^verbatim>\<open>EncodeRLP\<close> method, a writer for every type.\<close>

fun encodable :: "rval \<Rightarrow> bool" where
  "encodable (RUint i) \<longleftrightarrow> i < 2 ^ 64"
| "encodable (RBig i) \<longleftrightarrow> 0 \<le> i"
| "encodable (RBigPtr p) \<longleftrightarrow> (case p of None \<Rightarrow> True | Some i \<Rightarrow> 0 \<le> i)"
| "encodable (RSlice vs) \<longleftrightarrow> list_all encodable vs"
| "encodable (RStruct vs) \<longleftrightarrow> list_all encodable vs"
| "encodable (RTail vs) \<longleftrightarrow> list_all encodable vs"
| "encodable (REncoder vs err) \<longleftrightarrow> list_all encodable vs \<and> err = None"
| "encodable (REncoderNoPtr addr vs err) \<longleftrightarrow> addr \<and> list_all encodable vs \<and> err = None"
| "encodable RUnserializable \<longleftrightarrow> False"
| "encodable _ \<longleftrightarrow> True"

section \<open>Integers and headers\<close>

lemma min_be_step: "x \<noteq> 0 \<Longrightarrow> min_be x = min_be (x div 256) @ [of_nat x]"
  by (simp add: min_be.simps [of x])

lemma putint_min_be:
  assumes "i \<noteq> 0" "i < 2 ^ 64"
  shows "putint i = min_be i"
proof -
  have step: "\<And>x. x \<noteq> 0 \<Longrightarrow> min_be x = min_be (x div 256) @ [of_nat x]"
    by (rule min_be_step)
  have zero: "\<And>a b::nat. a < b \<Longrightarrow> a div b = 0" by simp
  have pos: "\<And>a b::nat. 0 < b \<Longrightarrow> b \<le> a \<Longrightarrow> a div b \<noteq> 0"
    by (simp add: div_eq_0_iff)
  have dd: "i div 256 div 256 = i div 65536" "i div 65536 div 256 = i div 16777216"
    "i div 16777216 div 256 = i div 4294967296" "i div 4294967296 div 256 = i div 1099511627776"
    "i div 1099511627776 div 256 = i div 281474976710656"
    "i div 281474976710656 div 256 = i div 72057594037927936"
    "i div 72057594037927936 div 256 = i div 18446744073709551616"
    by (simp_all add: div_mult2_eq [symmetric])
  consider "i < 2 ^ 8" | "2 ^ 8 \<le> i" "i < 2 ^ 16" | "2 ^ 16 \<le> i" "i < 2 ^ 24"
    | "2 ^ 24 \<le> i" "i < 2 ^ 32" | "2 ^ 32 \<le> i" "i < 2 ^ 40" | "2 ^ 40 \<le> i" "i < 2 ^ 48"
    | "2 ^ 48 \<le> i" "i < 2 ^ 56" | "2 ^ 56 \<le> i"
    by linarith
  then show ?thesis
    using assms
    by cases (simp_all add: putint_def step dd pos zero)
qed

lemma intsize_min_be: "i \<noteq> 0 \<Longrightarrow> intsize i = length (min_be i)"
proof (induction i rule: intsize.induct)
  case (1 i)
  then show ?case
    by (cases "i div 256 = 0") (simp_all add: intsize.simps [of i] min_be_step [of i])
qed


section \<open>The writers of byte strings and integers\<close>

lemma encodeString_spec: "encodeString b w = buf_append (enc_string b) w"
  by (cases b) (auto simp: encodeString_def enc_string_def encodeStringHeader_def puthead_def
      buf_append_def Let_def)

lemma enc_string_small: "n < 128 \<Longrightarrow> n \<noteq> 0 \<Longrightarrow> enc_string (min_be n) = [of_nat n]"
  by (simp add: min_be_step enc_string_def word_le_nat_alt)

lemma writeUint_spec:
  assumes "i < 2 ^ 64"
  shows "writeUint i w = buf_append (enc_nat i) w"
proof -
  consider "i = 0" | "i \<noteq> 0" "i < 128" | "128 \<le> i" by linarith
  then show ?thesis
  proof cases
    case 3
    have len: "length (min_be i) \<le> 8"
      using assms by (intro length_min_be_le) simp
    have "\<not> (length (min_be i) = 1 \<and> min_be i ! 0 \<le> 0x7F)"
    proof
      assume *: "length (min_be i) = 1 \<and> min_be i ! 0 \<le> 0x7F"
      then obtain b where b: "min_be i = [b]" by (cases "min_be i") auto
      then have "i = unat b" by (metis be_nat_min_be be_nat_single)
      with b * 3 show False by (simp add: word_le_nat_alt)
    qed
    with 3 len assms show ?thesis
      by (auto simp: writeUint_def enc_nat_def enc_string_def puthead_def putint_min_be Let_def)
  next
    case 2
    then show ?thesis by (simp add: writeUint_def enc_nat_def enc_string_small)
  qed (simp_all add: writeUint_def enc_nat_def enc_string_def puthead_def)
qed

lemma length_puthead: "n < 2 ^ 64 \<Longrightarrow> length (puthead s l n) = headsize n"
  by (simp add: puthead_def headsize_def putint_min_be intsize_min_be Let_def)


section \<open>What the buffer holds\<close>

text \<open>The three parts a value leaves in the buffer: its string data, the bytes its list headers
  will take, and the headers themselves, at the offset where the value starts.\<close>

fun str_of :: "rval \<Rightarrow> bytes" where
  "str_of (RSlice vs) = concat (map str_of vs)"
| "str_of (RStruct vs) = concat (map str_of vs)"
| "str_of (RTail vs) = concat (map str_of vs)"
| "str_of (REncoder vs err) = concat (map str_of vs)"
| "str_of (REncoderNoPtr addr vs err) = concat (map str_of vs)"
| "str_of RNilStruct = []"
| "str_of v = enc_spec v"

fun head_bytes :: "rval \<Rightarrow> nat" where
  "head_bytes (RSlice vs) = headsize (length (concat (map enc_spec vs))) + sum_list (map head_bytes vs)"
| "head_bytes (RStruct vs) = headsize (length (concat (map enc_spec vs))) + sum_list (map head_bytes vs)"
| "head_bytes (RTail vs) = sum_list (map head_bytes vs)"
| "head_bytes (REncoder vs err) = sum_list (map head_bytes vs)"
| "head_bytes (REncoderNoPtr addr vs err) = sum_list (map head_bytes vs)"
| "head_bytes RNilStruct = 1"
| "head_bytes v = 0"

fun heads :: "nat \<Rightarrow> rval \<Rightarrow> listhead list"
and heads_list :: "nat \<Rightarrow> rval list \<Rightarrow> listhead list" where
  "heads p (RSlice vs) = \<lparr>lh_offset = p, lh_size = length (concat (map enc_spec vs))\<rparr> # heads_list p vs"
| "heads p (RStruct vs) = \<lparr>lh_offset = p, lh_size = length (concat (map enc_spec vs))\<rparr> # heads_list p vs"
| "heads p (RTail vs) = heads_list p vs"
| "heads p (REncoder vs err) = heads_list p vs"
| "heads p (REncoderNoPtr addr vs err) = heads_list p vs"
| "heads p RNilStruct = [\<lparr>lh_offset = p, lh_size = 0\<rparr>]"
| "heads p v = []"
| "heads_list p [] = []"
| "heads_list p (v # vs) = heads p v @ heads_list (p + length (str_of v)) vs"

lemma length_enc_list: "length b < 2 ^ 64 \<Longrightarrow> length (enc_list b) = headsize (length b) + length b"
  by (simp add: enc_list_def length_puthead)

lemma length_enc_list_ge: "length b \<le> length (enc_list b)"
  by (simp add: enc_list_def)

lemma length_concat_ge: "v \<in> set vs \<Longrightarrow> length (f v) \<le> length (concat (map f vs))"
  by (induction vs) auto

lemma length_concat_payload:
  assumes IH: "\<And>v. v \<in> set vs \<Longrightarrow> length (enc_spec v) < 2 ^ 64 \<Longrightarrow>
      length (enc_spec v) = length (str_of v) + head_bytes v"
    and small: "length (concat (map enc_spec vs)) < 2 ^ 64"
  shows "length (concat (map enc_spec vs)) =
      length (concat (map str_of vs)) + sum_list (map head_bytes vs)"
proof -
  have "length (enc_spec v) = length (str_of v) + head_bytes v" if "v \<in> set vs" for v
    using IH [OF that] length_concat_ge [OF that, of enc_spec] small by simp
  then show ?thesis by (induction vs) auto
qed

lemma enc_list_small: "length (enc_list b) < 2 ^ 64 \<Longrightarrow> length b < 2 ^ 64"
  using length_enc_list_ge [of b] by simp

lemma length_enc_spec:
  "length (enc_spec v) < 2 ^ 64 \<Longrightarrow> length (enc_spec v) = length (str_of v) + head_bytes v"
proof (induction v rule: str_of.induct)
  case (1 vs)
  note small = enc_list_small [OF 1(2) [unfolded enc_spec.simps]]
  note len = small length_concat_payload [OF 1(1) small]
  show ?case using len by (simp only: enc_spec.simps str_of.simps head_bytes.simps length_enc_list)
next
  case (2 vs)
  note small = enc_list_small [OF 2(2) [unfolded enc_spec.simps]]
  note len = small length_concat_payload [OF 2(1) small]
  show ?case using len by (simp only: enc_spec.simps str_of.simps head_bytes.simps length_enc_list)
next
  case (3 vs)
  then show ?case using length_concat_payload [of vs] by (simp only: enc_spec.simps str_of.simps head_bytes.simps)
next
  case (4 vs err)
  then show ?case using length_concat_payload [of vs] by (simp only: enc_spec.simps str_of.simps head_bytes.simps)
next
  case (5 addr vs err)
  then show ?case using length_concat_payload [of vs] by (simp only: enc_spec.simps str_of.simps head_bytes.simps)
qed (simp_all add: enc_list_def puthead_def)

lemma payload_small:
  assumes "length (enc_list (concat (map enc_spec vs))) < 2 ^ 64"
  shows "length (concat (map enc_spec vs)) < 2 ^ 64"
    and "length (concat (map enc_spec vs)) =
      length (concat (map str_of vs)) + sum_list (map head_bytes vs)"
  using enc_list_small [OF assms] length_concat_payload [OF length_enc_spec, of vs] by blast+

abbreviation extend :: "encbuf \<Rightarrow> bytes \<Rightarrow> listhead list \<Rightarrow> nat \<Rightarrow> encbuf" where
  "extend w s hs n \<equiv> w\<lparr>eb_str := eb_str w @ s, eb_lheads := eb_lheads w @ hs, eb_lhsize := eb_lhsize w + n\<rparr>"

lemma write_list_close:
  assumes "n = length s + hb"
  shows "listEnd (length (eb_lheads w))
      (extend w s (\<lparr>lh_offset = length (eb_str w), lh_size = eb_lhsize w\<rparr> # hs) hb)
    = extend w s (\<lparr>lh_offset = length (eb_str w), lh_size = n\<rparr> # hs) (headsize n + hb)"
  using assms by (simp add: listEnd_def encbuf_size_def headsize_def nth_append list_update_append Let_def)

lemma write_ok:
  "encodable v \<Longrightarrow> length (enc_spec v) < 2 ^ 64 \<Longrightarrow>
     rlp_write v w = (None, extend w (str_of v) (heads (length (eb_str w)) v) (head_bytes v))"
  "list_all encodable vs \<Longrightarrow> length (concat (map enc_spec vs)) < 2 ^ 64 \<Longrightarrow>
     write_elems vs w = (None, extend w (concat (map str_of vs))
       (heads_list (length (eb_str w)) vs) (sum_list (map head_bytes vs)))"
proof (induction v w and vs w rule: rlp_write_write_elems.induct)
  case (7 vs w)
  note len = payload_small [of vs, folded enc_spec.simps(7), OF "7.prems"(2)]
  show ?case
    using 7(1) [unfolded list_start_def, OF refl] "7.prems"(1) len(1)
    by (simp add: list_start_def write_list_close [OF len(2)])
next
  case (8 vs w)
  note len = payload_small [of vs, folded enc_spec.simps(8), OF "8.prems"(2)]
  show ?case
    using 8(1) [unfolded list_start_def, OF refl] "8.prems"(1) len(1)
    by (simp add: list_start_def write_list_close [OF len(2)])
next
  case (17 v vs w)
  then show ?case by (simp add: add.assoc)
qed (simp_all add: buf_append_def writeUint_spec writeBool_def writeBigInt_def writeBigIntPtr_def
    encodeString_spec list_start_def listEnd_def encbuf_size_def Let_def enc_nat_def enc_string_def
    puthead_def split: option.splits)

section \<open>Merging the headers\<close>

lemma merge_heads_skip:
  "\<forall>h \<in> set hs. length pre + length b \<le> lh_offset h \<Longrightarrow>
   merge_heads (length pre) hs (pre @ b @ suf) = b @ merge_heads (length pre + length b) hs (pre @ b @ suf)"
proof (cases hs)
  case (Cons h hs')
  assume "\<forall>h \<in> set hs. length pre + length b \<le> lh_offset h"
  with Cons have le: "length pre + length b \<le> lh_offset h" by simp
  have "take (lh_offset h - length pre) (b @ suf) = b @ take (lh_offset h - (length pre + length b)) suf"
    using le by simp
  then show ?thesis using Cons le by (simp add: add.assoc)
qed simp

lemma merge_heads_skip1:
  "\<forall>h \<in> set hs. Suc (length pre) \<le> lh_offset h \<Longrightarrow>
   merge_heads (length pre) hs (pre @ x # suf) = x # merge_heads (Suc (length pre)) hs (pre @ x # suf)"
  using merge_heads_skip [of hs pre "[x]" suf] by simp

lemma heads_ge: "h \<in> set (heads p v) \<Longrightarrow> p \<le> lh_offset h"
  "h \<in> set (heads_list p vs) \<Longrightarrow> p \<le> lh_offset h"
  by (induction p v and p vs rule: heads_heads_list.induct) fastforce+

lemma merge_heads_spec:
  "\<forall>h \<in> set hs. length pre + length (str_of v) \<le> lh_offset h \<Longrightarrow>
     merge_heads (length pre) (heads (length pre) v @ hs) (pre @ str_of v @ suf)
       = enc_spec v @ merge_heads (length pre + length (str_of v)) hs (pre @ str_of v @ suf)"
  "\<forall>h \<in> set hs. length pre + length (concat (map str_of vs)) \<le> lh_offset h \<Longrightarrow>
     merge_heads (length pre) (heads_list (length pre) vs @ hs) (pre @ concat (map str_of vs) @ suf)
       = concat (map enc_spec vs) @
         merge_heads (length pre + length (concat (map str_of vs))) hs (pre @ concat (map str_of vs) @ suf)"
proof (induction "length pre" v and "length pre" vs arbitrary: pre hs suf and pre hs suf rule: heads_heads_list.induct)
  case (9 v vs)
  let ?s = "str_of v" and ?r = "concat (map str_of vs)"
  have 1: "merge_heads (length pre) (heads (length pre) v @ heads_list (length pre + length ?s) vs @ hs)
      (pre @ ?s @ ?r @ suf) = enc_spec v @ merge_heads (length pre + length ?s)
        (heads_list (length pre + length ?s) vs @ hs) (pre @ ?s @ ?r @ suf)"
    using 9(3) by (intro 9(1)) (auto dest: heads_ge(2))
  have 2: "merge_heads (length (pre @ ?s)) (heads_list (length (pre @ ?s)) vs @ hs) ((pre @ ?s) @ ?r @ suf)
      = concat (map enc_spec vs) @ merge_heads (length (pre @ ?s) + length ?r) hs ((pre @ ?s) @ ?r @ suf)"
    using 9(3) by (intro 9(2)) auto
  from 1 2 show ?case by (simp add: add.assoc)
qed (simp_all add: merge_heads_skip merge_heads_skip1 enc_list_def listhead_encode_def)

lemma EncodeToBytes_enc_spec:
  assumes "encodable v" "length (enc_spec v) < 2 ^ 64"
  shows "EncodeToBytes v = Inr (enc_spec v)"
  using merge_heads_spec(1) [of "[]" "[]" v "[]"]
  by (simp add: EncodeToBytes_def reset_def new_encbuf_def write_ok(1) [OF assms] toBytes_def)


section \<open>Rejected values\<close>

text \<open>Every reason for refusing a value, in the order in which the value is written.\<close>

fun faults :: "rval \<Rightarrow> rlp_encode_error list" where
  "faults (RBig i) = (if i < 0 then [NegativeBigInt] else [])"
| "faults (RBigPtr p) = (case p of None \<Rightarrow> [] | Some i \<Rightarrow> if i < 0 then [NegativeBigInt] else [])"
| "faults (RSlice vs) = concat (map faults vs)"
| "faults (RStruct vs) = concat (map faults vs)"
| "faults (RTail vs) = concat (map faults vs)"
| "faults (REncoder vs err) = concat (map faults vs) @ map EncoderError (case err of None \<Rightarrow> [] | Some m \<Rightarrow> [m])"
| "faults (REncoderNoPtr addr vs err) =
     (if addr then concat (map faults vs) @ map EncoderError (case err of None \<Rightarrow> [] | Some m \<Rightarrow> [m]) else [UnaddressableValue])"
| "faults RUnserializable = [NotSerializable]"
| "faults _ = []"

definition first_of :: "'a list \<Rightarrow> 'a option" where
  "first_of xs = (case xs of [] \<Rightarrow> None | x # _ \<Rightarrow> Some x)"

lemma first_of_simps [simp]:
  "first_of [] = None" "first_of (x # xs) = Some x"
  "first_of (xs @ ys) = (case first_of xs of None \<Rightarrow> first_of ys | Some x \<Rightarrow> Some x)"
  by (simp_all add: first_of_def split: list.split)

lemma write_fault:
  "fst (rlp_write v w) = first_of (faults v)"
  "fst (write_elems vs w) = first_of (concat (map faults vs))"
proof (induction v w and vs w rule: rlp_write_write_elems.induct)
  case (7 vs w)
  then show ?case by (auto simp: list_start_def split: prod.splits)
next
  case (8 vs w)
  then show ?case by (auto simp: list_start_def split: prod.splits option.splits)
next
  case (13 vs err w)
  then show ?case by (cases err) (auto split: prod.splits option.splits)
next
  case (14 addr vs err w)
  then show ?case by (cases err) (auto split: prod.splits option.splits)
next
  case (17 v vs w)
  then show ?case by (auto split: prod.splits option.splits)
qed (simp_all add: writeBigInt_def writeBigIntPtr_def list_start_def split: option.splits)

section \<open>Properties\<close>

text \<open>C12. Encoding a value through the buffer with its out-of-line list headers yields the RLP
  format: on every value of the encoder (booleans included, although the comment on \<^verbatim>\<open>Encode\<close> says
  that they are not supported) that holds no negative big integer and no failing \<^verbatim>\<open>Encoder\<close>, and
  whose encoding is shorter than \<open>2 ^ 64\<close> bytes, \<^verbatim>\<open>EncodeToBytes\<close> succeeds and its bytes are the
  recursive reference encoding.\<close>

theorem EncodeToBytes_refines:
  assumes "encodable v" and "length (enc_spec v) < 2 ^ 64"
  shows "EncodeToBytes v = Inr (enc_spec v)"
  by (rule EncodeToBytes_enc_spec [OF assms])

theorem EncodeToBytes_refines_witness:
  "EncodeToBytes (RStruct [RUint 1024, RSlice [RBig 5, RBytes [200]], RBool True, REncoder [RNilArray] None]) =
     Inr [0xC9, 0x82, 4, 0, 0xC3, 5, 0x81, 200, 1, 0x80]"
proof -
  let ?v = "RStruct [RUint 1024, RSlice [RBig 5, RBytes [200]], RBool True, REncoder [RNilArray] None]"
  have enc: "enc_spec ?v = [0xC9, 0x82, 4, 0, 0xC3, 5, 0x81, 200, 1, 0x80]" by code_simp
  have "length (enc_spec ?v) < 2 ^ 64" unfolding enc by simp
  with EncodeToBytes_refines [of ?v] show ?thesis unfolding enc by simp
qed

text \<open>C29. The encoder fails exactly when the value has a fault, wherever it occurs in the value: a
  negative big integer, an \<^verbatim>\<open>Encoder\<close> whose pointer method cannot be called because the value has no
  address, a type without a writer, or an error returned by an \<^verbatim>\<open>EncodeRLP\<close> method; and the error
  it returns is that of the first fault in the order of writing. Every other value is encoded.\<close>

theorem EncodeToBytes_error_iff:
  "(EncodeToBytes v = Inl e \<longleftrightarrow> (\<exists>es. faults v = e # es)) \<and> ((\<exists>b. EncodeToBytes v = Inr b) \<longleftrightarrow> faults v = [])"
proof -
  have "fst (rlp_write v (reset new_encbuf)) = first_of (faults v)" by (rule write_fault(1))
  then show ?thesis
    by (cases "faults v") (auto simp: EncodeToBytes_def split: prod.splits option.splits)
qed

end
