(* ===== verification/RLP_Stream.thy ===== *)
theory RLP_Stream
  imports RLP_Encode
begin

text \<open>
  The decoder of package rlp (\<^verbatim>\<open>src/rlp/decode.go\<close>).

  A \<open>stream\<close> is the Go \<^verbatim>\<open>Stream\<close>: the unread input, the input limit, the cached kind of the
  value ahead (\<open>None\<close> is the Go value \<^verbatim>\<open>-1\<close>) and the stack of enclosing lists, innermost
  first. Every operation is a function from the stream to a result and the new stream; the typed
  decoders that Go builds by reflection are combinators over these operations, one per decoder
  function of the source.

  The sizes are \<^verbatim>\<open>uint64\<close> in Go. A size is read from at most eight bytes, and the only
  subtraction, \<^verbatim>\<open>tos.size - tos.pos\<close>, is of a position within its list
  (\<open>stack_ok\<close>, kept by every operation), so the natural numbers of the model never differ from
  the machine's.
\<close>

section \<open>Streams\<close>

datatype kind = Byte | String | List

datatype rlp_error =
    EOL
  | EOF
  | ErrUnexpectedEOF
  | ErrExpectedString
  | ErrExpectedList
  | ErrCanonInt
  | ErrCanonSize
  | ErrElemTooLarge
  | ErrValueTooLarge
  | ErrMoreThanOneValue
  | ErrNotInList
  | ErrNotAtEOL
  | ErrUintOverflow
  | DecodeError string
  | OutOfFuel  \<comment> \<open>not a Go error: the element loop of the model ran out of fuel\<close>

record listpos =
  lp_pos :: nat
  lp_size :: nat

record stream =
  s_r :: bytes
  s_remaining :: nat
  s_limited :: bool
  s_kind :: "kind option"
  s_size :: nat
  s_byteval :: byte
  s_kinderr :: "rlp_error option"
  s_stack :: "listpos list"

type_synonym 'a decoder = "stream \<Rightarrow> (rlp_error + 'a) \<times> stream"

definition dret :: "'a \<Rightarrow> 'a decoder" where
  "dret x s = (Inr x, s)"

definition dbind :: "'a decoder \<Rightarrow> ('a \<Rightarrow> 'b decoder) \<Rightarrow> 'b decoder" where
  "dbind d f s = (case d s of (Inl e, s') \<Rightarrow> (Inl e, s') | (Inr x, s') \<Rightarrow> f x s')"

text \<open>\<^verbatim>\<open>NewStream(r, limit)\<close> on a byte reader: an input limit of 0 is replaced by the length
  of the reader.\<close>

definition NewStream :: "bytes \<Rightarrow> nat \<Rightarrow> stream" where
  "NewStream r inputLimit =
     \<lparr>s_r = r,
      s_remaining = (if inputLimit > 0 then inputLimit else length r),
      s_limited = True,
      s_kind = None, s_size = 0, s_byteval = 0, s_kinderr = None, s_stack = []\<rparr>"

definition willRead :: "nat \<Rightarrow> unit decoder" where
  "willRead n s0 =
     (let s = s0\<lparr>s_kind := None\<rparr> in
      case s_stack s of
        tos # st \<Rightarrow>
          if n > lp_size tos - lp_pos tos then (Inl ErrElemTooLarge, s)
          else
            (let s1 = s\<lparr>s_stack := tos\<lparr>lp_pos := lp_pos tos + n\<rparr> # st\<rparr> in
             if s_limited s1 then
               if n > s_remaining s1 then (Inl ErrValueTooLarge, s1)
               else (Inr (), s1\<lparr>s_remaining := s_remaining s1 - n\<rparr>)
             else (Inr (), s1))
      | [] \<Rightarrow>
          if s_limited s then
            if n > s_remaining s then (Inl ErrValueTooLarge, s)
            else (Inr (), s\<lparr>s_remaining := s_remaining s - n\<rparr>)
          else (Inr (), s))"

definition readByte :: "byte decoder" where
  "readByte s =
     (case willRead 1 s of
        (Inl e, s1) \<Rightarrow> (Inl e, s1)
      | (Inr _, s1) \<Rightarrow>
          (case s_r s1 of
             [] \<Rightarrow> (Inl ErrUnexpectedEOF, s1)
           | b # bs \<Rightarrow> (Inr b, s1\<lparr>s_r := bs\<rparr>)))"

definition readFull :: "nat \<Rightarrow> bytes decoder" where
  "readFull n s =
     (case willRead n s of
        (Inl e, s1) \<Rightarrow> (Inl e, s1)
      | (Inr _, s1) \<Rightarrow>
          (if n \<le> length (s_r s1) then (Inr (take n (s_r s1)), s1\<lparr>s_r := drop n (s_r s1)\<rparr>)
           else (Inl ErrUnexpectedEOF, s1\<lparr>s_r := []\<rparr>)))"

definition readUint :: "nat \<Rightarrow> nat decoder" where
  "readUint sz s =
     (if sz = 0 then (Inr 0, s\<lparr>s_kind := None\<rparr>)
      else if sz = 1 then
        (case readByte s of (Inl e, s1) \<Rightarrow> (Inl e, s1) | (Inr b, s1) \<Rightarrow> (Inr (unat b), s1))
      else
        (case readFull sz s of
           (Inl e, s1) \<Rightarrow> (Inl e, s1)
         | (Inr buf, s1) \<Rightarrow>
             if buf ! 0 = 0 then (Inl ErrCanonSize, s1) else (Inr (be_nat buf), s1)))"

text \<open>\<^verbatim>\<open>readKind\<close> returns the kind and size next to the error, and \<^verbatim>\<open>Kind\<close> caches
  all three; the model returns the triple.\<close>

definition readKind :: "stream \<Rightarrow> (kind \<times> nat \<times> rlp_error option) \<times> stream" where
  "readKind s =
     (case readByte s of
        (Inl e, s1) \<Rightarrow>
          ((Byte, 0, Some (if s_stack s1 = [] \<and> (e = ErrUnexpectedEOF \<or> e = ErrValueTooLarge)
                           then EOF else e)), s1)
      | (Inr b, s1) \<Rightarrow>
          (let s2 = s1\<lparr>s_byteval := 0\<rparr> in
           if b < 0x80 then ((Byte, 0, None), s2\<lparr>s_byteval := b\<rparr>)
           else if b < 0xB8 then ((String, unat (b - 0x80), None), s2)
           else if b < 0xC0 then
             (case readUint (unat (b - 0xB7)) s2 of
                (Inl e, s3) \<Rightarrow> ((String, 0, Some e), s3)
              | (Inr sz, s3) \<Rightarrow> ((String, sz, if sz < 56 then Some ErrCanonSize else None), s3))
           else if b < 0xF8 then ((List, unat (b - 0xC0), None), s2)
           else
             (case readUint (unat (b - 0xF7)) s2 of
                (Inl e, s3) \<Rightarrow> ((List, 0, Some e), s3)
              | (Inr sz, s3) \<Rightarrow> ((List, sz, if sz < 56 then Some ErrCanonSize else None), s3))))"

definition cached_kind :: "stream \<Rightarrow> (rlp_error + kind \<times> nat) \<times> stream" where
  "cached_kind s =
     (case s_kinderr s of
        Some e \<Rightarrow> (Inl e, s)
      | None \<Rightarrow> (Inr (the (s_kind s), s_size s), s))"

definition Kind :: "(kind \<times> nat) decoder" where
  "Kind s0 =
     (if s_kind s0 \<noteq> None then cached_kind s0
      else
        (let s = s0\<lparr>s_kinderr := None\<rparr> in
         case s_stack s of
           tos # st \<Rightarrow>
             if lp_pos tos = lp_size tos then (Inl EOL, s)
             else
               (case readKind s of ((k, sz, err), s1) \<Rightarrow>
                  let tos1 = hd (s_stack s1);
                      err1 = (if err = None \<and> sz > lp_size tos1 - lp_pos tos1
                              then Some ErrElemTooLarge else err)
                  in cached_kind (s1\<lparr>s_kind := Some k, s_size := sz, s_kinderr := err1\<rparr>))
         | [] \<Rightarrow>
             (case readKind s of ((k, sz, err), s1) \<Rightarrow>
                let err1 = (if err = None \<and> s_limited s1 \<and> sz > s_remaining s1
                            then Some ErrValueTooLarge else err)
                in cached_kind (s1\<lparr>s_kind := Some k, s_size := sz, s_kinderr := err1\<rparr>))))"

definition Bytes :: "bytes decoder" where
  "Bytes s =
     (case Kind s of
        (Inl e, s1) \<Rightarrow> (Inl e, s1)
      | (Inr (Byte, sz), s1) \<Rightarrow> (Inr [s_byteval s1], s1\<lparr>s_kind := None\<rparr>)
      | (Inr (String, sz), s1) \<Rightarrow>
          (case readFull sz s1 of
             (Inl e, s2) \<Rightarrow> (Inl e, s2)
           | (Inr b, s2) \<Rightarrow>
               if sz = 1 \<and> b ! 0 < 128 then (Inl ErrCanonSize, s2) else (Inr b, s2))
      | (Inr (List, sz), s1) \<Rightarrow> (Inl ErrExpectedString, s1))"

definition Raw :: "bytes decoder" where
  "Raw s =
     (case Kind s of
        (Inl e, s1) \<Rightarrow> (Inl e, s1)
      | (Inr (k, sz), s1) \<Rightarrow>
          if k = Byte then (Inr [s_byteval s1], s1\<lparr>s_kind := None\<rparr>)
          else
            (case readFull sz s1 of
               (Inl e, s2) \<Rightarrow> (Inl e, s2)
             | (Inr b, s2) \<Rightarrow>
                 (Inr ((if k = String then puthead 0x80 0xB7 sz else puthead 0xC0 0xF7 sz) @ b),
                  s2)))"

definition stream_uint :: "nat \<Rightarrow> nat decoder" where
  "stream_uint maxbits s =
     (case Kind s of
        (Inl e, s1) \<Rightarrow> (Inl e, s1)
      | (Inr (Byte, sz), s1) \<Rightarrow>
          if s_byteval s1 = 0 then (Inl ErrCanonInt, s1)
          else (Inr (unat (s_byteval s1)), s1\<lparr>s_kind := None\<rparr>)
      | (Inr (String, sz), s1) \<Rightarrow>
          if sz > maxbits div 8 then (Inl ErrUintOverflow, s1)
          else
            (case readUint sz s1 of
               (Inl e, s2) \<Rightarrow> (Inl (if e = ErrCanonSize then ErrCanonInt else e), s2)
             | (Inr v, s2) \<Rightarrow>
                 if sz > 0 \<and> v < 128 then (Inl ErrCanonSize, s2) else (Inr v, s2))
      | (Inr (List, sz), s1) \<Rightarrow> (Inl ErrExpectedString, s1))"

definition stream_Bool :: "bool decoder" where
  "stream_Bool s =
     (case stream_uint 8 s of
        (Inl e, s1) \<Rightarrow> (Inl e, s1)
      | (Inr num, s1) \<Rightarrow>
          if num = 0 then (Inr False, s1)
          else if num = 1 then (Inr True, s1)
          else (Inl (DecodeError ''invalid boolean value''), s1))"

definition List_start :: "nat decoder" where
  "List_start s =
     (case Kind s of
        (Inl e, s1) \<Rightarrow> (Inl e, s1)
      | (Inr (k, sz), s1) \<Rightarrow>
          if k \<noteq> List then (Inl ErrExpectedList, s1)
          else (Inr sz,
                s1\<lparr>s_stack := \<lparr>lp_pos = 0, lp_size = sz\<rparr> # s_stack s1,
                   s_kind := None, s_size := 0\<rparr>))"

definition ListEnd :: "unit decoder" where
  "ListEnd s =
     (case s_stack s of
        [] \<Rightarrow> (Inl ErrNotInList, s)
      | tos # st \<Rightarrow>
          if lp_pos tos \<noteq> lp_size tos then (Inl ErrNotAtEOL, s)
          else
            (Inr (),
             s\<lparr>s_stack := (case st of
                            [] \<Rightarrow> []
                          | par # st' \<Rightarrow> par\<lparr>lp_pos := lp_pos par + lp_size tos\<rparr> # st'),
               s_kind := None, s_size := 0\<rparr>))"

section \<open>Typed decoders\<close>

fun wrapStreamError :: "rlp_error \<Rightarrow> rlp_error" where
  "wrapStreamError ErrCanonInt = DecodeError ''non-canonical integer (leading zero bytes)''"
| "wrapStreamError ErrCanonSize = DecodeError ''non-canonical size information''"
| "wrapStreamError ErrExpectedList = DecodeError ''expected input list''"
| "wrapStreamError ErrExpectedString = DecodeError ''expected input string or byte''"
| "wrapStreamError ErrUintOverflow = DecodeError ''input string too long''"
| "wrapStreamError ErrNotAtEOL = DecodeError ''input list has too many elements''"
| "wrapStreamError e = e"

definition wrapped :: "'a decoder \<Rightarrow> 'a decoder" where
  "wrapped d s = (case d s of (Inl e, s') \<Rightarrow> (Inl (wrapStreamError e), s') | r \<Rightarrow> r)"

definition decodeUint :: "nat \<Rightarrow> nat decoder" where
  "decodeUint bits = wrapped (stream_uint bits)"

definition decodeBool :: "bool decoder" where
  "decodeBool = wrapped stream_Bool"

definition decodeBigInt :: "int decoder" where
  "decodeBigInt s =
     (case wrapped Bytes s of
        (Inl e, s1) \<Rightarrow> (Inl e, s1)
      | (Inr b, s1) \<Rightarrow>
          if length b > 0 \<and> b ! 0 = 0 then (Inl (wrapStreamError ErrCanonInt), s1)
          else (Inr (int (be_nat b)), s1))"

definition decodeByteSlice :: "bytes decoder" where
  "decodeByteSlice = wrapped Bytes"

definition decodeByteArray :: "nat \<Rightarrow> bytes decoder" where
  "decodeByteArray vlen s =
     (case Kind s of
        (Inl e, s1) \<Rightarrow> (Inl e, s1)
      | (Inr (Byte, sz), s1) \<Rightarrow>
          if vlen = 0 then (Inl (DecodeError ''input string too long''), s1)
          else if vlen > 1 then (Inl (DecodeError ''input string too short''), s1)
          else
            (case stream_uint 64 s1 of
               (Inl e, s2) \<Rightarrow> (Inr [0], s2)
             | (Inr bv, s2) \<Rightarrow> (Inr [of_nat bv], s2))
      | (Inr (String, sz), s1) \<Rightarrow>
          if vlen < sz then (Inl (DecodeError ''input string too long''), s1)
          else if vlen > sz then (Inl (DecodeError ''input string too short''), s1)
          else
            (case readFull vlen s1 of
               (Inl e, s2) \<Rightarrow> (Inl e, s2)
             | (Inr buf, s2) \<Rightarrow>
                 if sz = 1 \<and> buf ! 0 < 128
                 then (Inl (wrapStreamError ErrCanonSize), s2) else (Inr buf, s2))
      | (Inr (List, sz), s1) \<Rightarrow> (Inl (wrapStreamError ErrExpectedString), s1))"

text \<open>The element loop runs until an element decoder reports the end of the list. Each element
  takes at least one byte of the input, so the input's length bounds the number of turns.\<close>

fun decodeSliceElems :: "nat \<Rightarrow> 'a decoder \<Rightarrow> 'a list decoder" where
  "decodeSliceElems 0 elemdec s = (Inl OutOfFuel, s)"
| "decodeSliceElems (Suc fuel) elemdec s =
     (case elemdec s of
        (Inl e, s1) \<Rightarrow> if e = EOL then (Inr [], s1) else (Inl e, s1)
      | (Inr x, s1) \<Rightarrow>
          (case decodeSliceElems fuel elemdec s1 of
             (Inl e, s2) \<Rightarrow> (Inl e, s2)
           | (Inr xs, s2) \<Rightarrow> (Inr (x # xs), s2)))"

definition decodeListSlice :: "'a decoder \<Rightarrow> 'a list decoder" where
  "decodeListSlice elemdec s =
     (case wrapped List_start s of
        (Inl e, s1) \<Rightarrow> (Inl e, s1)
      | (Inr sz, s1) \<Rightarrow>
          if sz = 0 then dbind ListEnd (\<lambda>_. dret []) s1
          else
            (case decodeSliceElems (Suc (length (s_r s1))) elemdec s1 of
               (Inl e, s2) \<Rightarrow> (Inl e, s2)
             | (Inr xs, s2) \<Rightarrow> dbind ListEnd (\<lambda>_. dret xs) s2))"

text \<open>\<^verbatim>\<open>makeStructDecoder\<close>: the fields are read in order between the list's start and its
  end; a field that meets the end of the list is a missing field.\<close>

definition struct_field :: "'a decoder \<Rightarrow> 'a decoder" where
  "struct_field d s =
     (case d s of
        (Inl e, s1) \<Rightarrow> (Inl (if e = EOL then DecodeError ''too few elements'' else e), s1)
      | r \<Rightarrow> r)"

definition structDecoder :: "'a decoder \<Rightarrow> 'a decoder" where
  "structDecoder body =
     dbind (wrapped List_start) (\<lambda>_. dbind body (\<lambda>v. dbind (wrapped ListEnd) (\<lambda>_. dret v)))"

definition optionalPtrDecoder :: "'a decoder \<Rightarrow> 'a option decoder" where
  "optionalPtrDecoder d s =
     (case Kind s of
        (Inl e, s1) \<Rightarrow> (Inl e, s1\<lparr>s_kind := None\<rparr>)
      | (Inr (k, sz), s1) \<Rightarrow>
          if sz = 0 \<and> k \<noteq> Byte then (Inr None, s1\<lparr>s_kind := None\<rparr>)
          else dbind d (\<lambda>v. dret (Some v)) s1)"

definition DecodeBytes :: "bytes \<Rightarrow> 'a decoder \<Rightarrow> rlp_error + 'a" where
  "DecodeBytes b dec =
     (case dec (NewStream b (length b)) of
        (Inl e, s) \<Rightarrow> Inl e
      | (Inr v, s) \<Rightarrow> if s_r s \<noteq> [] then Inl ErrMoreThanOneValue else Inr v)"

section \<open>What a decoder reads\<close>

text \<open>
  \<open>room n s\<close> says that the innermost list and the input limit leave room for \<open>n\<close> more bytes,
  \<open>advanced n s s'\<close> that \<open>s'\<close> is \<open>s\<close> after consuming \<open>n\<close> bytes, and \<open>reads dec e v\<close> that
  \<open>dec\<close>, started at a value boundary in front of the bytes \<open>e\<close>, consumes exactly \<open>e\<close> and
  returns \<open>v\<close>. The last one composes: a struct is read by reading its fields in order.
\<close>


definition room :: "nat \<Rightarrow> stream \<Rightarrow> bool" where
  "room n s \<longleftrightarrow>
     (case s_stack s of [] \<Rightarrow> True | tos # _ \<Rightarrow> lp_pos tos + n \<le> lp_size tos) \<and>
     (s_limited s \<longrightarrow> n \<le> s_remaining s)"

definition push_pos :: "nat \<Rightarrow> listpos list \<Rightarrow> listpos list" where
  "push_pos n st = (case st of [] \<Rightarrow> [] | tos # st' \<Rightarrow> tos\<lparr>lp_pos := lp_pos tos + n\<rparr> # st')"

definition advanced :: "nat \<Rightarrow> stream \<Rightarrow> stream \<Rightarrow> bool" where
  "advanced n s s' \<longleftrightarrow>
     s_r s' = drop n (s_r s) \<and> s_limited s' = s_limited s \<and>
     s_remaining s' = (if s_limited s then s_remaining s - n else s_remaining s) \<and>
     s_stack s' = push_pos n (s_stack s)"

definition reads :: "'a decoder \<Rightarrow> bytes \<Rightarrow> 'a \<Rightarrow> bool" where
  "reads dec e v \<longleftrightarrow>
     (\<forall>s rest. s_kind s = None \<and> s_r s = e @ rest \<and> room (length e) s \<longrightarrow>
        (\<exists>s'. dec s = (Inr v, s') \<and> s_kind s' = None \<and> advanced (length e) s s'))"

lemma readsI:
  assumes "\<And>s rest. s_kind s = None \<Longrightarrow> s_r s = e @ rest \<Longrightarrow> room (length e) s \<Longrightarrow>
     \<exists>s'. dec s = (Inr v, s') \<and> s_kind s' = None \<and> advanced (length e) s s'"
  shows "reads dec e v"
  using assms by (auto simp: reads_def)

lemma readsE:
  assumes "reads dec e v" "s_kind s = None" "s_r s = e @ rest" "room (length e) s"
  obtains s' where "dec s = (Inr v, s')" "s_kind s' = None" "advanced (length e) s s'"
  using assms unfolding reads_def by blast

lemma push_pos_simps [simp]:
  "push_pos n [] = []"
  "push_pos n (t # st) = t\<lparr>lp_pos := lp_pos t + n\<rparr> # st"
  by (simp_all add: push_pos_def)

lemma push_pos_add: "push_pos m (push_pos n st) = push_pos (n + m) st"
  by (cases st) (simp_all add: add.assoc)

lemma push_pos_0 [simp]: "push_pos 0 st = st"
  by (cases st) simp_all

lemma advanced_trans: "advanced n s s1 \<Longrightarrow> advanced m s1 s2 \<Longrightarrow> advanced (n + m) s s2"
  by (auto simp: advanced_def push_pos_add add.commute)

lemma advanced_room: "advanced n s s1 \<Longrightarrow> room (n + m) s \<Longrightarrow> room m s1"
  by (auto simp: advanced_def room_def push_pos_def split: list.splits)

lemma willRead_room:
  "room n s \<Longrightarrow> \<exists>s'. willRead n s = (Inr (), s') \<and> s_r s' = s_r s \<and> s_kind s' = None \<and>
     s_limited s' = s_limited s \<and>
     s_remaining s' = (if s_limited s then s_remaining s - n else s_remaining s) \<and>
     s_stack s' = push_pos n (s_stack s) \<and> s_byteval s' = s_byteval s"
  by (auto simp: willRead_def room_def Let_def split: list.splits)

lemma readFull_room:
  assumes "room (length b) s" "s_r s = b @ rest"
  shows "\<exists>s'. readFull (length b) s = (Inr b, s') \<and> s_kind s' = None \<and> advanced (length b) s s'"
  using willRead_room [OF assms(1)] assms(2) by (auto simp: readFull_def advanced_def)

lemma readByte_room:
  assumes "room 1 s" "s_r s = b # rest"
  shows "\<exists>s'. readByte s = (Inr b, s') \<and> s_kind s' = None \<and> advanced 1 s s'"
  using willRead_room [OF assms(1)] assms(2) by (auto simp: readByte_def advanced_def)

lemma readUint_room:
  assumes "room (length b) s" "s_r s = b @ rest" "length b \<ge> 1" "b ! 0 \<noteq> 0"
  shows "\<exists>s'. readUint (length b) s = (Inr (be_nat b), s') \<and> s_kind s' = None \<and> advanced (length b) s s'"
proof (cases "length b = 1")
  case True
  then obtain c where "b = [c]" by (cases b) auto
  then show ?thesis using assms readByte_room [of s c rest] by (auto simp: readUint_def)
next
  case False
  then show ?thesis using assms(3,4) readFull_room [OF assms(1,2)] by (auto simp: readUint_def)
qed


lemma byte_tag:
  "n < 56 \<Longrightarrow> unat (0x80 + of_nat n :: byte) = 128 + n"
  "n < 56 \<Longrightarrow> unat (0xC0 + of_nat n :: byte) = 192 + n"
  "k \<le> 8 \<Longrightarrow> unat (0xB7 + of_nat k :: byte) = 183 + k"
  "k \<le> 8 \<Longrightarrow> unat (0xF7 + of_nat k :: byte) = 247 + k"
  by (simp_all add: unat_word_ariths)

lemma length_putint: "n < 2 ^ 64 \<Longrightarrow> 0 < n \<Longrightarrow> 1 \<le> length (putint n) \<and> length (putint n) \<le> 8"
  using length_min_be_le [of n 8] by (simp add: putint_min_be Suc_le_eq)

lemma putint_hd: "n < 2 ^ 64 \<Longrightarrow> 0 < n \<Longrightarrow> putint n ! 0 \<noteq> 0"
  using min_be_hd [of n] by (simp add: putint_min_be hd_conv_nth)

lemma be_nat_putint: "n < 2 ^ 64 \<Longrightarrow> 0 < n \<Longrightarrow> be_nat (putint n) = n"
  by (simp add: putint_min_be)

lemma room_split: "room (n + m) s \<Longrightarrow> room n s"
  by (auto simp: room_def split: list.splits)

lemma room_mono: "room n s \<Longrightarrow> m \<le> n \<Longrightarrow> room m s"
  by (auto simp: room_def split: list.splits)

lemma advanced_upd:
  "advanced n s (s'\<lparr>s_byteval := b\<rparr>) = advanced n s s'"
  "advanced n s (s'\<lparr>s_kind := k\<rparr>) = advanced n s s'"
  "advanced n s (s'\<lparr>s_size := z\<rparr>) = advanced n s s'"
  "advanced n s (s'\<lparr>s_kinderr := e\<rparr>) = advanced n s s'"
  "advanced n (s\<lparr>s_kinderr := e\<rparr>) s' = advanced n s s'"
  "advanced n (s\<lparr>s_byteval := b\<rparr>) s' = advanced n s s'"
  by (simp_all add: advanced_def)

lemma room_upd [simp]:
  "room n (s\<lparr>s_byteval := b\<rparr>) = room n s"
  "room n (s\<lparr>s_kind := k\<rparr>) = room n s"
  "room n (s\<lparr>s_size := z\<rparr>) = room n s"
  "room n (s\<lparr>s_kinderr := e\<rparr>) = room n s"
  by (simp_all add: room_def)

definition head_tags :: "byte \<Rightarrow> byte \<Rightarrow> kind \<Rightarrow> bool" where
  "head_tags sm lg k \<longleftrightarrow> (sm = 0x80 \<and> lg = 0xB7 \<and> k = String) \<or> (sm = 0xC0 \<and> lg = 0xF7 \<and> k = List)"

lemma readKind_small:
  assumes t: "head_tags sm lg k" and n: "n < 56"
    and rm: "room 1 s" and r: "s_r s = (sm + of_nat n) # rest"
  shows "\<exists>s'. readKind s = ((k, n, None), s') \<and> s_kind s' = None \<and> advanced 1 s s'"
proof -
  obtain s1 where s1: "readByte s = (Inr (sm + of_nat n), s1)" "s_kind s1 = None" "advanced 1 s s1"
    using readByte_room [OF rm r] by blast
  have "unat (128 + of_nat n - 128 :: byte) = n" "unat (192 + of_nat n - 192 :: byte) = n"
    using n by simp_all
  then show ?thesis
    using t s1 n byte_tag(1,2) [OF n]
    by (auto simp: readKind_def head_tags_def word_less_nat_alt Let_def advanced_upd)
qed

lemma readKind_large:
  assumes t: "head_tags sm lg k" and n: "56 \<le> n" "n < 2 ^ 64"
    and rm: "room (1 + length (putint n)) s"
    and r: "s_r s = (lg + of_nat (length (putint n))) # putint n @ rest"
  shows "\<exists>s'. readKind s = ((k, n, None), s') \<and> s_kind s' = None \<and> advanced (1 + length (putint n)) s s'"
proof -
  let ?l = "length (putint n)"
  have pos: "0 < n" using n by simp
  have l: "1 \<le> ?l" "?l \<le> 8" using length_putint n by simp_all
  obtain s1 where s1: "readByte s = (Inr (lg + of_nat ?l), s1)" "s_kind s1 = None" "advanced 1 s s1"
    using readByte_room [OF room_split [OF rm] r] by blast
  have rm1: "room ?l s1" using advanced_room [OF s1(3) rm] .
  have r1: "s_r (s1\<lparr>s_byteval := 0\<rparr>) = putint n @ rest" using s1(3) r by (simp add: advanced_def)
  obtain s2 where s2: "readUint ?l (s1\<lparr>s_byteval := 0\<rparr>) = (Inr n, s2)" "s_kind s2 = None"
    "advanced ?l s1 s2"
    using readUint_room [of "putint n" "s1\<lparr>s_byteval := 0\<rparr>" rest] rm1 r1 l putint_hd [OF n(2) pos]
      be_nat_putint [OF n(2) pos] by (auto simp: advanced_upd)
  have "unat (183 + of_nat ?l - 183 :: byte) = ?l" "unat (247 + of_nat ?l - 247 :: byte) = ?l"
    using l by simp_all
  then have "readKind s = ((k, n, None), s2)"
    using t s1(1) s2(1) n(1) l byte_tag(3,4) [OF l(2)]
    by (auto simp: readKind_def head_tags_def word_less_nat_alt Let_def)
  then show ?thesis using s2(2) advanced_trans [OF s1(3) s2(3)] by simp
qed

lemma readKind_head:
  assumes "head_tags sm lg k" "n < 2 ^ 64" "room (length (puthead sm lg n)) s"
    "s_r s = puthead sm lg n @ rest"
  shows "\<exists>s'. readKind s = ((k, n, None), s') \<and> s_kind s' = None \<and>
     advanced (length (puthead sm lg n)) s s'"
proof (cases "n < 56")
  case True
  then show ?thesis
    using readKind_small [OF assms(1) True, of s rest] assms(3,4) by (simp add: puthead_def)
next
  case False
  then show ?thesis
    using readKind_large [OF assms(1) _ assms(2), of s rest] assms(3,4)
    by (simp add: puthead_def Let_def)
qed

lemma readKind_byte:
  assumes "b < 0x80" "room 1 s" "s_r s = b # rest"
  shows "\<exists>s'. readKind s = ((Byte, 0, None), s') \<and> s_kind s' = None \<and> s_byteval s' = b \<and> advanced 1 s s'"
  using readByte_room [OF assms(2,3)] assms(1) by (auto simp: readKind_def Let_def advanced_upd)

lemma Kind_of_readKind:
  assumes k: "s_kind s = None" and h: "0 < h" "room (h + n) s"
    and rk: "readKind (s\<lparr>s_kinderr := None\<rparr>) = ((k, n, None), s')" "advanced h s s'"
  shows "Kind s = (Inr (k, n), s'\<lparr>s_kind := Some k, s_size := n, s_kinderr := None\<rparr>)"
proof (cases "s_stack s")
  case Nil
  then have "s_limited s' \<longrightarrow> n \<le> s_remaining s'"
    using h rk(2) by (auto simp: room_def advanced_def)
  then show ?thesis using Nil k rk by (auto simp: Kind_def cached_kind_def Let_def)
next
  case (Cons tos st)
  then have "lp_pos tos \<noteq> lp_size tos" and "n \<le> lp_size (hd (s_stack s')) - lp_pos (hd (s_stack s'))"
    using h rk(2) by (auto simp: room_def advanced_def)
  then show ?thesis using Cons k rk by (auto simp: Kind_def cached_kind_def Let_def)
qed

lemma length_puthead_pos: "0 < length (puthead sm lg n)"
  by (simp add: puthead_def Let_def)

lemma Kind_head:
  assumes "head_tags sm lg k" "n < 2 ^ 64" "room (length (puthead sm lg n) + n) s"
    "s_r s = puthead sm lg n @ rest" "s_kind s = None"
  obtains s' where "Kind s = (Inr (k, n), s')" "advanced (length (puthead sm lg n)) s s'"
proof -
  let ?h = "length (puthead sm lg n)"
  from readKind_head [OF assms(1,2), of "s\<lparr>s_kinderr := None\<rparr>" rest] assms(3,4)
  obtain s' where s': "readKind (s\<lparr>s_kinderr := None\<rparr>) = ((k, n, None), s')" "advanced ?h s s'"
    by (auto simp: advanced_upd dest: room_split)
  with Kind_of_readKind [OF assms(5) length_puthead_pos assms(3) s'] that show thesis
    by (simp add: advanced_upd)
qed

lemma Kind_byte:
  assumes "b < 0x80" "room 1 s" "s_r s = b # rest" "s_kind s = None"
  obtains s' where "Kind s = (Inr (Byte, 0), s')" "s_byteval s' = b" "advanced 1 s s'"
proof -
  from readKind_byte [OF assms(1), of "s\<lparr>s_kinderr := None\<rparr>" rest] assms(2,3)
  obtain s' where s': "readKind (s\<lparr>s_kinderr := None\<rparr>) = ((Byte, 0, None), s')" "s_byteval s' = b"
    "advanced 1 s s'"
    by (auto simp: advanced_upd)
  with Kind_of_readKind [OF assms(4), of 1 0 Byte s'] assms(2) that show thesis
    by (simp add: advanced_upd)
qed


lemma enc_string_cases:
  obtains c where "b = [c]" "c < 0x80" "enc_string b = [c]"
  | "\<not> (length b = 1 \<and> b ! 0 < 0x80)" "enc_string b = puthead 0x80 0xB7 (length b) @ b"
proof (cases "length b = 1 \<and> b ! 0 \<le> 0x7F")
  case True
  then obtain c where "b = [c]" by (cases b) auto
  with True that(1) [of c] show thesis by (simp add: enc_string_def word_le_nat_alt word_less_nat_alt)
next
  case False
  with that(2) show thesis by (auto simp: enc_string_def word_le_nat_alt word_less_nat_alt)
qed

lemma head_tags_simps [simp]: "head_tags 0x80 0xB7 String" "head_tags 0xC0 0xF7 List"
  by (simp_all add: head_tags_def)

lemma string_kind:
  assumes "\<not> (length b = 1 \<and> b ! 0 < 0x80)" "enc_string b = puthead 0x80 0xB7 (length b) @ b"
    "length b < 2 ^ 64" "s_kind s = None" "s_r s = enc_string b @ rest" "room (length (enc_string b)) s"
  obtains s1 s2 where "Kind s = (Inr (String, length b), s1)"
    "readFull (length b) s1 = (Inr b, s2)" "s_kind s2 = None" "advanced (length (enc_string b)) s s2"
    "s_r s1 = b @ rest" "room (length b) s1" "advanced (length (puthead 0x80 0xB7 (length b))) s s1"
proof -
  let ?h = "length (puthead 0x80 0xB7 (length b))"
  from Kind_head [of "0x80" "0xB7" String "length b" s "b @ rest"] assms
  obtain s1 where s1: "Kind s = (Inr (String, length b), s1)" "advanced ?h s s1"
    by auto
  have rm: "room (length b) s1" using advanced_room [OF s1(2), of "length b"] assms by simp
  moreover have r: "s_r s1 = b @ rest" using s1(2) assms by (simp add: advanced_def)
  ultimately obtain s2 where "readFull (length b) s1 = (Inr b, s2)" "s_kind s2 = None"
    "advanced (length b) s1 s2"
    using readFull_room by blast
  with s1 advanced_trans [OF s1(2), of "length b" s2] assms(2) that rm r show thesis by simp
qed

lemma reads_Bytes: "length b < 2 ^ 64 \<Longrightarrow> reads Bytes (enc_string b) b"
proof (rule readsI)
  fix s rest
  assume *: "length b < 2 ^ 64" "s_kind s = None" "s_r s = enc_string b @ rest"
    "room (length (enc_string b)) s"
  show "\<exists>s'. Bytes s = (Inr b, s') \<and> s_kind s' = None \<and> advanced (length (enc_string b)) s s'"
  proof (rule enc_string_cases [of b])
    fix c assume c: "b = [c]" "c < 0x80" "enc_string b = [c]"
    with * Kind_byte [of c s rest] obtain s' where "Kind s = (Inr (Byte, 0), s')" "s_byteval s' = c"
      "advanced 1 s s'" by auto
    with c show ?thesis by (auto simp: Bytes_def advanced_upd)
  next
    assume h: "\<not> (length b = 1 \<and> b ! 0 < 0x80)" "enc_string b = puthead 0x80 0xB7 (length b) @ b"
    obtain s1 s2 where "Kind s = (Inr (String, length b), s1)" "readFull (length b) s1 = (Inr b, s2)"
      "s_kind s2 = None" "advanced (length (enc_string b)) s s2"
      using string_kind [OF h *(1,2,3,4)] by metis
    with h(1) show ?thesis by (auto simp: Bytes_def)
  qed
qed

lemma reads_wrapped: "reads d e v \<Longrightarrow> reads (wrapped d) e v"
  by (fastforce simp: reads_def wrapped_def)

lemma reads_ByteSlice: "length b < 2 ^ 64 \<Longrightarrow> reads decodeByteSlice (enc_string b) b"
  unfolding decodeByteSlice_def by (intro reads_wrapped reads_Bytes)

lemma reads_BigInt: "length (min_be n) < 2 ^ 64 \<Longrightarrow> reads decodeBigInt (enc_nat n) (int n)"
proof (rule readsI)
  fix s rest
  assume *: "length (min_be n) < 2 ^ 64" "s_kind s = None" "s_r s = enc_nat n @ rest"
    "room (length (enc_nat n)) s"
  from readsE [OF reads_wrapped [OF reads_Bytes [OF *(1)]], of s rest] *(2-4)
  obtain s' where s': "wrapped Bytes s = (Inr (min_be n), s')" "s_kind s' = None"
    "advanced (length (enc_nat n)) s s'" by (auto simp: enc_nat_def)
  have "\<not> (length (min_be n) > 0 \<and> min_be n ! 0 = 0)"
    using min_be_hd [of n] by (auto simp: hd_conv_nth)
  with s' show "\<exists>s'. decodeBigInt s = (Inr (int n), s') \<and> s_kind s' = None \<and>
      advanced (length (enc_nat n)) s s'"
    by (auto simp: decodeBigInt_def)
qed

lemma reads_ByteArray:
  assumes "length b = n" "2 \<le> n" "n < 2 ^ 64"
  shows "reads (decodeByteArray n) (enc_string b) b"
proof (rule readsI)
  fix s rest
  assume *: "s_kind s = None" "s_r s = enc_string b @ rest" "room (length (enc_string b)) s"
  have h: "\<not> (length b = 1 \<and> b ! 0 < 0x80)" "enc_string b = puthead 0x80 0xB7 (length b) @ b"
    using assms by (auto simp: enc_string_def)
  have len: "length b < 2 ^ 64" using assms by simp
  obtain s1 s2 where "Kind s = (Inr (String, length b), s1)" "readFull (length b) s1 = (Inr b, s2)"
    "s_kind s2 = None" "advanced (length (enc_string b)) s s2"
    using string_kind [OF h len *] by metis
  then show "\<exists>s'. decodeByteArray n s = (Inr b, s') \<and> s_kind s' = None \<and>
      advanced (length (enc_string b)) s s'"
    using assms by (auto simp: decodeByteArray_def)
qed

lemma reads_uint64: "n < 2 ^ 64 \<Longrightarrow> reads (stream_uint 64) (enc_nat n) n"
proof (rule readsI)
  fix s rest
  assume *: "n < 2 ^ 64" "s_kind s = None" "s_r s = enc_nat n @ rest" "room (length (enc_nat n)) s"
  have len: "length (min_be n) \<le> 8" using *(1) length_min_be_le [of n 8] by simp
  show "\<exists>s'. stream_uint 64 s = (Inr n, s') \<and> s_kind s' = None \<and> advanced (length (enc_nat n)) s s'"
  proof (rule enc_string_cases [of "min_be n"])
    fix c assume c: "min_be n = [c]" "c < 0x80" "enc_string (min_be n) = [c]"
    have cn: "n = unat c" using c(1) by (metis be_nat_min_be be_nat_single)
    have "c \<noteq> 0" using c(1) min_be_hd [of n] by (cases "n = 0") auto
    moreover from c * Kind_byte [of c s rest] obtain s' where "Kind s = (Inr (Byte, 0), s')"
      "s_byteval s' = c" "advanced 1 s s'" by (auto simp: enc_nat_def)
    ultimately show ?thesis using c cn by (auto simp: stream_uint_def advanced_upd enc_nat_def)
  next
    assume h: "\<not> (length (min_be n) = 1 \<and> min_be n ! 0 < 0x80)"
      "enc_string (min_be n) = puthead 0x80 0xB7 (length (min_be n)) @ min_be n"
    have len': "length (min_be n) < 2 ^ 64" using len by simp
    obtain s1 where s1: "Kind s = (Inr (String, length (min_be n)), s1)"
      "s_r s1 = min_be n @ rest" "room (length (min_be n)) s1"
      "advanced (length (puthead 0x80 0xB7 (length (min_be n)))) s s1"
      using string_kind [OF h len' *(2) *(3,4) [unfolded enc_nat_def]] by metis
    show ?thesis
    proof (cases "n = 0")
      case True
      then show ?thesis using s1 h(2) by (auto simp: stream_uint_def readUint_def advanced_upd enc_nat_def)
    next
      case False
      have big: "\<not> n < 128"
      proof
        assume "n < 128"
        with False have "min_be n = [of_nat n]" by (simp add: min_be_step)
        with h(1) \<open>n < 128\<close> show False by (simp add: word_less_nat_alt)
      qed
      obtain s2 where "readUint (length (min_be n)) s1 = (Inr n, s2)" "s_kind s2 = None"
        "advanced (length (min_be n)) s1 s2"
        using readUint_room [OF s1(3,2)] False min_be_hd [of n] by (auto simp: hd_conv_nth Suc_le_eq)
      with s1(1) big len advanced_trans [OF s1(4), of "length (min_be n)" s2] h(2) show ?thesis
        by (auto simp: stream_uint_def enc_nat_def)
    qed
  qed
qed

lemma reads_Uint: "n < 2 ^ 64 \<Longrightarrow> reads (decodeUint 64) (enc_nat n) n"
  unfolding decodeUint_def by (intro reads_wrapped reads_uint64)

lemma reads_ret: "reads (dret v) [] v"
  by (auto simp: reads_def dret_def advanced_def)

lemma reads_bind:
  assumes "reads d e1 x" "reads (f x) e2 v"
  shows "reads (dbind d f) (e1 @ e2) v"
proof (rule readsI)
  fix s rest
  assume *: "s_kind s = None" "s_r s = (e1 @ e2) @ rest" "room (length (e1 @ e2)) s"
  have rm: "room (length e1 + length e2) s" using *(3) by simp
  from readsE [OF assms(1) *(1), of "e2 @ rest"] *(2) room_split [OF rm]
  obtain s1 where s1: "d s = (Inr x, s1)" "s_kind s1 = None" "advanced (length e1) s s1" by auto
  from readsE [OF assms(2) s1(2), of rest] *(2) advanced_room [OF s1(3) rm] s1(3)
  obtain s2 where s2: "f x s1 = (Inr v, s2)" "s_kind s2 = None" "advanced (length e2) s1 s2"
    by (auto simp: advanced_def)
  show "\<exists>s'. dbind d f s = (Inr v, s') \<and> s_kind s' = None \<and> advanced (length (e1 @ e2)) s s'"
    using s1(1) s2 advanced_trans [OF s1(3) s2(3)] by (simp add: dbind_def)
qed

lemma reads_map: "reads d e x \<Longrightarrow> reads (dbind d (\<lambda>x. dret (f x))) e (f x)"
  using reads_bind [of d e x "\<lambda>x. dret (f x)" "[]" "f x"] reads_ret by fastforce

lemma reads_field: "reads d e v \<Longrightarrow> reads (struct_field d) e v"
  by (fastforce simp: reads_def struct_field_def)

lemma List_start_head:
  assumes "n < 2 ^ 64" "room (length (puthead 0xC0 0xF7 n) + n) s"
    "s_r s = puthead 0xC0 0xF7 n @ rest" "s_kind s = None"
  obtains s' where "List_start s = (Inr n, s')" "s_kind s' = None" "s_r s' = rest"
    "s_limited s' = s_limited s"
    "s_remaining s' = (if s_limited s then s_remaining s - length (puthead 0xC0 0xF7 n) else s_remaining s)"
    "s_stack s' = \<lparr>lp_pos = 0, lp_size = n\<rparr> # push_pos (length (puthead 0xC0 0xF7 n)) (s_stack s)"
proof -
  from Kind_head [OF head_tags_simps(2) assms]
  obtain s1 where "Kind s = (Inr (List, n), s1)" "advanced (length (puthead 0xC0 0xF7 n)) s s1" .
  with that show thesis using assms(3) by (auto simp: List_start_def advanced_def)
qed

text \<open>Inside a list that the payload fills exactly, after reading the payload the list ends.\<close>

lemma list_frame:
  assumes "room (h + n) s" "s_r s1 = drop h (s_r s)" "s_limited s1 = s_limited s"
    "s_remaining s1 = (if s_limited s then s_remaining s - h else s_remaining s)"
    "s_stack s1 = \<lparr>lp_pos = 0, lp_size = n\<rparr> # push_pos h (s_stack s)"
  shows "room n s1"
    and "advanced n s1 s2 \<Longrightarrow> \<exists>s3. ListEnd s2 = (Inr (), s3) \<and> s_kind s3 = None \<and> advanced (h + n) s s3"
  using assms
  by (auto simp: room_def advanced_def ListEnd_def push_pos_def add.commute split: list.splits)

lemma reads_struct:
  assumes "reads body e v" "length e < 2 ^ 64"
  shows "reads (structDecoder body) (enc_list e) v"
proof (rule readsI)
  fix s rest
  assume *: "s_kind s = None" "s_r s = enc_list e @ rest" "room (length (enc_list e)) s"
  let ?h = "length (puthead 0xC0 0xF7 (length e))"
  have rm: "room (?h + length e) s" and r: "s_r s = puthead 0xC0 0xF7 (length e) @ e @ rest"
    using * by (simp_all add: enc_list_def)
  obtain s1 where s1: "List_start s = (Inr (length e), s1)" "s_kind s1 = None" "s_r s1 = e @ rest"
    "s_limited s1 = s_limited s"
    "s_remaining s1 = (if s_limited s then s_remaining s - ?h else s_remaining s)"
    "s_stack s1 = \<lparr>lp_pos = 0, lp_size = length e\<rparr> # push_pos ?h (s_stack s)"
    using List_start_head [OF assms(2) rm r *(1)] .
  have fr: "s_r s1 = drop ?h (s_r s)" using s1(3) r by simp
  note frame = list_frame [OF rm fr s1(4-6)]
  obtain s2 where s2: "body s1 = (Inr v, s2)" "s_kind s2 = None" "advanced (length e) s1 s2"
    using readsE [OF assms(1) s1(2,3) frame(1)] .
  then show "\<exists>s'. structDecoder body s = (Inr v, s') \<and> s_kind s' = None \<and> advanced (length (enc_list e)) s s'"
    using frame(2) [OF s2(3)] s1(1)
    by (auto simp: structDecoder_def dbind_def wrapped_def dret_def enc_list_def)
qed

section \<open>The end of a list, slices and optional values\<close>

definition at_end :: "stream \<Rightarrow> bool" where
  "at_end s \<longleftrightarrow> (\<exists>tos st. s_stack s = tos # st \<and> lp_pos tos = lp_size tos)"

definition stops :: "'a decoder \<Rightarrow> bool" where
  "stops d \<longleftrightarrow> (\<forall>s. s_kind s = None \<and> at_end s \<longrightarrow> d s = (Inl EOL, s\<lparr>s_kinderr := None\<rparr>))"

lemma stops_Kind: "stops Kind"
  by (auto simp: stops_def at_end_def Kind_def Let_def)

lemma Kind_at_end: "s_kind s = None \<Longrightarrow> at_end s \<Longrightarrow> Kind s = (Inl EOL, s\<lparr>s_kinderr := None\<rparr>)"
  using stops_Kind by (simp add: stops_def)

lemma stops_wrapped: "stops d \<Longrightarrow> stops (wrapped d)"
  by (simp add: stops_def wrapped_def)

lemma stops_bind: "stops d \<Longrightarrow> stops (dbind d f)"
  by (simp add: stops_def dbind_def)

lemma stops_basic:
  "stops Bytes" "stops (stream_uint n)" "stops List_start" "stops (decodeByteArray n)"
  by (simp_all add: stops_def Bytes_def stream_uint_def List_start_def decodeByteArray_def Kind_at_end)

lemma stops_struct: "stops (structDecoder body)"
  unfolding structDecoder_def by (intro stops_bind stops_wrapped stops_basic)

lemma stops_typed: "stops decodeByteSlice" "stops (decodeUint n)" "stops decodeBigInt"
  by (simp_all add: decodeByteSlice_def decodeUint_def stops_wrapped stops_basic)
    (use stops_wrapped [OF stops_basic(1)] in \<open>simp add: stops_def decodeBigInt_def\<close>)

lemma decodeSliceElems_reads:
  assumes "list_all2 (\<lambda>e v. reads elemdec e v \<and> e \<noteq> []) es vs" "stops elemdec"
    and "length es < fuel" "s_kind s = None" "s_r s = concat es @ rest"
    and "room (length (concat es)) s"
    and "s_stack s = tos # st" "lp_pos tos + length (concat es) = lp_size tos"
  shows "\<exists>s'. decodeSliceElems fuel elemdec s = (Inr vs, s') \<and> s_kind s' = None \<and>
    advanced (length (concat es)) s s'"
  using assms
proof (induction es arbitrary: vs fuel s tos)
  case Nil
  then obtain f where "fuel = Suc f" by (cases fuel) auto
  moreover have "elemdec s = (Inl EOL, s\<lparr>s_kinderr := None\<rparr>)"
    using Nil by (auto simp: stops_def at_end_def)
  ultimately show ?case using Nil by (simp add: advanced_def)
next
  case (Cons e es)
  then obtain f v vs' where f: "fuel = Suc f" and vs: "vs = v # vs'" by (cases fuel; cases vs) auto
  have rd: "reads elemdec e v" and rs: "list_all2 (\<lambda>e v. reads elemdec e v \<and> e \<noteq> []) es vs'"
    using Cons.prems(1) vs by auto
  have rm: "room (length e + length (concat es)) s" using Cons.prems(6) by simp
  obtain s1 where s1: "elemdec s = (Inr v, s1)" "s_kind s1 = None" "advanced (length e) s s1"
    by (rule readsE [OF rd Cons.prems(4), of "concat es @ rest"])
      (use Cons.prems(5) room_split [OF rm] in simp_all)
  have "\<exists>s'. decodeSliceElems f elemdec s1 = (Inr vs', s') \<and> s_kind s' = None \<and>
      advanced (length (concat es)) s1 s'"
    using Cons.prems(3,5,7,8) f s1 advanced_room [OF s1(3) rm]
    by (intro Cons.IH [OF rs Cons.prems(2), of f s1 "tos\<lparr>lp_pos := lp_pos tos + length e\<rparr>"])
      (auto simp: advanced_def)
  then obtain s2 where s2: "decodeSliceElems f elemdec s1 = (Inr vs', s2)" "s_kind s2 = None"
    "advanced (length (concat es)) s1 s2" by auto
  show ?case using s1(1) s2 advanced_trans [OF s1(3) s2(3)] by (simp add: f vs)
qed

lemma length_concat_nonempty:
  assumes "\<forall>e \<in> set es. e \<noteq> []"
  shows "length es \<le> length (concat es)"
  using assms
proof (induction es)
  case Nil
  show ?case by simp
next
  case (Cons e es)
  then have "Suc 0 \<le> length e" "length es \<le> length (concat es)" by (simp_all add: Suc_le_eq)
  then show ?case by simp
qed

lemma reads_slice:
  assumes rs: "list_all2 (\<lambda>e v. reads elemdec e v \<and> e \<noteq> []) es vs" and st: "stops elemdec"
    and len: "length (concat es) < 2 ^ 64"
  shows "reads (decodeListSlice elemdec) (enc_list (concat es)) vs"
proof (rule readsI)
  fix s rest
  let ?e = "concat es"
  assume *: "s_kind s = None" "s_r s = enc_list ?e @ rest" "room (length (enc_list ?e)) s"
  let ?h = "length (puthead 0xC0 0xF7 (length ?e))"
  have rm: "room (?h + length ?e) s" and r: "s_r s = puthead 0xC0 0xF7 (length ?e) @ ?e @ rest"
    using * by (simp_all add: enc_list_def)
  obtain s1 where s1: "List_start s = (Inr (length ?e), s1)" "s_kind s1 = None" "s_r s1 = ?e @ rest"
    "s_limited s1 = s_limited s"
    "s_remaining s1 = (if s_limited s then s_remaining s - ?h else s_remaining s)"
    "s_stack s1 = \<lparr>lp_pos = 0, lp_size = length ?e\<rparr> # push_pos ?h (s_stack s)"
    using List_start_head [OF len rm r *(1)] .
  have fr: "s_r s1 = drop ?h (s_r s)" using s1(3) r by simp
  note frame = list_frame [OF rm fr s1(4-6)]
  have ne: "\<forall>e \<in> set es. e \<noteq> []" using rs by (auto simp: list_all2_conv_all_nth in_set_conv_nth)
  show "\<exists>s'. decodeListSlice elemdec s = (Inr vs, s') \<and> s_kind s' = None \<and>
      advanced (length (enc_list ?e)) s s'"
  proof (cases "es = []")
    case True
    then have "vs = []" using rs by simp
    moreover have "advanced 0 s1 s1" by (simp add: advanced_def)
    ultimately show ?thesis
      using True frame(2) [of s1] s1(1)
      by (auto simp: decodeListSlice_def wrapped_def dbind_def dret_def enc_list_def)
  next
    case False
    have fuel: "length es < Suc (length (s_r s1))"
      using length_concat_nonempty [OF ne] s1(3) by simp
    have nz: "length ?e \<noteq> 0" using False ne by (cases es) auto
    obtain s2 where s2: "decodeSliceElems (Suc (length (s_r s1))) elemdec s1 = (Inr vs, s2)"
      "s_kind s2 = None" "advanced (length ?e) s1 s2"
      using decodeSliceElems_reads [OF rs st fuel s1(2,3) frame(1) s1(6)] by auto
    show ?thesis
      using frame(2) [OF s2(3)] s1(1) s2(1) nz
      by (auto simp: decodeListSlice_def wrapped_def dbind_def dret_def enc_list_def simp del: decodeSliceElems.simps)
  qed
qed

lemma cached_kind_snd [simp]: "snd (cached_kind s) = s"
  by (simp add: cached_kind_def split: option.split)

text \<open>\<open>Kind\<close> from a value boundary either reports the end of the list or caches what it read.\<close>

lemma Kind_cases [consumes 1, case_names eol read]:
  assumes "s_kind s = None"
  obtains "at_end s" "Kind s = (Inl EOL, s\<lparr>s_kinderr := None\<rparr>)"
  | k sz err err1 s1 where "\<not> at_end s" "readKind (s\<lparr>s_kinderr := None\<rparr>) = ((k, sz, err), s1)"
      "Kind s = cached_kind (s1\<lparr>s_kind := Some k, s_size := sz, s_kinderr := err1\<rparr>)"
      "err1 = None \<longrightarrow> err = None \<and>
         (s_stack s \<noteq> [] \<longrightarrow> sz \<le> lp_size (hd (s_stack s1)) - lp_pos (hd (s_stack s1))) \<and>
         (s_stack s = [] \<and> s_limited s1 \<longrightarrow> sz \<le> s_remaining s1)"
      "err1 = err \<or> err1 = Some ErrElemTooLarge \<or> err1 = Some ErrValueTooLarge"
proof (cases "at_end s")
  case True
  then show thesis by (rule that(1)) (rule Kind_at_end [OF assms True])
next
  case False
  obtain k sz err s1 where r: "readKind (s\<lparr>s_kinderr := None\<rparr>) = ((k, sz, err), s1)"
    by (metis prod_cases3 surj_pair)
  show thesis
  proof (cases "s_stack s")
    case Nil
    show thesis
      by (rule that(2) [OF False r, of "if err = None \<and> s_limited s1 \<and> sz > s_remaining s1
          then Some ErrValueTooLarge else err"])
        (auto simp: Kind_def assms Nil r)
  next
    case (Cons tos st)
    have "lp_pos tos \<noteq> lp_size tos" using False Cons by (simp add: at_end_def)
    then show thesis
      by (intro that(2) [OF False r, of "if err = None \<and>
          sz > lp_size (hd (s_stack s1)) - lp_pos (hd (s_stack s1)) then Some ErrElemTooLarge else err"])
        (auto simp: Kind_def assms Cons r)
  qed
qed

lemma Kind_snd: "Kind (snd (Kind s)) = Kind s"
proof (cases "s_kind s = None")
  case True
  then show ?thesis
  proof (cases rule: Kind_cases)
    case eol
    with True show ?thesis by (auto simp: Kind_at_end at_end_def)
  next
    case read
    show ?thesis unfolding read(3) by (simp add: Kind_def)
  qed
next
  case False
  then show ?thesis by (simp add: Kind_def)
qed

definition kind_first :: "'a decoder \<Rightarrow> bool" where
  "kind_first d \<longleftrightarrow> (\<forall>s. d (snd (Kind s)) = d s)"

lemma kind_first_bind: "kind_first d \<Longrightarrow> kind_first (dbind d f)"
  by (simp add: kind_first_def dbind_def)

lemma kind_first_wrapped: "kind_first d \<Longrightarrow> kind_first (wrapped d)"
  by (simp add: kind_first_def wrapped_def)

lemma kind_first_basic: "kind_first List_start" "kind_first (decodeByteArray n)" "kind_first Bytes"
  by (simp_all add: kind_first_def List_start_def decodeByteArray_def Bytes_def Kind_snd)

lemma kind_first_struct: "kind_first (structDecoder body)"
  unfolding structDecoder_def by (intro kind_first_bind kind_first_wrapped kind_first_basic)

lemma reads_optional_None: "reads (optionalPtrDecoder d) [0x80] None"
proof (rule readsI)
  fix s rest
  assume *: "s_kind s = None" "s_r s = [0x80] @ rest" "room (length [0x80 :: byte]) s"
  obtain s' where "Kind s = (Inr (String, 0), s')" "advanced 1 s s'"
    by (rule Kind_head [of "0x80" "0xB7" String 0 s rest]) (use * in \<open>simp_all add: puthead_def\<close>)
  then show "\<exists>s'. optionalPtrDecoder d s = (Inr None, s') \<and> s_kind s' = None \<and>
      advanced (length [0x80 :: byte]) s s'"
    by (auto simp: optionalPtrDecoder_def advanced_upd)
qed

lemma reads_optional_Some:
  assumes "reads d (enc_string b) v" "kind_first d" "2 \<le> length b" "length b < 2 ^ 64"
  shows "reads (optionalPtrDecoder d) (enc_string b) (Some v)"
proof (rule readsI)
  fix s rest
  assume *: "s_kind s = None" "s_r s = enc_string b @ rest" "room (length (enc_string b)) s"
  have h: "\<not> (length b = 1 \<and> b ! 0 < 0x80)" "enc_string b = puthead 0x80 0xB7 (length b) @ b"
    using assms by (auto simp: enc_string_def)
  obtain s1 where s1: "Kind s = (Inr (String, length b), s1)"
    using string_kind [OF h assms(4) *] by metis
  obtain s2 where s2: "d s = (Inr v, s2)" "s_kind s2 = None" "advanced (length (enc_string b)) s s2"
    using readsE [OF assms(1) *] .
  have "d s1 = d s" using assms(2) s1 by (metis kind_first_def snd_conv)
  with s1 s2 assms(3) show "\<exists>s'. optionalPtrDecoder d s = (Inr (Some v), s') \<and> s_kind s' = None \<and>
      advanced (length (enc_string b)) s s'"
    by (auto simp: optionalPtrDecoder_def dbind_def dret_def)
qed

lemma DecodeBytes_reads:
  assumes "reads dec e v"
  shows "DecodeBytes e dec = Inr v"
proof -
  let ?s = "NewStream e (length e)"
  have rm: "room (length e) ?s" by (simp add: room_def NewStream_def)
  obtain s' where "dec ?s = (Inr v, s')" "advanced (length e) ?s s'"
    by (rule readsE [OF assms, of ?s "[]"]) (use rm in \<open>simp_all add: NewStream_def\<close>)
  then show ?thesis by (simp add: DecodeBytes_def advanced_def NewStream_def)
qed

lemma DecodeBytes_trailing:
  assumes "reads dec e v" "x \<noteq> []"
  shows "DecodeBytes (e @ x) dec = Inl ErrMoreThanOneValue"
proof -
  let ?s = "NewStream (e @ x) (length (e @ x))"
  have rm: "room (length e) ?s" by (simp add: room_def NewStream_def)
  obtain s' where "dec ?s = (Inr v, s')" "advanced (length e) ?s s'"
    by (rule readsE [OF assms(1), of ?s x]) (use rm in \<open>simp_all add: NewStream_def\<close>)
  then show ?thesis using assms(2) by (simp add: DecodeBytes_def advanced_def NewStream_def)
qed

end
