(* ===== verification/RLP_Codec.thy ===== *)
theory RLP_Codec
  imports RLP_Stream
begin

text \<open>
  What the decoders of \<open>RLP_Stream\<close> guarantee: the positions of the open lists stay inside their
  sizes (\<open>stream_ok\<close>, kept by every operation), whatever a decoder accepts is the encoding of the
  value it returns (\<open>canonical\<close>), and the interface of a pair of encoder and decoder
  (\<open>rlp_codec\<close>, \<open>strict_codec\<close>) that the types of the node implement.
\<close>

section \<open>Positions stay inside their lists\<close>

fun stack_ok :: "listpos list \<Rightarrow> bool" where
  "stack_ok [] = True"
| "stack_ok [t] = (lp_pos t \<le> lp_size t)"
| "stack_ok (t # p # st) =
     (lp_pos t \<le> lp_size t \<and> lp_pos p + lp_size t \<le> lp_size p \<and> stack_ok (p # st))"

definition kind_fits :: "stream \<Rightarrow> bool" where
  "kind_fits s \<longleftrightarrow>
     (case s_stack s of
        [] \<Rightarrow> s_limited s \<longrightarrow> s_size s \<le> s_remaining s
      | tos # st \<Rightarrow> lp_pos tos + s_size s \<le> lp_size tos)"

definition stream_ok :: "stream \<Rightarrow> bool" where
  "stream_ok s \<longleftrightarrow>
     stack_ok (s_stack s) \<and> (s_kind s \<noteq> None \<and> s_kinderr s = None \<longrightarrow> kind_fits s)"

definition keeps :: "'a decoder \<Rightarrow> bool" where
  "keeps d \<longleftrightarrow> (\<forall>s. stream_ok s \<longrightarrow> stream_ok (snd (d s)))"

lemma keepsD: "keeps d \<Longrightarrow> d s = (r, s') \<Longrightarrow> stream_ok s \<Longrightarrow> stream_ok s'"
  by (metis keeps_def snd_conv)

lemma stack_ok_push [simp]:
  "stack_ok (t # st) \<Longrightarrow> n \<le> lp_size t - lp_pos t \<Longrightarrow> stack_ok (t\<lparr>lp_pos := lp_pos t + n\<rparr> # st)"
  by (cases st) auto

lemma stack_ok_top: "stack_ok (t # st) \<Longrightarrow> lp_pos t \<le> lp_size t \<and> stack_ok st"
  by (cases st) simp_all

lemma stream_ok_unkind [simp]: "stream_ok s \<Longrightarrow> stream_ok (s\<lparr>s_kind := None\<rparr>)"
  by (simp add: stream_ok_def)

lemma stream_ok_irrelevant [simp]:
  "s_kind s = None \<Longrightarrow> stream_ok (s\<lparr>s_r := r\<rparr>) = stream_ok s"
  "s_kind s = None \<Longrightarrow> stream_ok (s\<lparr>s_byteval := c\<rparr>) = stream_ok s"
  "s_kind s = None \<Longrightarrow> stream_ok (s\<lparr>s_kinderr := k\<rparr>) = stream_ok s"
  "s_kind s = None \<Longrightarrow> stream_ok (s\<lparr>s_size := n\<rparr>) = stream_ok s"
  by (simp_all add: stream_ok_def)

lemma willRead_ok:
  "stream_ok s \<Longrightarrow> willRead n s = (r, s') \<Longrightarrow> stream_ok s' \<and> s_kind s' = None \<and> (s_stack s' = [] \<longleftrightarrow> s_stack s = [])"
  by (auto simp: willRead_def Let_def stream_ok_def dest: stack_ok_top split: list.splits if_splits)

lemma readByte_ok:
  "stream_ok s \<Longrightarrow> readByte s = (r, s') \<Longrightarrow> stream_ok s' \<and> s_kind s' = None \<and> (s_stack s' = [] \<longleftrightarrow> s_stack s = [])"
  unfolding readByte_def by (auto split: prod.splits sum.splits list.splits dest: willRead_ok)

lemma readFull_ok:
  "stream_ok s \<Longrightarrow> readFull n s = (r, s') \<Longrightarrow> stream_ok s' \<and> s_kind s' = None \<and> (s_stack s' = [] \<longleftrightarrow> s_stack s = [])"
  unfolding readFull_def by (auto split: prod.splits sum.splits if_splits dest: willRead_ok)

lemma readUint_ok:
  "stream_ok s \<Longrightarrow> readUint n s = (r, s') \<Longrightarrow> stream_ok s' \<and> s_kind s' = None \<and> (s_stack s' = [] \<longleftrightarrow> s_stack s = [])"
  unfolding readUint_def
  by (auto split: prod.splits sum.splits if_splits dest: readByte_ok readFull_ok)

lemma readKind_ok:
  assumes "stream_ok s" "readKind s = (r, s')"
  shows "stream_ok s' \<and> s_kind s' = None \<and> (s_stack s' = [] \<longleftrightarrow> s_stack s = [])"
proof -
  obtain x s1 where b: "readByte s = (x, s1)" by fastforce
  note s1 = readByte_ok [OF assms(1) b]
  obtain c where c: "s' = s1 \<or> s' = s1\<lparr>s_byteval := c\<rparr> \<or> (\<exists>n v. readUint n (s1\<lparr>s_byteval := 0\<rparr>) = (v, s'))"
  proof (cases x)
    case (Inr b')
    show thesis
    proof (rule that)
      show "s' = s1 \<or> s' = s1\<lparr>s_byteval := if b' < 0x80 then b' else 0\<rparr> \<or>
          (\<exists>n v. readUint n (s1\<lparr>s_byteval := 0\<rparr>) = (v, s'))"
        using assms(2) unfolding readKind_def b Inr Let_def
        by (simp split: if_splits prod.splits sum.splits) blast+
    qed
  qed (use assms(2) that b in \<open>simp add: readKind_def\<close>)
  have "stream_ok (s1\<lparr>s_byteval := 0\<rparr>)" using s1 by simp
  note u = readUint_ok [OF this]
  show ?thesis using c
  proof (elim disjE exE)
    fix n v assume "readUint n (s1\<lparr>s_byteval := 0\<rparr>) = (v, s')"
    from u [OF this] s1 show ?thesis by simp
  qed (use s1 in simp_all)
qed

lemma keeps_Kind: "keeps Kind"
  unfolding keeps_def
proof (intro allI impI)
  fix s assume ok: "stream_ok s"
  show "stream_ok (snd (Kind s))"
  proof (cases "s_kind s = None")
    case True
    then show ?thesis
    proof (cases rule: Kind_cases)
      case eol
      with ok True show ?thesis by simp
    next
      case (read k sz err err1 s1)
      have ok': "stream_ok (s\<lparr>s_kinderr := None\<rparr>)" using ok True by simp
      have s1: "stream_ok s1" "s_kind s1 = None" "s_stack s1 = [] \<longleftrightarrow> s_stack s = []"
        using readKind_ok [OF ok' read(2)] by simp_all
      have "kind_fits (s1\<lparr>s_kind := Some k, s_size := sz, s_kinderr := err1\<rparr>)" if "err1 = None"
      proof (cases "s_stack s1")
        case Nil
        with read(4) [rule_format, OF that] s1(3) show ?thesis by (simp add: kind_fits_def)
      next
        case (Cons t st)
        with s1(1) stack_ok_top [of t st] have "lp_pos t \<le> lp_size t" by (simp add: stream_ok_def)
        moreover have "sz \<le> lp_size t - lp_pos t" using Cons read(4) that s1(3) by simp
        ultimately show ?thesis using Cons by (simp add: kind_fits_def)
      qed
      then have "stream_ok (s1\<lparr>s_kind := Some k, s_size := sz, s_kinderr := err1\<rparr>)"
        using s1(1) unfolding stream_ok_def by simp
      then show ?thesis unfolding read(3) by simp
    qed
  next
    case False
    then have "snd (Kind s) = s" by (simp add: Kind_def)
    with ok show ?thesis by simp
  qed
qed

lemma Kind_ok: "stream_ok s \<Longrightarrow> Kind s = (r, s') \<Longrightarrow> stream_ok s'"
  using keepsD [OF keeps_Kind] .

lemma Kind_Inr: "Kind s = (Inr (k, sz), s') \<Longrightarrow> s_kind s' = Some k \<and> s_size s' = sz \<and> s_kinderr s' = None"
proof (cases "s_kind s = None")
  case True
  assume K: "Kind s = (Inr (k, sz), s')"
  from True show ?thesis
  proof (cases rule: Kind_cases)
    case eol
    with K show ?thesis by simp
  next
    case read
    with K show ?thesis by (auto simp: cached_kind_def split: option.splits)
  qed
qed (auto simp: Kind_def cached_kind_def split: option.splits)

lemma keeps_readFull: "keeps (readFull n)" and keeps_readUint: "keeps (readUint n)"
  unfolding keeps_def by (metis readFull_ok readUint_ok surjective_pairing)+

lemma keeps_bind: "keeps d \<Longrightarrow> (\<And>x. keeps (f x)) \<Longrightarrow> keeps (dbind d f)"
  unfolding keeps_def [of "dbind d f"] dbind_def
  by (auto split: prod.split sum.split dest: keepsD) (metis keeps_def keepsD)

lemma keeps_ret: "keeps (dret v)"
  by (simp add: keeps_def dret_def)

lemma keeps_wrapped: "keeps d \<Longrightarrow> keeps (wrapped d)"
  by (auto simp: keeps_def wrapped_def split: prod.split sum.split dest: keepsD)

lemma keeps_field: "keeps d \<Longrightarrow> keeps (struct_field d)"
  by (auto simp: keeps_def struct_field_def split: prod.splits sum.splits)

lemma keeps_Bytes: "keeps Bytes"
  unfolding keeps_def Bytes_def
  by (auto split: prod.splits sum.splits kind.splits dest: Kind_ok readFull_ok)

lemma keeps_Raw: "keeps Raw"
  unfolding keeps_def Raw_def
  by (auto split: prod.splits sum.splits kind.splits dest: Kind_ok readFull_ok)

lemma keeps_uint: "keeps (stream_uint n)"
  unfolding keeps_def stream_uint_def
  by (auto split: prod.splits sum.splits kind.splits dest: Kind_ok readUint_ok)

lemma keeps_Bool: "keeps stream_Bool"
  unfolding keeps_def stream_Bool_def
  by (auto split: prod.splits sum.splits dest: keepsD [OF keeps_uint])

lemma stream_ok_start:
  assumes "stream_ok s" "s_kind s = Some k" "s_kinderr s = None"
  shows "stream_ok (s\<lparr>s_stack := \<lparr>lp_pos = 0, lp_size = s_size s\<rparr> # s_stack s, s_kind := None, s_size := 0\<rparr>)"
  using assms by (cases "s_stack s") (auto simp: stream_ok_def kind_fits_def)

lemma Kind_start_ok:
  assumes "Kind s = (Inr (k, sz), s')" "stream_ok s"
  shows "stream_ok (s'\<lparr>s_stack := \<lparr>lp_pos = 0, lp_size = sz\<rparr> # s_stack s', s_kind := None\<rparr>)"
  using stream_ok_start [of s' k] Kind_Inr [OF assms(1)] Kind_ok [OF assms(2,1)] by simp

lemma keeps_List_start: "keeps List_start"
  unfolding keeps_def List_start_def
  by (auto split: prod.splits sum.splits dest: Kind_ok intro: Kind_start_ok)

lemma keeps_ListEnd: "keeps ListEnd"
proof -
  have "stack_ok (p\<lparr>lp_pos := lp_pos p + lp_size t\<rparr> # st)" if "stack_ok (t # p # st)" for t p st
    using that by (cases st) auto
  then show ?thesis
    by (auto simp: keeps_def ListEnd_def stream_ok_def split: list.splits)
qed

lemma keeps_ByteArray: "keeps (decodeByteArray n)"
  unfolding keeps_def decodeByteArray_def
  by (auto split: prod.splits sum.splits kind.splits dest: Kind_ok readFull_ok keepsD [OF keeps_uint])

lemma keeps_BigInt: "keeps decodeBigInt"
  unfolding keeps_def decodeBigInt_def
  by (auto split: prod.splits sum.splits dest: keepsD [OF keeps_wrapped [OF keeps_Bytes]])

lemma keeps_typed: "keeps (decodeUint n)" "keeps decodeBool" "keeps decodeByteSlice"
  by (simp_all add: decodeUint_def decodeBool_def decodeByteSlice_def keeps_wrapped keeps_uint
      keeps_Bool keeps_Bytes)

lemma keeps_struct: "keeps body \<Longrightarrow> keeps (structDecoder body)"
  unfolding structDecoder_def
  by (intro keeps_bind keeps_wrapped keeps_List_start keeps_ListEnd keeps_ret)

lemma keeps_elems: "keeps d \<Longrightarrow> keeps (decodeSliceElems fuel d)"
proof (induction fuel)
  case (Suc fuel)
  then have "keeps (decodeSliceElems fuel d)" by simp
  with Suc.prems show ?case
    unfolding keeps_def [of "decodeSliceElems (Suc fuel) d"]
    by (auto split: prod.split sum.split dest: keepsD)
qed (simp add: keeps_def)

lemma keeps_snd: "keeps d \<Longrightarrow> stream_ok s \<Longrightarrow> stream_ok (snd (d s))"
  by (simp add: keeps_def)

lemma keeps_ListSlice:
  assumes "keeps d"
  shows "keeps (decodeListSlice d)"
  unfolding keeps_def
proof (intro allI impI)
  fix s assume ok: "stream_ok s"
  obtain r s1 where w: "wrapped List_start s = (r, s1)" by fastforce
  have ok1: "stream_ok s1" using keepsD [OF keeps_wrapped [OF keeps_List_start] w ok] .
  obtain r2 s2 where e: "decodeSliceElems (Suc (length (s_r s1))) d s1 = (r2, s2)" by fastforce
  have ok2: "stream_ok s2" using keepsD [OF keeps_elems [OF assms] e ok1] .
  note fin = keeps_snd [OF keeps_bind [OF keeps_ListEnd keeps_ret]]
  show "stream_ok (snd (decodeListSlice d s))"
    unfolding decodeListSlice_def w prod.case e
    by (cases r; cases r2; simp only: sum.case snd_conv ok1 ok2 fin split: if_split) simp_all
qed

section \<open>What was consumed\<close>

text \<open>\<open>took e s s'\<close>: between \<open>s\<close> and \<open>s'\<close> exactly the bytes \<open>e\<close> were consumed.
  \<open>canonical dec enc\<close>: whatever \<open>dec\<close> accepts is the encoding \<open>enc\<close> of the value it returns.\<close>

definition took :: "bytes \<Rightarrow> stream \<Rightarrow> stream \<Rightarrow> bool" where
  "took e s s' \<longleftrightarrow> s_r s = e @ s_r s' \<and> s_stack s' = push_pos (length e) (s_stack s)"

definition canonical :: "'a decoder \<Rightarrow> ('a \<Rightarrow> bytes) \<Rightarrow> bool" where
  "canonical dec enc \<longleftrightarrow>
     (\<forall>s v s'. s_kind s = None \<and> dec s = (Inr v, s') \<longrightarrow> s_kind s' = None \<and> took (enc v) s s')"

lemma canonicalD:
  "canonical dec enc \<Longrightarrow> dec s = (Inr v, s') \<Longrightarrow> s_kind s = None \<Longrightarrow> s_kind s' = None \<and> took (enc v) s s'"
  unfolding canonical_def by blast

lemma took_trans: "took e1 s s1 \<Longrightarrow> took e2 s1 s2 \<Longrightarrow> took (e1 @ e2) s s2"
  by (simp add: took_def push_pos_add add.commute)

lemma took_upd [simp]:
  "took e s (s'\<lparr>s_kind := k\<rparr>) = took e s s'" "took e s (s'\<lparr>s_size := n\<rparr>) = took e s s'"
  "took e s (s'\<lparr>s_byteval := c\<rparr>) = took e s s'" "took e s (s'\<lparr>s_kinderr := x\<rparr>) = took e s s'"
  "took e (s\<lparr>s_kind := k\<rparr>) s' = took e s s'" "took e (s\<lparr>s_byteval := c\<rparr>) s' = took e s s'"
  "took e (s\<lparr>s_kinderr := x\<rparr>) s' = took e s s'"
  by (simp_all add: took_def)

lemma took_Nil [simp]: "took [] s s"
  by (simp add: took_def)

lemma willRead_Inr:
  "willRead n s = (Inr x, s') \<Longrightarrow>
     s_r s' = s_r s \<and> s_kind s' = None \<and> s_stack s' = push_pos n (s_stack s)"
  by (auto simp: willRead_def Let_def split: list.splits if_splits)

lemma readByte_Inr: "readByte s = (Inr b, s') \<Longrightarrow> s_kind s' = None \<and> took [b] s s'"
  by (auto simp: readByte_def took_def split: prod.splits sum.splits list.splits dest: willRead_Inr)

lemma readFull_Inr: "readFull n s = (Inr b, s') \<Longrightarrow> s_kind s' = None \<and> length b = n \<and> took b s s'"
  by (auto simp: readFull_def took_def min_def split: prod.splits sum.splits if_splits dest!: willRead_Inr)

lemma readUint_Inr:
  assumes "readUint n s = (Inr v, s')"
  shows "\<exists>b. s_kind s' = None \<and> length b = n \<and> v = be_nat b \<and> took b s s' \<and> (1 < n \<longrightarrow> b ! 0 \<noteq> 0)"
proof -
  consider "n = 0" | "n = 1" | "n \<noteq> 0 \<and> n \<noteq> 1" by blast
  then show ?thesis
  proof cases
    case 1
    with assms show ?thesis by (auto simp: readUint_def)
  next
    case 2
    with assms obtain b where b: "readByte s = (Inr b, s')" "v = unat b"
      by (auto simp: readUint_def split: prod.splits sum.splits)
    from 2 readByte_Inr [OF b(1)] b(2) show ?thesis by (intro exI [of _ "[b]"]) simp
  next
    case 3
    with assms obtain b where b: "readFull n s = (Inr b, s')" "b ! 0 \<noteq> 0" "v = be_nat b"
      by (auto simp: readUint_def split: prod.splits sum.splits if_splits)
    from readFull_Inr [OF b(1)] b(2,3) show ?thesis by blast
  qed
qed

section \<open>What the decoders accept\<close>

text \<open>The header of a value, as far as the first byte and the length bytes go.\<close>

fun head_of :: "kind \<Rightarrow> nat \<Rightarrow> byte \<Rightarrow> bytes" where
  "head_of Byte n c = [c]"
| "head_of String n c = puthead 0x80 0xB7 n"
| "head_of List n c = puthead 0xC0 0xF7 n"

lemma long_head:
  assumes "length b = k" "1 \<le> k" "k \<le> 8" "1 < k \<longrightarrow> b ! 0 \<noteq> 0" "\<not> be_nat b < 56"
  shows "putint (be_nat b) = b"
proof -
  have "hd b \<noteq> 0"
  proof (cases "k = 1")
    case True
    then obtain c where "b = [c]" using assms(1) by (cases b) auto
    with assms(5) show ?thesis by auto
  next
    case False
    with assms show ?thesis by (cases b) auto
  qed
  moreover have "be_nat b < 2 ^ 64"
    using be_nat_less [of b] power_increasing [of "length b" 8 "256::nat"] assms by simp
  ultimately show ?thesis using assms(5) by (simp add: putint_min_be min_be_be_nat)
qed

lemma tag_small:
  fixes b :: byte
  shows "\<not> b < 0x80 \<Longrightarrow> b < 0xB8 \<Longrightarrow> unat (b - 0x80) < 56 \<and> 0x80 + of_nat (unat (b - 0x80)) = b"
    and "\<not> b < 0xC0 \<Longrightarrow> b < 0xF8 \<Longrightarrow> unat (b - 0xC0) < 56 \<and> 0xC0 + of_nat (unat (b - 0xC0)) = b"
  by (simp_all add: word_less_nat_alt unat_sub word_le_nat_alt)

lemma tag_large:
  fixes b :: byte
  shows "\<not> b < 0xB8 \<Longrightarrow> b < 0xC0 \<Longrightarrow>
      1 \<le> unat (b - 0xB7) \<and> unat (b - 0xB7) \<le> 8 \<and> 0xB7 + of_nat (unat (b - 0xB7)) = b"
    and "\<not> b < 0xF8 \<Longrightarrow>
      1 \<le> unat (b - 0xF7) \<and> unat (b - 0xF7) \<le> 8 \<and> 0xF7 + of_nat (unat (b - 0xF7)) = b"
proof -
  assume "\<not> b < 0xB8" "b < 0xC0"
  then show "1 \<le> unat (b - 0xB7) \<and> unat (b - 0xB7) \<le> 8 \<and> 0xB7 + of_nat (unat (b - 0xB7)) = b"
    by (auto simp: word_less_nat_alt unat_sub word_le_nat_alt)
next
  assume "\<not> b < 0xF8"
  then show "1 \<le> unat (b - 0xF7) \<and> unat (b - 0xF7) \<le> 8 \<and> 0xF7 + of_nat (unat (b - 0xF7)) = b"
    using unat_byte_lt [of b]
    by (auto simp: word_less_nat_alt unat_sub word_le_nat_alt simp del: unat_byte_lt)
qed

lemma readUint_head:
  assumes u: "readUint k s2 = (Inr sz, s')" and k: "1 \<le> k \<and> k \<le> 8 \<and> lg + of_nat k = (c :: byte)"
    and big: "\<not> sz < 56" and t: "took [c] s s2"
  shows "took (puthead sm lg sz) s s'"
proof -
  from readUint_Inr [OF u] obtain b where b: "length b = k" "sz = be_nat b" "took b s2 s'" "1 < k \<longrightarrow> b ! 0 \<noteq> 0"
    by blast
  have "putint sz = b" using long_head [of b k] b k big by simp
  then have "puthead sm lg sz = [c] @ b" using big b(1) k by (simp add: puthead_def)
  then show ?thesis using took_trans [OF t b(3)] by simp
qed

lemma readKind_Inr:
  assumes r: "readKind s = ((k, sz, None), s')"
  shows "took (head_of k sz (s_byteval s')) s s' \<and> (k = Byte \<longrightarrow> s_byteval s' < 0x80 \<and> sz = 0)"
proof -
  from r obtain b s1 where b: "readByte s = (Inr b, s1)"
    by (auto simp: readKind_def split: prod.splits sum.splits)
  let ?s2 = "s1\<lparr>s_byteval := 0\<rparr>"
  have t: "took [b] s s1" and t2: "took [b] s ?s2" using readByte_Inr [OF b] by simp_all
  note rk = r [unfolded readKind_def b prod.case sum.case Let_def]
  consider "b < 0x80" | "\<not> b < 0x80" "b < 0xB8" | "\<not> b < 0xB8" "b < 0xC0"
    | "\<not> b < 0xC0" "b < 0xF8" | "\<not> b < 0xF8" by blast
  then show ?thesis
  proof cases
    case 1
    with rk t show ?thesis by auto
  next
    case 2
    with rk t tag_small(1) [OF 2] show ?thesis by (auto simp: puthead_def)
  next
    case 3
    moreover have "\<not> b < 0x80" using 3 by (auto simp: word_less_nat_alt)
    ultimately have "readUint (unat (b - 0xB7)) ?s2 = (Inr sz, s') \<and> \<not> sz < 56 \<and> k = String"
      using rk by (auto split: prod.splits sum.splits if_splits)
    with readUint_head [OF _ tag_large(1) [OF 3] _ t2, of sz s' "0x80"] show ?thesis by simp
  next
    case 4
    moreover have "\<not> b < 0x80" "\<not> b < 0xB8" using 4 by (auto simp: word_less_nat_alt)
    ultimately show ?thesis using rk t tag_small(2) [OF 4] by (auto simp: puthead_def)
  next
    case 5
    moreover have "\<not> b < 0x80" "\<not> b < 0xB8" "\<not> b < 0xC0" using 5 by (auto simp: word_less_nat_alt)
    ultimately have "readUint (unat (b - 0xF7)) ?s2 = (Inr sz, s') \<and> \<not> sz < 56 \<and> k = List"
      using rk by (auto split: prod.splits sum.splits if_splits)
    with readUint_head [OF _ tag_large(2) [OF 5] _ t2, of sz s' "0xC0"] show ?thesis by simp
  qed
qed

lemma Kind_took:
  assumes "s_kind s = None" "Kind s = (Inr (k, sz), s')"
  shows "took (head_of k sz (s_byteval s')) s s' \<and> (k = Byte \<longrightarrow> s_byteval s' < 0x80)"
  using assms(1)
proof (cases rule: Kind_cases)
  case eol
  with assms(2) show ?thesis by simp
next
  case (read k' sz' err err1 s1)
  then have "err1 = None \<and> k' = k \<and> sz' = sz \<and> s' = s1\<lparr>s_kind := Some k, s_size := sz, s_kinderr := None\<rparr>"
    using assms(2) by (auto simp: cached_kind_def split: option.splits)
  moreover from this read(4) have "err = None" by simp
  ultimately show ?thesis using readKind_Inr [of "s\<lparr>s_kinderr := None\<rparr>" k sz s1] read(2) by simp
qed

lemma canonical_Bytes: "canonical Bytes enc_string"
  unfolding canonical_def
proof (intro allI impI)
  fix s v s' assume *: "s_kind s = None \<and> Bytes s = (Inr v, s')"
  then obtain k sz s1 where K: "Kind s = (Inr (k, sz), s1)"
    by (auto simp: Bytes_def split: prod.splits sum.splits)
  note T = Kind_took [OF conjunct1 [OF *] K]
  show "s_kind s' = None \<and> took (enc_string v) s s'"
  proof (cases k)
    case Byte
    then have "v = [s_byteval s1]" "s' = s1\<lparr>s_kind := None\<rparr>" using * K by (simp_all add: Bytes_def)
    moreover have "s_byteval s1 \<le> 0x7F" using T Byte by (simp add: word_less_nat_alt word_le_nat_alt)
    ultimately show ?thesis using T Byte by (simp add: enc_string_def)
  next
    case String
    obtain x s2 where x: "readFull sz s1 = (x, s2)" by fastforce
    with * K String have "x = Inr v \<and> s2 = s' \<and> \<not> (sz = 1 \<and> v ! 0 < 128)"
      by (cases x) (simp_all add: Bytes_def split: if_splits)
    with x have b: "readFull sz s1 = (Inr v, s')" "\<not> (sz = 1 \<and> v ! 0 < 128)" by simp_all
    note R = readFull_Inr [OF b(1)]
    have "enc_string v = puthead 0x80 0xB7 sz @ v"
      unfolding enc_string_def using b(2) R by (auto simp: word_less_nat_alt word_le_nat_alt)
    with R T String took_trans [of "puthead 0x80 0xB7 sz" s s1 v s'] show ?thesis by simp
  next
    case List
    with * K show ?thesis by (simp add: Bytes_def)
  qed
qed

lemma wrapped_Inr [simp]: "wrapped d s = (Inr v, s') \<longleftrightarrow> d s = (Inr v, s')"
  by (auto simp: wrapped_def split: prod.splits sum.splits)

lemma field_Inr [simp]: "struct_field d s = (Inr v, s') \<longleftrightarrow> d s = (Inr v, s')"
  by (auto simp: struct_field_def split: prod.splits sum.splits)

lemma dbind_Inr: "dbind d f s = (Inr v, s') \<longleftrightarrow> (\<exists>x s1. d s = (Inr x, s1) \<and> f x s1 = (Inr v, s'))"
  by (auto simp: dbind_def split: prod.splits sum.splits)

lemma dret_Inr [simp]: "dret x s = (Inr v, s') \<longleftrightarrow> v = x \<and> s' = s"
  by (auto simp: dret_def)

lemma canonical_wrapped: "canonical d enc \<Longrightarrow> canonical (wrapped d) enc"
  and canonical_field: "canonical d enc \<Longrightarrow> canonical (struct_field d) enc"
  by (simp_all add: canonical_def)

lemma canonical_ByteSlice: "canonical decodeByteSlice enc_string"
  unfolding decodeByteSlice_def by (intro canonical_wrapped canonical_Bytes)

lemma canonical_BigInt: "canonical decodeBigInt (\<lambda>i. enc_nat (nat i))"
  unfolding canonical_def
proof (intro allI impI)
  fix s v s' assume *: "s_kind s = None \<and> decodeBigInt s = (Inr v, s')"
  then obtain b where b: "Bytes s = (Inr b, s')" "length b = 0 \<or> b ! 0 \<noteq> 0" "v = int (be_nat b)"
    by (auto simp: decodeBigInt_def split: prod.splits sum.splits if_splits)
  then have "b = [] \<or> hd b \<noteq> 0" by (cases b) simp_all
  then have "enc_nat (nat v) = enc_string b" using b(3) by (simp add: enc_nat_def min_be_be_nat)
  with canonicalD [OF canonical_Bytes b(1)] * show "s_kind s' = None \<and> took (enc_nat (nat v)) s s'"
    by simp
qed

lemma canonical_ByteArray: "1 < n \<Longrightarrow> canonical (decodeByteArray n) enc_string"
  unfolding canonical_def
proof (intro allI impI)
  fix s v s' assume n: "1 < n" and *: "s_kind s = None \<and> decodeByteArray n s = (Inr v, s')"
  then obtain k sz s1 where K: "Kind s = (Inr (k, sz), s1)"
    by (auto simp: decodeByteArray_def split: prod.splits sum.splits)
  note T = Kind_took [OF conjunct1 [OF *] K]
  have k: "k = String" using * K n by (cases k) (auto simp: decodeByteArray_def)
  with * K have b: "readFull n s1 = (Inr v, s')" "n = sz"
    by (auto simp: decodeByteArray_def split: prod.splits sum.splits if_splits)
  note R = readFull_Inr [OF b(1)]
  have "enc_string v = puthead 0x80 0xB7 sz @ v" using R n b(2) by (simp add: enc_string_def)
  with R T k took_trans [of "puthead 0x80 0xB7 sz" s s1 v s']
  show "s_kind s' = None \<and> took (enc_string v) s s'" by simp
qed

lemma ByteArray_length: "decodeByteArray n s = (Inr v, s') \<Longrightarrow> length v = n"
  by (auto simp: decodeByteArray_def split: prod.splits sum.splits kind.splits if_splits dest: readFull_Inr)

lemma canonical_uint: "canonical (stream_uint bits) enc_nat"
  unfolding canonical_def
proof (intro allI impI)
  fix s v s' assume *: "s_kind s = None \<and> stream_uint bits s = (Inr v, s')"
  then obtain k sz s1 where K: "Kind s = (Inr (k, sz), s1)"
    by (auto simp: stream_uint_def split: prod.splits sum.splits)
  note T = Kind_took [OF conjunct1 [OF *] K]
  show "s_kind s' = None \<and> took (enc_nat v) s s'"
  proof (cases k)
    case Byte
    with * K have v: "v = be_nat [s_byteval s1]" "s_byteval s1 \<noteq> 0" "s' = s1\<lparr>s_kind := None\<rparr>"
      by (auto simp: stream_uint_def split: if_splits)
    then have "enc_nat v = [s_byteval s1]" using T Byte unfolding enc_nat_def v(1)
      by (subst min_be_be_nat) (auto simp: enc_string_def word_less_nat_alt word_le_nat_alt)
    with v(3) T Byte show ?thesis by simp
  next
    case String
    with * K have b: "readUint sz s1 = (Inr v, s')" and c: "\<not> (0 < sz \<and> v < 128)"
      by (auto simp: stream_uint_def split: prod.splits sum.splits if_splits)
    from readUint_Inr [OF b] obtain bs where bs: "s_kind s' = None" "length bs = sz" "v = be_nat bs"
      "took bs s1 s'" "1 < sz \<longrightarrow> bs ! 0 \<noteq> 0" by blast
    have hd: "bs = [] \<or> hd bs \<noteq> 0"
    proof (cases "sz = 1")
      case True
      then obtain x where "bs = [x]" using bs(2) by (cases bs) auto
      with c bs(3) True show ?thesis by auto
    next
      case False
      with bs(2,5) show ?thesis by (cases bs) auto
    qed
    have "\<not> (length bs = 1 \<and> bs ! 0 \<le> 0x7F)"
    proof
      assume "length bs = 1 \<and> bs ! 0 \<le> 0x7F"
      then obtain x where x: "bs = [x]" "x \<le> 0x7F" by (cases bs) auto
      then have "unat x \<le> 127" by (simp add: word_le_nat_alt)
      with c bs(2,3) x(1) show False by simp
    qed
    then have "enc_nat v = puthead 0x80 0xB7 sz @ bs"
      unfolding enc_nat_def bs(3) min_be_be_nat [OF hd] enc_string_def bs(2) by (rule if_not_P)
    with took_trans [of "puthead 0x80 0xB7 sz" s s1 bs s'] T String bs show ?thesis by simp
  next
    case List
    with * K show ?thesis by (simp add: stream_uint_def)
  qed
qed

lemma list_took:
  assumes k: "s_kind s = None" and st: "List_start s = (Inr n, s1)"
    and B: "took e s1 s2" and en: "ListEnd s2 = (Inr (), s')"
  shows "s_kind s' = None \<and> took (enc_list e) s s'"
proof -
  obtain s0 where K: "Kind s = (Inr (List, n), s0)"
    and s1: "s1 = s0\<lparr>s_stack := \<lparr>lp_pos = 0, lp_size = n\<rparr> # s_stack s0, s_kind := None, s_size := 0\<rparr>"
    using st by (auto simp: List_start_def split: prod.splits sum.splits if_splits)
  have T: "took (puthead 0xC0 0xF7 n) s s0" using Kind_took [OF k K] by simp
  have len: "length e = n" using B en s1 by (auto simp: took_def ListEnd_def split: if_splits)
  with B T en s1 show ?thesis
    by (auto simp: took_def ListEnd_def enc_list_def push_pos_def add.commute split: list.splits if_splits)
qed

lemma canonical_struct:
  assumes "canonical body enc"
  shows "canonical (structDecoder body) (\<lambda>v. enc_list (enc v))"
  unfolding canonical_def
proof (intro allI impI)
  fix s v s' assume *: "s_kind s = None \<and> structDecoder body s = (Inr v, s')"
  then obtain n s1 s2 where d: "List_start s = (Inr n, s1)" "body s1 = (Inr v, s2)" "ListEnd s2 = (Inr (), s')"
    by (auto simp: structDecoder_def dbind_Inr)
  have "s_kind s1 = None" using d(1) by (auto simp: List_start_def split: prod.splits sum.splits if_splits)
  then have "took (enc v) s1 s2" using canonicalD [OF assms d(2)] by simp
  with * d show "s_kind s' = None \<and> took (enc_list (enc v)) s s'" using list_took by blast
qed

lemma canonical_bind:
  assumes "canonical d enc" "\<And>x. canonical (f x) (enc' x)"
    and "\<And>x s v s'. f x s = (Inr v, s') \<Longrightarrow> proj v = x"
  shows "canonical (dbind d f) (\<lambda>v. enc (proj v) @ enc' (proj v) v)"
  unfolding canonical_def dbind_Inr
proof (intro allI impI)
  fix s v s' assume "s_kind s = None \<and> (\<exists>x s1. d s = (Inr x, s1) \<and> f x s1 = (Inr v, s'))"
  then obtain x s1 where *: "s_kind s = None" "d s = (Inr x, s1)" "f x s1 = (Inr v, s')" by blast
  note a = canonicalD [OF assms(1) *(2,1)]
  note b = canonicalD [OF assms(2) *(3) conjunct1 [OF a]]
  from a b took_trans show "s_kind s' = None \<and> took (enc (proj v) @ enc' (proj v) v) s s'"
    unfolding assms(3) [OF *(3)] by blast
qed

lemma canonical_ret: "canonical (dret v) (\<lambda>_. [])"
  by (simp add: canonical_def)

lemma DecodeBytes_canonical:
  assumes "canonical dec enc" "DecodeBytes b dec = Inr v"
  shows "b = enc v"
proof -
  obtain s' where "dec (NewStream b (length b)) = (Inr v, s')" "s_r s' = []"
    using assms(2) by (auto simp: DecodeBytes_def split: prod.splits sum.splits if_splits)
  with canonicalD [OF assms(1) this(1)] show ?thesis by (simp add: NewStream_def took_def)
qed

section \<open>The end of a list; slices; codecs\<close>

text \<open>\<open>eol_clean d\<close>: when \<open>d\<close> reports the end of the list, it has consumed nothing.\<close>

definition eol_clean :: "'a decoder \<Rightarrow> bool" where
  "eol_clean d \<longleftrightarrow>
     (\<forall>s s'. s_kind s = None \<and> d s = (Inl EOL, s') \<longrightarrow> s_kind s' = None \<and> took [] s s')"

lemma willRead_not_EOL: "willRead n s \<noteq> (Inl EOL, s')"
  by (auto simp: willRead_def Let_def split: list.splits)

lemma readByte_not_EOL: "readByte s \<noteq> (Inl EOL, s')"
  by (auto simp: readByte_def willRead_not_EOL split: prod.splits sum.splits list.splits)

lemma readFull_not_EOL: "readFull n s \<noteq> (Inl EOL, s')"
  by (auto simp: readFull_def willRead_not_EOL split: prod.splits sum.splits)

lemma readUint_not_EOL: "readUint n s \<noteq> (Inl EOL, s')"
  by (auto simp: readUint_def readFull_not_EOL readByte_not_EOL split: prod.splits sum.splits)

lemma readKind_not_EOL: "readKind s \<noteq> ((k, sz, Some EOL), s')"
  by (auto simp: readKind_def readUint_not_EOL readByte_not_EOL Let_def split: prod.splits sum.splits)

lemma Kind_EOL:
  assumes "s_kind s = None" "Kind s = (Inl EOL, s')"
  shows "s_kind s' = None \<and> took [] s s'"
  using assms(1)
proof (cases s rule: Kind_cases)
  case eol
  with assms have "s' = s\<lparr>s_kinderr := None\<rparr>" by simp
  with assms(1) show ?thesis by simp
next
  case (read k sz err err1 s1)
  have "err1 = Some EOL" using read(3) assms(2) by (auto simp: cached_kind_def split: option.splits)
  moreover have "err \<noteq> Some EOL" using read(2) readKind_not_EOL by auto
  ultimately show ?thesis using read(5) by simp
qed

lemma wrapStreamError_EOL [simp]: "wrapStreamError e = EOL \<longleftrightarrow> e = EOL"
  by (cases e) simp_all

lemma eol_clean_Kind: "eol_clean Kind"
  unfolding eol_clean_def using Kind_EOL by blast

lemma eol_clean_wrapped: "eol_clean d \<Longrightarrow> eol_clean (wrapped d)"
  by (auto simp: eol_clean_def wrapped_def split: prod.splits sum.splits)

lemma eol_clean_Bytes: "eol_clean Bytes"
  unfolding eol_clean_def Bytes_def
  by (auto simp: readFull_not_EOL split: prod.splits sum.splits kind.splits if_splits dest: Kind_EOL)

lemma eol_clean_ByteSlice: "eol_clean decodeByteSlice"
  unfolding decodeByteSlice_def by (rule eol_clean_wrapped [OF eol_clean_Bytes])

lemma eol_clean_ByteArray: "eol_clean (decodeByteArray n)"
  unfolding eol_clean_def decodeByteArray_def
  by (auto simp: readFull_not_EOL split: prod.splits sum.splits kind.splits if_splits dest: Kind_EOL)

lemma eol_clean_map: "eol_clean d \<Longrightarrow> eol_clean (dbind d (\<lambda>x. dret (f x)))"
  by (auto simp: eol_clean_def dbind_def dret_def split: prod.splits sum.splits)

lemma elems_took:
  assumes "canonical d enc" "eol_clean d"
  shows "s_kind s = None \<Longrightarrow> decodeSliceElems fuel d s = (Inr vs, s') \<Longrightarrow>
    s_kind s' = None \<and> took (concat (map enc vs)) s s'"
proof (induction fuel arbitrary: s vs)
  case (Suc fuel)
  obtain x s1 where d: "d s = (x, s1)" by fastforce
  show ?case
  proof (cases x)
    case (Inl e)
    with Suc.prems d have "e = EOL \<and> vs = [] \<and> s' = s1" by (simp split: if_splits)
    with Inl d assms(2) Suc.prems(1) show ?thesis by (auto simp: eol_clean_def)
  next
    case (Inr v)
    obtain y s2 where r: "decodeSliceElems fuel d s1 = (y, s2)" by fastforce
    with Suc.prems d Inr have "\<exists>vs'. y = Inr vs' \<and> vs = v # vs' \<and> s2 = s'" by (cases y) simp_all
    then obtain vs' where vs: "y = Inr vs'" "vs = v # vs'" "s2 = s'" by blast
    note c = canonicalD [OF assms(1) d [unfolded Inr] Suc.prems(1)]
    note i = Suc.IH [OF conjunct1 [OF c] r [unfolded vs(1,3)]]
    show ?thesis using took_trans [OF conjunct2 [OF c] conjunct2 [OF i]] i vs(2) by simp
  qed
qed simp

lemma canonical_slice:
  assumes "canonical d enc" "eol_clean d"
  shows "canonical (decodeListSlice d) (\<lambda>vs. enc_list (concat (map enc vs)))"
  unfolding canonical_def
proof (intro allI impI)
  fix s vs s' assume *: "s_kind s = None \<and> decodeListSlice d s = (Inr vs, s')"
  then obtain n s1 where st: "List_start s = (Inr n, s1)"
    by (auto simp: decodeListSlice_def wrapped_def split: prod.splits sum.splits)
  have k1: "s_kind s1 = None" using st by (auto simp: List_start_def split: prod.splits sum.splits if_splits)
  have w: "wrapped List_start s = (Inr n, s1)" using st by simp
  note ds = conjunct2 [OF *, unfolded decodeListSlice_def w prod.case sum.case]
  show "s_kind s' = None \<and> took (enc_list (concat (map enc vs))) s s'"
  proof (cases "n = 0")
    case True
    with ds have "vs = [] \<and> ListEnd s1 = (Inr (), s')" by (auto simp: dbind_Inr)
    with list_took [OF conjunct1 [OF *] st took_Nil] show ?thesis by simp
  next
    case False
    obtain y s2 where r: "decodeSliceElems (Suc (length (s_r s1))) d s1 = (y, s2)" by fastforce
    with ds False have "y = Inr vs \<and> ListEnd s2 = (Inr (), s')"
      by (cases y) (auto simp: dbind_Inr simp del: decodeSliceElems.simps)
    with list_took [OF conjunct1 [OF *] st _, of "concat (map enc vs)" s2 s']
      elems_took [OF assms k1, of "Suc (length (s_r s1))" vs s2] r show ?thesis by simp
  qed
qed

section \<open>Codecs\<close>

text \<open>What a client of the package relies on when it pairs an \<^verbatim>\<open>EncodeRLP\<close> with a
  \<^verbatim>\<open>DecodeRLP\<close>: encodings of valid values are read back. A strict codec accepts nothing else.\<close>

locale rlp_codec =
  fixes dec :: "'a decoder" and enc :: "'a \<Rightarrow> bytes" and valid :: "'a \<Rightarrow> bool"
  assumes reads_enc: "valid v \<Longrightarrow> reads dec (enc v) v"
begin

lemma decode_encode: "valid v \<Longrightarrow> DecodeBytes (enc v) dec = Inr v"
  by (rule DecodeBytes_reads [OF reads_enc])

lemma trailing: "valid v \<Longrightarrow> x \<noteq> [] \<Longrightarrow> DecodeBytes (enc v @ x) dec = Inl ErrMoreThanOneValue"
  by (rule DecodeBytes_trailing [OF reads_enc])

lemma enc_inject: "valid v \<Longrightarrow> valid w \<Longrightarrow> enc v = enc w \<Longrightarrow> v = w"
  using decode_encode by (metis sum.inject(2))

end

locale strict_codec = rlp_codec +
  assumes canonical: "canonical dec enc"
begin

lemma decode_iff: "valid v \<Longrightarrow> DecodeBytes b dec = Inr v \<longleftrightarrow> b = enc v"
  using decode_encode DecodeBytes_canonical [OF canonical] by blast

lemma decode_inject: "DecodeBytes b dec = Inr v \<Longrightarrow> DecodeBytes c dec = Inr v \<Longrightarrow> b = c"
  using DecodeBytes_canonical [OF canonical] by blast

end

interpretation bigint: strict_codec decodeBigInt "\<lambda>i. enc_nat (nat i)"
  "\<lambda>i. 0 \<le> i \<and> length (min_be (nat i)) < 2 ^ 64"
proof
  fix i :: int
  assume "0 \<le> i \<and> length (min_be (nat i)) < 2 ^ 64"
  then show "reads decodeBigInt (enc_nat (nat i)) i" using reads_BigInt [of "nat i"] by simp
qed (rule canonical_BigInt)

lemma enc_string_nonempty [simp]: "enc_string b \<noteq> []"
  by (auto simp: enc_string_def puthead_def Let_def)

lemma enc_list_nonempty [simp]: "enc_list b \<noteq> []"
  by (auto simp: enc_list_def puthead_def Let_def)

lemma reads_byte_slices:
  assumes "length (concat (map enc_string bs)) < 2 ^ 64"
  shows "reads (decodeListSlice decodeByteSlice) (enc_list (concat (map enc_string bs))) bs"
proof (rule reads_slice [OF _ stops_typed(1) assms])
  have "length b < 2 ^ 64" if "b \<in> set bs" for b
  proof -
    have "length b \<le> length (enc_string b)" by (simp add: enc_string_def)
    also have "\<dots> \<le> length (concat (map enc_string bs))"
      using that by (simp add: length_concat member_le_sum_list)
    finally show ?thesis using assms by simp
  qed
  then show "list_all2 (\<lambda>e v. reads decodeByteSlice e v \<and> e \<noteq> []) (map enc_string bs) bs"
    by (simp add: list_all2_conv_all_nth reads_ByteSlice)
qed

interpretation byteslices: strict_codec "decodeListSlice decodeByteSlice"
  "\<lambda>bs. enc_list (concat (map enc_string bs))" "\<lambda>bs. length (concat (map enc_string bs)) < 2 ^ 64"
  by unfold_locales (auto intro: reads_byte_slices canonical_slice canonical_ByteSlice eol_clean_ByteSlice)

section \<open>Properties\<close>

text \<open>C28. Every operation of the stream keeps the positions of the open lists inside their sizes,
  the sizes of nested lists inside what their parent has left, and the size of the value the stream
  is about to read inside its list or the input: no subtraction of the decoder's \<^verbatim>\<open>uint64\<close>
  arithmetic underflows, whatever the input is and whether the operation succeeds or not.\<close>

theorem stream_operations_keep_ok:
  "keeps Kind \<and> keeps Bytes \<and> keeps Raw \<and> keeps (stream_uint bits) \<and> keeps stream_Bool \<and>
   keeps List_start \<and> keeps ListEnd \<and> keeps (decodeByteArray n) \<and> keeps decodeBigInt \<and>
   keeps (decodeListSlice (decodeByteArray n)) \<and> stream_ok (NewStream b limit)"
  by (simp add: keeps_Kind keeps_Bytes keeps_Raw keeps_uint keeps_Bool keeps_List_start keeps_ListEnd
      keeps_ByteArray keeps_BigInt keeps_ListSlice)
    (simp add: stream_ok_def NewStream_def)

text \<open>C27. The decoder accepts exactly what the encoder produces: bytes decode to a list of byte
  strings if and only if they are what \<^verbatim>\<open>EncodeToBytes\<close> returns for that list. Non-minimal
  length prefixes, single bytes written with a prefix, truncated input and trailing bytes are all
  refused.\<close>

theorem byte_slices_decode_iff_encode:
  assumes "length (enc_list (concat (map enc_string bs))) < 2 ^ 64"
  shows "DecodeBytes b (decodeListSlice decodeByteSlice) = Inr bs \<longleftrightarrow>
    EncodeToBytes (RSlice (map RBytes bs)) = Inr b"
proof -
  have len: "length (concat (map enc_string bs)) < 2 ^ 64" using assms by (simp add: enc_list_def)
  have e: "enc_spec (RSlice (map RBytes bs)) = enc_list (concat (map enc_string bs))" (is "_ = ?e")
    by (simp add: comp_def)
  have "encodable (RSlice (map RBytes bs))" by (simp add: list_all_length)
  then have "EncodeToBytes (RSlice (map RBytes bs)) = Inr ?e"
    using EncodeToBytes_enc_spec assms e by metis
  then show ?thesis using byteslices.decode_iff [OF len] by auto
qed

theorem byte_slices_decode_iff_encode_witness:
  "DecodeBytes [0xC6, 0x82, 1, 2, 0x80, 0x7F, 0x80] (decodeListSlice decodeByteSlice) = Inr [[1, 2], [], [0x7F], []]
   \<longleftrightarrow> EncodeToBytes (RSlice [RBytes [1, 2], RBytes [], RBytes [0x7F], RBytes []]) =
     Inr [0xC6, 0x82, 1, 2, 0x80, 0x7F, 0x80]"
proof -
  have "length (enc_list (concat (map enc_string [[1, 2], [], [0x7F], []]))) = 7" by code_simp
  then show ?thesis using byte_slices_decode_iff_encode [of "[[1, 2], [], [0x7F], []]"] by simp
qed

end
