(* ===== verification/RLP_Raw.thy ===== *)
theory RLP_Raw
  imports RLP_Codec
begin

text \<open>
  The slice-based reader of package rlp (\<^verbatim>\<open>src/rlp/raw.go\<close>). It works on a byte slice
  without a stream; a value is located by the size of its header and of its content. Indexing past
  the end of a slice panics in Go, and is a branch of the model.
\<close>

section \<open>Operations\<close>

definition ListSize :: "nat \<Rightarrow> nat" where
  "ListSize contentSize = (headsize contentSize + contentSize) mod 2 ^ 64"

text \<open>\<^verbatim>\<open>readSize\<close> is called with a length of 1 to 8, and reads that many bytes as a big-endian
  number.\<close>

definition readSize :: "bytes \<Rightarrow> nat \<Rightarrow> rlp_error + nat" where
  "readSize b slen =
     (if slen > length b then Inl ErrUnexpectedEOF
      else
        (let s = be_nat (take slen b) in
         if s < 56 \<or> b ! 0 = 0 then Inl ErrCanonSize else Inr s))"

definition raw_fits :: "bytes \<Rightarrow> kind \<Rightarrow> nat \<Rightarrow> rlp_error + nat \<Rightarrow> (rlp_error, kind \<times> nat \<times> nat) outcome"
where
  "raw_fits buf k tagsize r =
     (case r of
        Inl e \<Rightarrow> Fail e
      | Inr contentsize \<Rightarrow>
          if contentsize > length buf - tagsize then Fail ErrValueTooLarge
          else Ok (k, tagsize, contentsize))"

definition raw_readKind :: "bytes \<Rightarrow> (rlp_error, kind \<times> nat \<times> nat) outcome" where
  "raw_readKind buf =
     (if buf = [] then Fail ErrUnexpectedEOF
      else
        (let b = buf ! 0 in
         if b < 0x80 then raw_fits buf Byte 0 (Inr 1)
         else if b < 0xB8 then
           (let contentsize = unat (b - 0x80) in
            if contentsize = 1 \<and> length buf \<le> 1 then Panic
            else if contentsize = 1 \<and> buf ! 1 < 128 then Fail ErrCanonSize
            else raw_fits buf String 1 (Inr contentsize))
         else if b < 0xC0 then
           raw_fits buf String (unat (b - 0xB7) + 1) (readSize (tl buf) (unat (b - 0xB7)))
         else if b < 0xF8 then raw_fits buf List 1 (Inr (unat (b - 0xC0)))
         else raw_fits buf List (unat (b - 0xF7) + 1) (readSize (tl buf) (unat (b - 0xF7)))))"

definition Split :: "bytes \<Rightarrow> (rlp_error, kind \<times> bytes \<times> bytes) outcome" where
  "Split b =
     (case raw_readKind b of
        Panic \<Rightarrow> Panic
      | Fail e \<Rightarrow> Fail e
      | Ok (k, ts, cs) \<Rightarrow> Ok (k, take cs (drop ts b), drop (ts + cs) b))"

definition SplitString :: "bytes \<Rightarrow> (rlp_error, bytes \<times> bytes) outcome" where
  "SplitString b =
     (case Split b of
        Panic \<Rightarrow> Panic
      | Fail e \<Rightarrow> Fail e
      | Ok (k, content, rest) \<Rightarrow> if k = List then Fail ErrExpectedString else Ok (content, rest))"

definition SplitList :: "bytes \<Rightarrow> (rlp_error, bytes \<times> bytes) outcome" where
  "SplitList b =
     (case Split b of
        Panic \<Rightarrow> Panic
      | Fail e \<Rightarrow> Fail e
      | Ok (k, content, rest) \<Rightarrow> if k \<noteq> List then Fail ErrExpectedList else Ok (content, rest))"

lemma raw_fits_Ok:
  "raw_fits buf k ts r = Ok x \<longleftrightarrow> (\<exists>cs. r = Inr cs \<and> cs \<le> length buf - ts \<and> x = (k, ts, cs))"
  by (auto simp: raw_fits_def split: sum.splits)

lemma raw_readKind_progress: "raw_readKind b = Ok (k, ts, cs) \<Longrightarrow> b \<noteq> [] \<and> 0 < ts + cs"
  by (auto simp: raw_readKind_def Let_def raw_fits_Ok split: if_splits)

function CountValues_from :: "nat \<Rightarrow> bytes \<Rightarrow> (rlp_error, nat) outcome" where
  "CountValues_from i b =
     (if b = [] then Ok i
      else
        (case raw_readKind b of
           Panic \<Rightarrow> Panic
         | Fail e \<Rightarrow> Fail e
         | Ok (k, ts, cs) \<Rightarrow> CountValues_from (i + 1) (drop (ts + cs) b)))"
  by pat_completeness auto
termination
  by (relation "measure (\<lambda>(i, b). length b)") (auto dest: raw_readKind_progress)

declare CountValues_from.simps [simp del]

definition CountValues :: "bytes \<Rightarrow> (rlp_error, nat) outcome" where
  "CountValues b = CountValues_from 0 b"

section \<open>Headers\<close>

lemma readSize_putint:
  assumes "56 \<le> n" "n < 2 ^ 64"
  shows "readSize (putint n @ c) (length (putint n)) = Inr n"
  using assms putint_hd [of n] be_nat_putint [of n] length_putint [of n]
  by (auto simp: readSize_def nth_append)

lemma readSize_Inr:
  assumes "readSize b k = Inr s" "1 \<le> k" "k \<le> 8"
  shows "k \<le> length b \<and> 56 \<le> s \<and> putint s = take k b"
proof -
  have *: "k \<le> length b" "\<not> be_nat (take k b) < 56" "b ! 0 \<noteq> 0" "s = be_nat (take k b)"
    using assms(1) by (auto simp: readSize_def Let_def split: if_splits)
  with long_head [of "take k b" k] assms show ?thesis by simp
qed

lemma raw_readKind_head:
  assumes t: "head_tags sm lg k" and n: "n < 2 ^ 64" "n \<le> length c"
    and one: "k = String \<longrightarrow> \<not> (n = 1 \<and> c ! 0 < 128)"
  shows "raw_readKind (puthead sm lg n @ c) = Ok (k, length (puthead sm lg n), n)"
proof (cases "n < 56")
  case True
  have nth: "((t # c) ! 1 = c ! 0)" for t :: byte by simp
  have ne: "n = 1 \<Longrightarrow> c \<noteq> []" using n by auto
  note tag = byte_tag(1,2) [OF True]
  from t show ?thesis unfolding head_tags_def
  proof (elim disjE conjE)
    assume "sm = 0x80" "lg = 0xB7" "k = String"
    with True tag n(2) one ne show ?thesis
      unfolding raw_readKind_def puthead_def Let_def raw_fits_def
      by (simp add: word_less_nat_alt)
  next
    assume "sm = 0xC0" "lg = 0xF7" "k = List"
    with True tag n(2) show ?thesis
      unfolding raw_readKind_def puthead_def Let_def raw_fits_def
      by (simp add: word_less_nat_alt)
  qed
next
  case False
  let ?m = "length (putint n)"
  have m: "1 \<le> ?m" "?m \<le> 8" using length_putint [of n] n False by auto
  have u: "unat (183 + of_nat ?m - 183 :: byte) = ?m" "unat (247 + of_nat ?m - 247 :: byte) = ?m"
    using m by simp_all
  note tag = byte_tag(3,4) [OF m(2)]
  have rs: "readSize (putint n @ c) ?m = Inr n" using readSize_putint [of n c] False n by simp
  have fits: "raw_fits (x # putint n @ c) k (?m + 1) (Inr n) = Ok (k, Suc ?m, n)" for x
    using n(2) by (simp add: raw_fits_def)
  have head: "puthead sm lg n @ c = (lg + of_nat ?m) # putint n @ c" "length (puthead sm lg n) = Suc ?m"
    using False by (simp_all add: puthead_def Let_def)
  from t show ?thesis unfolding head head_tags_def
  proof (elim disjE conjE)
    assume s: "sm = 0x80" "lg = 0xB7" "k = String"
    have "\<not> lg + of_nat ?m < 0x80" "\<not> lg + of_nat ?m < 0xB8" "lg + of_nat ?m < 0xC0"
      using tag m s by (auto simp: word_less_nat_alt)
    then show "raw_readKind ((lg + of_nat ?m) # putint n @ c) = Ok (k, Suc ?m, n)"
      using rs fits u s unfolding raw_readKind_def Let_def by simp
  next
    assume s: "sm = 0xC0" "lg = 0xF7" "k = List"
    have "\<not> lg + of_nat ?m < 0x80" "\<not> lg + of_nat ?m < 0xB8" "\<not> lg + of_nat ?m < 0xC0"
      "\<not> lg + of_nat ?m < 0xF8" using tag m s by (auto simp: word_less_nat_alt)
    then show "raw_readKind ((lg + of_nat ?m) # putint n @ c) = Ok (k, Suc ?m, n)"
      using rs fits u s unfolding raw_readKind_def Let_def by simp
  qed
qed

lemma raw_readKind_Ok:
  assumes "raw_readKind b = Ok (k, ts, cs)"
  shows "ts + cs \<le> length b \<and>
    (case k of
       Byte \<Rightarrow> ts = 0 \<and> cs = 1 \<and> b ! 0 < 128
     | String \<Rightarrow> take ts b = puthead 0x80 0xB7 cs \<and> \<not> (cs = 1 \<and> b ! ts < 128)
     | List \<Rightarrow> take ts b = puthead 0xC0 0xF7 cs)"
proof -
  have "b \<noteq> []" using assms raw_readKind_progress by blast
  then obtain c b' where b: "b = c # b'" by (cases b) auto
  note rk = assms [unfolded raw_readKind_def b Let_def raw_fits_Ok, simplified]
  have long: "unat (c - lg) + 1 + cs \<le> length b \<and> take (unat (c - lg) + 1) b = puthead sm lg cs \<and> 56 \<le> cs"
    if "1 \<le> unat (c - lg) \<and> unat (c - lg) \<le> 8 \<and> lg + of_nat (unat (c - lg)) = c"
      "readSize b' (unat (c - lg)) = Inr cs" "cs \<le> length b' - unat (c - lg)" for lg sm :: byte
    using readSize_Inr [OF that(2)] that b by (auto simp: puthead_def)
  consider "c < 0x80" | "\<not> c < 0x80" "c < 0xB8" | "\<not> c < 0xB8" "c < 0xC0"
    | "\<not> c < 0xC0" "c < 0xF8" | "\<not> c < 0xF8" by blast
  then show ?thesis
  proof cases
    case 1
    with rk b show ?thesis by (auto simp: raw_fits_Ok)
  next
    case 2
    with rk tag_small(1) [OF 2] b show ?thesis
      by (auto simp: raw_fits_Ok puthead_def split: if_splits)
  next
    case 3
    moreover have "\<not> c < 0x80" using 3 by (auto simp: word_less_nat_alt)
    ultimately show ?thesis using rk long [OF tag_large(1) [OF 3]] by (auto simp: raw_fits_Ok)
  next
    case 4
    moreover have "\<not> c < 0x80" "\<not> c < 0xB8" using 4 by (auto simp: word_less_nat_alt)
    ultimately show ?thesis using rk tag_small(2) [OF 4] b by (auto simp: raw_fits_Ok puthead_def)
  next
    case 5
    moreover have "\<not> c < 0x80" "\<not> c < 0xB8" "\<not> c < 0xC0" using 5 by (auto simp: word_less_nat_alt)
    ultimately show ?thesis using rk long [OF tag_large(2) [OF 5]] by (auto simp: raw_fits_Ok)
  qed
qed

section \<open>Splitting is the inverse of encoding\<close>

lemma SplitString_iff:
  assumes "length b < 2 ^ 64"
  shows "SplitString b = Ok (c, rest) \<longleftrightarrow> b = enc_string c @ rest"
proof
  assume "SplitString b = Ok (c, rest)"
  then have "\<exists>k ts cs. raw_readKind b = Ok (k, ts, cs) \<and> k \<noteq> List \<and>
      c = take cs (drop ts b) \<and> rest = drop (ts + cs) b"
    by (auto simp: SplitString_def Split_def split: outcome.splits if_splits)
  then obtain k ts cs where *: "raw_readKind b = Ok (k, ts, cs)" "k \<noteq> List"
    "c = take cs (drop ts b)" "rest = drop (ts + cs) b" by blast
  note ok = raw_readKind_Ok [OF *(1)]
  have split: "b = take ts b @ c @ rest" using *(3,4)
    by (metis append_take_drop_id drop_drop add.commute)
  have len: "length c = cs" using ok by (auto simp: *(3))
  show "b = enc_string c @ rest"
  proof (cases k)
    case Byte
    with ok have b: "ts = 0" "cs = 1" "b ! 0 < 128" "b \<noteq> []" by auto
    then have "c = [b ! 0]" using *(3) by (cases b) simp_all
    with b split show ?thesis by (simp add: enc_string_def word_less_nat_alt word_le_nat_alt)
  next
    case String
    with ok have h: "take ts b = puthead 0x80 0xB7 cs" "\<not> (cs = 1 \<and> b ! ts < 128)" by simp_all
    have "c ! 0 = b ! ts" if "cs = 1" using *(3) that ok by simp
    with h len have "enc_string c = puthead 0x80 0xB7 cs @ c"
      by (auto simp: enc_string_def word_less_nat_alt word_le_nat_alt)
    with split h(1) show ?thesis by simp
  qed (use *(2) in simp)
next
  assume b: "b = enc_string c @ rest"
  show "SplitString b = Ok (c, rest)"
  proof (rule enc_string_cases [of c])
    fix x assume "c = [x]" "x < 0x80" "enc_string c = [x]"
    with b show ?thesis
      by (simp add: SplitString_def Split_def raw_readKind_def raw_fits_def)
  next
    assume h: "\<not> (length c = 1 \<and> c ! 0 < 0x80)" "enc_string c = puthead 0x80 0xB7 (length c) @ c"
    have "raw_readKind (puthead 0x80 0xB7 (length c) @ c @ rest) =
        Ok (String, length (puthead 0x80 0xB7 (length c)), length c)"
      using h assms b by (intro raw_readKind_head) (auto simp: nth_append)
    with b h(2) show ?thesis by (simp add: SplitString_def Split_def)
  qed
qed

lemma SplitList_iff:
  assumes "length b < 2 ^ 64"
  shows "SplitList b = Ok (c, rest) \<longleftrightarrow> b = enc_list c @ rest"
proof
  assume "SplitList b = Ok (c, rest)"
  then have "\<exists>ts cs. raw_readKind b = Ok (List, ts, cs) \<and>
      c = take cs (drop ts b) \<and> rest = drop (ts + cs) b"
    by (auto simp: SplitList_def Split_def split: outcome.splits if_splits)
  then obtain ts cs where *: "raw_readKind b = Ok (List, ts, cs)"
    "c = take cs (drop ts b)" "rest = drop (ts + cs) b" by blast
  note ok = raw_readKind_Ok [OF *(1)]
  have "b = take ts b @ c @ rest" using *(2,3)
    by (metis append_take_drop_id drop_drop add.commute)
  moreover have "length c = cs" using ok by (auto simp: *(2))
  ultimately show "b = enc_list c @ rest" using ok by (simp add: enc_list_def)
next
  assume b: "b = enc_list c @ rest"
  then have "raw_readKind (puthead 0xC0 0xF7 (length c) @ c @ rest) =
      Ok (List, length (puthead 0xC0 0xF7 (length c)), length c)"
    using assms by (intro raw_readKind_head) (auto simp: enc_list_def)
  with b show "SplitList b = Ok (c, rest)"
    by (simp add: SplitList_def Split_def enc_list_def)
qed

lemma raw_readKind_Panic_iff: "raw_readKind b = Panic \<longleftrightarrow> b = [0x81]"
proof
  assume p: "raw_readKind b = Panic"
  have nf: "raw_fits buf k ts r \<noteq> Panic" for buf k ts r
    by (simp add: raw_fits_def split: sum.split)
  from p have *: "b \<noteq> []" "\<not> b ! 0 < 0x80" "b ! 0 < 0xB8" "unat (b ! 0 - 0x80) = 1" "length b \<le> 1"
    by (auto simp: raw_readKind_def Let_def nf split: if_splits)
  from tag_small(1) [OF *(2,3)] *(4) have "b ! 0 = 0x81" by simp
  with *(1,5) show "b = [0x81]" by (cases b) auto
qed (simp add: raw_readKind_def)

text \<open>A sequence of encoded values.\<close>

definition is_value :: "bytes \<Rightarrow> bool" where
  "is_value e \<longleftrightarrow> (\<exists>c. e = enc_string c \<or> e = enc_list c)"

lemma raw_readKind_value:
  assumes "is_value e" "length e < 2 ^ 64"
  shows "\<exists>k ts cs. raw_readKind (e @ rest) = Ok (k, ts, cs) \<and> ts + cs = length e"
proof -
  obtain c where "e = enc_string c \<or> e = enc_list c" using assms(1) by (auto simp: is_value_def)
  then show ?thesis
  proof
    assume e: "e = enc_string c"
    show ?thesis
    proof (rule enc_string_cases [of c])
      fix x assume "c = [x]" "x < 0x80" "enc_string c = [x]"
      with e show ?thesis by (simp add: raw_readKind_def raw_fits_def)
    next
      assume h: "\<not> (length c = 1 \<and> c ! 0 < 0x80)" "enc_string c = puthead 0x80 0xB7 (length c) @ c"
      have "raw_readKind (puthead 0x80 0xB7 (length c) @ c @ rest) =
          Ok (String, length (puthead 0x80 0xB7 (length c)), length c)"
        using h assms e by (intro raw_readKind_head) (auto simp: nth_append)
      with h e show ?thesis by simp
    qed
  next
    assume e: "e = enc_list c"
    have "raw_readKind (puthead 0xC0 0xF7 (length c) @ c @ rest) =
        Ok (List, length (puthead 0xC0 0xF7 (length c)), length c)"
      using assms e by (intro raw_readKind_head) (auto simp: enc_list_def)
    with e show ?thesis by (simp add: enc_list_def)
  qed
qed

lemma CountValues_from_concat:
  "list_all (\<lambda>e. is_value e \<and> length e < 2 ^ 64) es \<Longrightarrow> CountValues_from i (concat es) = Ok (i + length es)"
proof (induction es arbitrary: i)
  case Nil
  show ?case by (simp add: CountValues_from.simps)
next
  case (Cons e es)
  then have e: "is_value e" "length e < 2 ^ 64" by simp_all
  obtain k ts cs where rk: "raw_readKind (e @ concat es) = Ok (k, ts, cs)" "ts + cs = length e"
    using raw_readKind_value [OF e] by blast
  have "e \<noteq> []" using e(1) enc_string_nonempty enc_list_nonempty by (metis is_value_def)
  with rk Cons show ?case by (simp add: CountValues_from.simps [of i])
qed

section \<open>Properties\<close>

text \<open>The slice-based reader and the stream agree on byte strings: \<^verbatim>\<open>SplitString\<close>
  returns a content and a rest exactly when \<^verbatim>\<open>Stream.Bytes\<close> reads that content and leaves
  that rest, on every input that fits the address space.\<close>

theorem SplitString_eq_stream_Bytes:
  assumes "length b < 2 ^ 64"
  shows "SplitString b = Ok (c, rest) \<longleftrightarrow>
    (\<exists>s. Bytes (NewStream b (length b)) = (Inr c, s) \<and> s_r s = rest)"
proof -
  have "(\<exists>s. Bytes (NewStream b (length b)) = (Inr c, s) \<and> s_r s = rest) \<longleftrightarrow> b = enc_string c @ rest"
  proof
    assume "\<exists>s. Bytes (NewStream b (length b)) = (Inr c, s) \<and> s_r s = rest"
    then show "b = enc_string c @ rest"
      using canonicalD [OF canonical_Bytes] by (fastforce simp: NewStream_def took_def)
  next
    assume b: "b = enc_string c @ rest"
    then have "length c < 2 ^ 64" using assms by (auto simp: enc_string_def split: if_splits)
    note r = reads_Bytes [OF this]
    have "room (length (enc_string c)) (NewStream b (length b))" "s_kind (NewStream b (length b)) = None"
      "s_r (NewStream b (length b)) = enc_string c @ rest"
      using b by (simp_all add: room_def NewStream_def)
    with r [unfolded reads_def] obtain s where "Bytes (NewStream b (length b)) = (Inr c, s)"
      "advanced (length (enc_string c)) (NewStream b (length b)) s" by blast
    with b show "\<exists>s. Bytes (NewStream b (length b)) = (Inr c, s) \<and> s_r s = rest"
      by (auto simp: advanced_def NewStream_def)
  qed
  then show ?thesis using SplitString_iff [OF assms] by simp
qed

theorem SplitString_eq_stream_Bytes_witness:
  "SplitString [0x82, 7, 8, 9] = Ok ([7, 8], [9]) \<longleftrightarrow>
    (\<exists>s. Bytes (NewStream [0x82, 7, 8, 9] (length [0x82, 7, 8, 9 :: byte])) = (Inr [7, 8], s) \<and> s_r s = [9])"
  using SplitString_eq_stream_Bytes [of "[0x82, 7, 8, 9]" "[7, 8]" "[9]"] by simp

text \<open>C40. On a concatenation of encoded values \<^verbatim>\<open>CountValues\<close> returns how many there are, and the
  reader panics on exactly one input: the single byte \<^verbatim>\<open>0x81\<close>, whose content byte it reads
  before it has checked that there is one.\<close>

theorem CountValues_counts_and_panic:
  assumes "list_all (\<lambda>e. is_value e \<and> length e < 2 ^ 64) es"
  shows "CountValues (concat es) = Ok (length es) \<and> (raw_readKind b = Panic \<longleftrightarrow> b = [0x81])"
  using CountValues_from_concat [OF assms] raw_readKind_Panic_iff by (simp add: CountValues_def)

theorem CountValues_counts_and_panic_witness:
  "CountValues (concat [[0x81, 0x80], [0xC2, 5, 6]]) = Ok 2 \<and> (raw_readKind [0x81] = Panic)"
proof -
  have "enc_string [0x80] = [0x81, 0x80]" "enc_list [5, 6] = [0xC2, 5, 6]" by code_simp+
  then have "is_value [0x81, 0x80]" "is_value [0xC2, 5, 6]" unfolding is_value_def by metis+
  then show ?thesis
    using CountValues_counts_and_panic [of "[[0x81, 0x80], [0xC2, 5, 6]]" "[0x81]"] by simp
qed

end
