(* ===== verification/Chain_Types.thy ===== *)
theory Chain_Types
  imports RLP_Raw
begin

text \<open>
  Headers, transactions and blocks (\<^verbatim>\<open>src/core/types/block.go\<close>,
  \<^verbatim>\<open>src/core/types/transaction.go\<close>) and the extra-data of Istanbul headers
  (\<^verbatim>\<open>src/core/types/istanbul.go\<close>), with the RLP codec of each type.

  The \<^verbatim>\<open>*big.Int\<close> fields are integers: a nil pointer encodes like zero, \<^verbatim>\<open>CopyHeader\<close>
  replaces it by zero and no decoder produces one. Copying a header is the identity on values. The
  caches of hash and size in \<^verbatim>\<open>Block\<close> and \<^verbatim>\<open>Transaction\<close> hold what the functions
  below compute and are left out. Keccak-256 is the parameter \<open>kec\<close>.
\<close>

section \<open>Headers\<close>

record header =
  h_ParentHash :: hash
  h_UncleHash :: hash
  h_Coinbase :: address
  h_Root :: hash
  h_TxHash :: hash
  h_ReceiptHash :: hash
  h_Bloom :: bytes
  h_Difficulty :: int
  h_Number :: int
  h_GasLimit :: int
  h_GasUsed :: int
  h_Time :: int
  h_Extra :: bytes
  h_MixDigest :: hash
  h_Nonce :: bytes

text \<open>The value the struct writer sees, field by field in the order of the type.\<close>

definition header_rval :: "header \<Rightarrow> rval" where
  "header_rval h = RStruct
     [RBytes (hash_bytes (h_ParentHash h)), RBytes (hash_bytes (h_UncleHash h)),
      RBytes (addr_bytes (h_Coinbase h)), RBytes (hash_bytes (h_Root h)),
      RBytes (hash_bytes (h_TxHash h)), RBytes (hash_bytes (h_ReceiptHash h)), RBytes (h_Bloom h),
      RBigPtr (Some (h_Difficulty h)), RBigPtr (Some (h_Number h)), RBigPtr (Some (h_GasLimit h)),
      RBigPtr (Some (h_GasUsed h)), RBigPtr (Some (h_Time h)), RBytes (h_Extra h),
      RBytes (hash_bytes (h_MixDigest h)), RBytes (h_Nonce h)]"

definition decodeHash :: "hash decoder" where
  "decodeHash = dbind (decodeByteArray 32) (\<lambda>b. dret (hash_of_bytes b))"

definition decodeAddress :: "address decoder" where
  "decodeAddress = dbind (decodeByteArray 20) (\<lambda>b. dret (addr_of_bytes b))"

definition decodeHeader :: "header decoder" where
  "decodeHeader = structDecoder
     (dbind (struct_field decodeHash) (\<lambda>parent.
      dbind (struct_field decodeHash) (\<lambda>uncle.
      dbind (struct_field decodeAddress) (\<lambda>coinbase.
      dbind (struct_field decodeHash) (\<lambda>root.
      dbind (struct_field decodeHash) (\<lambda>tx.
      dbind (struct_field decodeHash) (\<lambda>receipt.
      dbind (struct_field (decodeByteArray 256)) (\<lambda>bloom.
      dbind (struct_field decodeBigInt) (\<lambda>difficulty.
      dbind (struct_field decodeBigInt) (\<lambda>number.
      dbind (struct_field decodeBigInt) (\<lambda>gasLimit.
      dbind (struct_field decodeBigInt) (\<lambda>gasUsed.
      dbind (struct_field decodeBigInt) (\<lambda>time.
      dbind (struct_field decodeByteSlice) (\<lambda>extra.
      dbind (struct_field decodeHash) (\<lambda>mix.
      dbind (struct_field (decodeByteArray 8)) (\<lambda>nonce.
      dret \<lparr>h_ParentHash = parent, h_UncleHash = uncle, h_Coinbase = coinbase, h_Root = root,
            h_TxHash = tx, h_ReceiptHash = receipt, h_Bloom = bloom, h_Difficulty = difficulty,
            h_Number = number, h_GasLimit = gasLimit, h_GasUsed = gasUsed, h_Time = time,
            h_Extra = extra, h_MixDigest = mix, h_Nonce = nonce\<rparr>))))))))))))))))"

definition EncodeNonce :: "nat \<Rightarrow> bytes" where
  "EncodeNonce i = be_bytes 8 i"

definition nonce_Uint64 :: "bytes \<Rightarrow> nat" where
  "nonce_Uint64 n = be_nat n"

text \<open>The encoder's error is ignored: when the value cannot be encoded, nothing is hashed.\<close>

definition rlpHash :: "(bytes \<Rightarrow> hash) \<Rightarrow> rval \<Rightarrow> hash" where
  "rlpHash kec x = kec (case EncodeToBytes x of Inr b \<Rightarrow> b | Inl e \<Rightarrow> [])"

section \<open>The extra-data of Istanbul headers\<close>

record istanbul_extra =
  ie_Validators :: "address list"
  ie_Seal :: bytes
  ie_CommittedSeal :: "bytes list"

definition IstanbulDigest :: hash where
  "IstanbulDigest = 0x63746963616c2062797a616e74696e65206661756c7420746f6c6572616e6365"

definition IstanbulExtraVanity :: nat where
  "IstanbulExtraVanity = 32"

definition IstanbulExtraSeal :: nat where
  "IstanbulExtraSeal = 65"

definition extra_rval :: "istanbul_extra \<Rightarrow> rval" where
  "extra_rval ist = RSlice
     [RSlice (map (\<lambda>a. RBytes (addr_bytes a)) (ie_Validators ist)), RBytes (ie_Seal ist),
      RSlice (map RBytes (ie_CommittedSeal ist))]"

definition decodeIstanbulExtra :: "istanbul_extra decoder" where
  "decodeIstanbulExtra = structDecoder
     (dbind (struct_field (decodeListSlice decodeAddress)) (\<lambda>vals.
      dbind (struct_field decodeByteSlice) (\<lambda>seal.
      dbind (struct_field (decodeListSlice decodeByteSlice)) (\<lambda>committed.
      dret \<lparr>ie_Validators = vals, ie_Seal = seal, ie_CommittedSeal = committed\<rparr>))))"

datatype extra_error = ErrInvalidIstanbulHeaderExtra | ExtraRlp rlp_error

definition ExtractIstanbulExtra :: "header \<Rightarrow> extra_error + istanbul_extra" where
  "ExtractIstanbulExtra h =
     (if length (h_Extra h) < IstanbulExtraVanity then Inl ErrInvalidIstanbulHeaderExtra
      else
        (case DecodeBytes (drop IstanbulExtraVanity (h_Extra h)) decodeIstanbulExtra of
           Inl e \<Rightarrow> Inl (ExtraRlp e)
         | Inr x \<Rightarrow> Inr x))"

definition IstanbulFilteredHeader :: "header \<Rightarrow> bool \<Rightarrow> header option" where
  "IstanbulFilteredHeader h keepSeal =
     (case ExtractIstanbulExtra h of
        Inl _ \<Rightarrow> None
      | Inr x \<Rightarrow>
          let x1 = (if keepSeal then x else x\<lparr>ie_Seal := []\<rparr>);
              x2 = x1\<lparr>ie_CommittedSeal := []\<rparr>
          in case EncodeToBytes (extra_rval x2) of
               Inl _ \<Rightarrow> None
             | Inr payload \<Rightarrow>
                 Some (h\<lparr>h_Extra := take IstanbulExtraVanity (h_Extra h) @ payload\<rparr>))"

definition header_Hash :: "(bytes \<Rightarrow> hash) \<Rightarrow> header \<Rightarrow> hash" where
  "header_Hash kec h =
     (if h_MixDigest h = IstanbulDigest then
        (case IstanbulFilteredHeader h True of
           Some h' \<Rightarrow> rlpHash kec (header_rval h')
         | None \<Rightarrow> rlpHash kec (header_rval h))
      else rlpHash kec (header_rval h))"

definition header_HashNoNonce :: "(bytes \<Rightarrow> hash) \<Rightarrow> header \<Rightarrow> hash" where
  "header_HashNoNonce kec h = rlpHash kec (RSlice
     [RBytes (hash_bytes (h_ParentHash h)), RBytes (hash_bytes (h_UncleHash h)),
      RBytes (addr_bytes (h_Coinbase h)), RBytes (hash_bytes (h_Root h)),
      RBytes (hash_bytes (h_TxHash h)), RBytes (hash_bytes (h_ReceiptHash h)), RBytes (h_Bloom h),
      RBigPtr (Some (h_Difficulty h)), RBigPtr (Some (h_Number h)), RBigPtr (Some (h_GasLimit h)),
      RBigPtr (Some (h_GasUsed h)), RBigPtr (Some (h_Time h)), RBytes (h_Extra h)])"

definition CalcUncleHash :: "(bytes \<Rightarrow> hash) \<Rightarrow> header list \<Rightarrow> hash" where
  "CalcUncleHash kec uncles = rlpHash kec (RSlice (map header_rval uncles))"

section \<open>Transactions and blocks\<close>

record txdata =
  td_AccountNonce :: nat
  td_Price :: int
  td_GasLimit :: int
  td_Recipient :: "address option"
  td_Amount :: int
  td_Payload :: bytes
  td_V :: int
  td_R :: int
  td_S :: int

definition recipient_rval :: "address option \<Rightarrow> rval" where
  "recipient_rval to = (case to of None \<Rightarrow> RNilArray | Some a \<Rightarrow> RBytes (addr_bytes a))"

definition tx_rval :: "txdata \<Rightarrow> rval" where
  "tx_rval d = RStruct
     [RUint (td_AccountNonce d), RBigPtr (Some (td_Price d)), RBigPtr (Some (td_GasLimit d)),
      recipient_rval (td_Recipient d), RBigPtr (Some (td_Amount d)), RBytes (td_Payload d),
      RBigPtr (Some (td_V d)), RBigPtr (Some (td_R d)), RBigPtr (Some (td_S d))]"

definition decodeTxdata :: "txdata decoder" where
  "decodeTxdata = structDecoder
     (dbind (struct_field (decodeUint 64)) (\<lambda>nonce.
      dbind (struct_field decodeBigInt) (\<lambda>price.
      dbind (struct_field decodeBigInt) (\<lambda>gas.
      dbind (struct_field (optionalPtrDecoder decodeAddress)) (\<lambda>to.
      dbind (struct_field decodeBigInt) (\<lambda>amount.
      dbind (struct_field decodeByteSlice) (\<lambda>payload.
      dbind (struct_field decodeBigInt) (\<lambda>v.
      dbind (struct_field decodeBigInt) (\<lambda>r.
      dbind (struct_field decodeBigInt) (\<lambda>s'.
      dret \<lparr>td_AccountNonce = nonce, td_Price = price, td_GasLimit = gas, td_Recipient = to,
            td_Amount = amount, td_Payload = payload, td_V = v, td_R = r, td_S = s'\<rparr>))))))))))"

text \<open>\<^verbatim>\<open>Transaction.DecodeRLP\<close> and \<^verbatim>\<open>Block.DecodeRLP\<close> ask for the kind first, for the size
  they cache, and ignore an error there.\<close>

definition decodeTransaction :: "txdata decoder" where
  "decodeTransaction s = decodeTxdata (snd (Kind s))"

definition tx_Hash :: "(bytes \<Rightarrow> hash) \<Rightarrow> txdata \<Rightarrow> hash" where
  "tx_Hash kec tx = rlpHash kec (tx_rval tx)"

definition tx_Cost :: "txdata \<Rightarrow> int" where
  "tx_Cost tx = td_Price tx * td_GasLimit tx + td_Amount tx"

fun TxDifference :: "(bytes \<Rightarrow> hash) \<Rightarrow> txdata list \<Rightarrow> txdata list \<Rightarrow> txdata list" where
  "TxDifference kec a b =
     (let remove = set (map (tx_Hash kec) b) in filter (\<lambda>tx. tx_Hash kec tx \<notin> remove) a)"

record block =
  b_header :: header
  b_uncles :: "header list"
  b_transactions :: "txdata list"

definition block_rval :: "block \<Rightarrow> rval" where
  "block_rval b = RStruct
     [header_rval (b_header b), RSlice (map tx_rval (b_transactions b)),
      RSlice (map header_rval (b_uncles b))]"

definition decodeExtblock :: "block decoder" where
  "decodeExtblock = structDecoder
     (dbind (struct_field decodeHeader) (\<lambda>hdr.
      dbind (struct_field (decodeListSlice decodeTransaction)) (\<lambda>txs.
      dbind (struct_field (decodeListSlice decodeHeader)) (\<lambda>uncles.
      dret \<lparr>b_header = hdr, b_uncles = uncles, b_transactions = txs\<rparr>))))"

definition decodeBlock :: "block decoder" where
  "decodeBlock s = decodeExtblock (snd (Kind s))"

definition block_Hash :: "(bytes \<Rightarrow> hash) \<Rightarrow> block \<Rightarrow> hash" where
  "block_Hash kec b = header_Hash kec (b_header b)"

definition WithSeal :: "block \<Rightarrow> header \<Rightarrow> block" where
  "WithSeal b sealed = b\<lparr>b_header := sealed\<rparr>"

text \<open>\<^verbatim>\<open>NewBlock\<close> overwrites the hashes of the given header by those of the content. The trie hash
  \<^verbatim>\<open>DeriveSha\<close> and the bloom filter are parameters; receipts enter only through them.\<close>

definition NewBlock ::
  "(bytes \<Rightarrow> hash) \<Rightarrow> (txdata list \<Rightarrow> hash) \<Rightarrow> ('r list \<Rightarrow> hash) \<Rightarrow> ('r list \<Rightarrow> bytes) \<Rightarrow>
   header \<Rightarrow> txdata list \<Rightarrow> header list \<Rightarrow> 'r list \<Rightarrow> block" where
  "NewBlock kec deriveTx deriveRc createBloom hdr txs uncles receipts =
     (let emptyRootHash = deriveTx [];
          emptyUncleHash = CalcUncleHash kec [];
          h1 = hdr\<lparr>h_TxHash := (if txs = [] then emptyRootHash else deriveTx txs)\<rparr>;
          h2 = (if receipts = [] then h1\<lparr>h_ReceiptHash := emptyRootHash\<rparr>
                else h1\<lparr>h_ReceiptHash := deriveRc receipts, h_Bloom := createBloom receipts\<rparr>);
          h3 = h2\<lparr>h_UncleHash := (if uncles = [] then emptyUncleHash else CalcUncleHash kec uncles)\<rparr>
      in \<lparr>b_header = h3, b_uncles = uncles, b_transactions = txs\<rparr>)"

section \<open>Codecs of hashes, addresses and bounded values\<close>

lemma length_enc_string_ge: "length b \<le> length (enc_string b)"
  by (simp add: enc_string_def)

lemma length_enc_nat_ge: "length (min_be n) \<le> length (enc_nat n)"
  by (simp add: enc_nat_def length_enc_string_ge)

lemma reads_Hash: "reads decodeHash (enc_string (hash_bytes h)) h"
  using reads_map [OF reads_ByteArray [of "hash_bytes h" 32], of hash_of_bytes]
  by (simp add: decodeHash_def)

lemma reads_Address: "reads decodeAddress (enc_string (addr_bytes a)) a"
  using reads_map [OF reads_ByteArray [of "addr_bytes a" 20], of addr_of_bytes]
  by (simp add: decodeAddress_def)

lemma reads_Big: "0 \<le> i \<Longrightarrow> length (enc_nat (nat i)) < 2 ^ 64 \<Longrightarrow> reads decodeBigInt (enc_nat (nat i)) i"
  using reads_BigInt [of "nat i"] length_enc_nat_ge [of "nat i"] by simp

lemma reads_Str: "length (enc_string b) < 2 ^ 64 \<Longrightarrow> reads decodeByteSlice (enc_string b) b"
  using length_enc_string_ge [of b] by (intro reads_ByteSlice) simp

lemma be_bytes_inverse_hash: "length b = 32 \<Longrightarrow> hash_bytes (hash_of_bytes b) = b"
  using be_nat_less [of b] be_bytes_be_nat [of b]
  by (simp add: hash_bytes_def hash_of_bytes_def unsigned_of_nat take_bit_nat_eq_self)

lemma be_bytes_inverse_addr: "length b = 20 \<Longrightarrow> addr_bytes (addr_of_bytes b) = b"
  using be_nat_less [of b] be_bytes_be_nat [of b]
  by (simp add: addr_bytes_def addr_of_bytes_def unsigned_of_nat take_bit_nat_eq_self)

lemma canonical_Hash: "canonical decodeHash (\<lambda>h. enc_string (hash_bytes h))"
  unfolding canonical_def decodeHash_def dbind_Inr dret_Inr
  using canonicalD [OF canonical_ByteArray [of 32]] ByteArray_length be_bytes_inverse_hash by fastforce

lemma canonical_Address: "canonical decodeAddress (\<lambda>a. enc_string (addr_bytes a))"
  unfolding canonical_def decodeAddress_def dbind_Inr dret_Inr
  using canonicalD [OF canonical_ByteArray [of 20]] ByteArray_length be_bytes_inverse_addr by fastforce

section \<open>Header codec\<close>

definition header_ok :: "header \<Rightarrow> bool" where
  "header_ok h \<longleftrightarrow> length (h_Bloom h) = 256 \<and> length (h_Nonce h) = 8 \<and> 0 \<le> h_Difficulty h \<and>
     0 \<le> h_Number h \<and> 0 \<le> h_GasLimit h \<and> 0 \<le> h_GasUsed h \<and> 0 \<le> h_Time h \<and>
     length (enc_spec (header_rval h)) < 2 ^ 64"

lemma enc_header:
  "enc_spec (header_rval h) = enc_list
     (enc_string (hash_bytes (h_ParentHash h)) @ enc_string (hash_bytes (h_UncleHash h)) @
      enc_string (addr_bytes (h_Coinbase h)) @ enc_string (hash_bytes (h_Root h)) @
      enc_string (hash_bytes (h_TxHash h)) @ enc_string (hash_bytes (h_ReceiptHash h)) @
      enc_string (h_Bloom h) @ enc_nat (nat (h_Difficulty h)) @ enc_nat (nat (h_Number h)) @
      enc_nat (nat (h_GasLimit h)) @ enc_nat (nat (h_GasUsed h)) @ enc_nat (nat (h_Time h)) @
      enc_string (h_Extra h) @ enc_string (hash_bytes (h_MixDigest h)) @ enc_string (h_Nonce h) @ [])"
  by (simp add: header_rval_def)

lemma reads_ret_eq: "v = w \<Longrightarrow> reads (dret v) [] w"
  by (simp add: reads_ret)

lemma reads_Header:
  assumes "header_ok h"
  shows "reads decodeHeader (enc_spec (header_rval h)) h"
proof -
  have total: "length (enc_spec (header_rval h)) < 2 ^ 64" using assms by (simp add: header_ok_def)
  have bigs: "reads decodeBigInt (enc_nat (nat (h_Difficulty h))) (h_Difficulty h)"
    "reads decodeBigInt (enc_nat (nat (h_Number h))) (h_Number h)"
    "reads decodeBigInt (enc_nat (nat (h_GasLimit h))) (h_GasLimit h)"
    "reads decodeBigInt (enc_nat (nat (h_GasUsed h))) (h_GasUsed h)"
    "reads decodeBigInt (enc_nat (nat (h_Time h))) (h_Time h)"
    using assms total unfolding enc_header by (auto simp: header_ok_def enc_list_def intro: reads_Big)
  have extra: "reads decodeByteSlice (enc_string (h_Extra h)) (h_Extra h)"
    using total unfolding enc_header by (auto simp: enc_list_def intro: reads_Str)
  have arr: "reads (decodeByteArray 256) (enc_string (h_Bloom h)) (h_Bloom h)"
    "reads (decodeByteArray 8) (enc_string (h_Nonce h)) (h_Nonce h)"
    using assms by (auto simp: header_ok_def intro: reads_ByteArray)
  show ?thesis unfolding decodeHeader_def enc_header
    apply (rule reads_struct)
     apply (rule reads_bind, rule reads_field, rule reads_Hash reads_Address bigs extra arr)+
     apply (rule reads_ret_eq, cases h, simp)
    using total unfolding enc_header by (simp add: enc_list_def)
qed

lemma canonical_bind':
  assumes "canonical d enc1" "\<And>x. canonical (f x) enc2"
    and "\<And>x s v s'. f x s = (Inr v, s') \<Longrightarrow> proj v = x"
  shows "canonical (dbind d f) (\<lambda>v. enc1 (proj v) @ enc2 v)"
  using canonical_bind [of d enc1 f "\<lambda>_. enc2" proj] assms by blast

lemma canonical_Header: "canonical decodeHeader (\<lambda>h. enc_spec (header_rval h))"
  unfolding decodeHeader_def enc_header
  apply (rule canonical_struct)
  apply (rule canonical_bind' [where proj = h_ParentHash, OF canonical_field [OF canonical_Hash]])
  apply (rule canonical_bind' [where proj = h_UncleHash, OF canonical_field [OF canonical_Hash]])
  apply (rule canonical_bind' [where proj = h_Coinbase, OF canonical_field [OF canonical_Address]])
  apply (rule canonical_bind' [where proj = h_Root, OF canonical_field [OF canonical_Hash]])
  apply (rule canonical_bind' [where proj = h_TxHash, OF canonical_field [OF canonical_Hash]])
  apply (rule canonical_bind' [where proj = h_ReceiptHash, OF canonical_field [OF canonical_Hash]])
  apply (rule canonical_bind' [where proj = h_Bloom, OF canonical_field [OF canonical_ByteArray]], simp)
  apply (rule canonical_bind' [where proj = h_Difficulty, OF canonical_field [OF canonical_BigInt]])
  apply (rule canonical_bind' [where proj = h_Number, OF canonical_field [OF canonical_BigInt]])
  apply (rule canonical_bind' [where proj = h_GasLimit, OF canonical_field [OF canonical_BigInt]])
  apply (rule canonical_bind' [where proj = h_GasUsed, OF canonical_field [OF canonical_BigInt]])
  apply (rule canonical_bind' [where proj = h_Time, OF canonical_field [OF canonical_BigInt]])
  apply (rule canonical_bind' [where proj = h_Extra, OF canonical_field [OF canonical_ByteSlice]])
  apply (rule canonical_bind' [where proj = h_MixDigest, OF canonical_field [OF canonical_Hash]])
  apply (rule canonical_bind' [where proj = h_Nonce, OF canonical_field [OF canonical_ByteArray]], simp)
  apply (rule canonical_ret)
  apply (fastforce simp: dbind_Inr)+
  done

interpretation header_codec: strict_codec decodeHeader "\<lambda>h. enc_spec (header_rval h)" header_ok
  by unfold_locales (rule reads_Header canonical_Header; assumption?)+

lemma encodable_header: "header_ok h \<Longrightarrow> encodable (header_rval h)"
  by (simp add: header_ok_def header_rval_def)

lemma Encode_header: "header_ok h \<Longrightarrow> EncodeToBytes (header_rval h) = Inr (enc_spec (header_rval h))"
  using EncodeToBytes_enc_spec encodable_header by (simp add: header_ok_def)

section \<open>Istanbul extra-data codec\<close>

definition extra_ok :: "istanbul_extra \<Rightarrow> bool" where
  "extra_ok x \<longleftrightarrow> length (enc_spec (extra_rval x)) < 2 ^ 64"

lemma enc_extra:
  "enc_spec (extra_rval x) = enc_list
     (enc_list (concat (map (\<lambda>a. enc_string (addr_bytes a)) (ie_Validators x))) @
      enc_string (ie_Seal x) @ enc_list (concat (map enc_string (ie_CommittedSeal x))) @ [])"
  by (simp add: extra_rval_def comp_def)

lemma stops_Address: "stops decodeAddress"
  unfolding decodeAddress_def by (rule stops_bind [OF stops_basic(4)])

lemma eol_clean_Address: "eol_clean decodeAddress"
  unfolding decodeAddress_def by (rule eol_clean_map [OF eol_clean_ByteArray])

lemma reads_Extra:
  assumes "extra_ok x"
  shows "reads decodeIstanbulExtra (enc_spec (extra_rval x)) x"
proof -
  have total: "length (enc_spec (extra_rval x)) < 2 ^ 64" using assms by (simp add: extra_ok_def)
  have vals: "reads (decodeListSlice decodeAddress)
      (enc_list (concat (map (\<lambda>a. enc_string (addr_bytes a)) (ie_Validators x)))) (ie_Validators x)"
    using total unfolding enc_extra
    by (intro reads_slice stops_Address) (auto simp: list_all2_conv_all_nth reads_Address enc_list_def)
  have seal: "reads decodeByteSlice (enc_string (ie_Seal x)) (ie_Seal x)"
    using total unfolding enc_extra by (auto simp: enc_list_def intro: reads_Str)
  have com: "reads (decodeListSlice decodeByteSlice)
      (enc_list (concat (map enc_string (ie_CommittedSeal x)))) (ie_CommittedSeal x)"
    using total unfolding enc_extra by (intro reads_byte_slices) (simp add: enc_list_def)
  show ?thesis unfolding decodeIstanbulExtra_def enc_extra
    apply (rule reads_struct)
     apply (rule reads_bind, rule reads_field, rule vals seal com)+
     apply (rule reads_ret_eq, cases x, simp)
    using total unfolding enc_extra by (simp add: enc_list_def)
qed

lemma canonical_Extra: "canonical decodeIstanbulExtra (\<lambda>x. enc_spec (extra_rval x))"
  unfolding decodeIstanbulExtra_def enc_extra
  apply (rule canonical_struct)
  apply (rule canonical_bind' [where proj = ie_Validators,
        OF canonical_field [OF canonical_slice [OF canonical_Address eol_clean_Address]]])
   apply (rule canonical_bind' [where proj = ie_Seal, OF canonical_field [OF canonical_ByteSlice]])
    apply (rule canonical_bind' [where proj = ie_CommittedSeal,
        OF canonical_field [OF canonical_slice [OF canonical_ByteSlice eol_clean_ByteSlice]]])
     apply (rule canonical_ret)
    apply (fastforce simp: dbind_Inr)+
  done

interpretation extra_codec: strict_codec decodeIstanbulExtra "\<lambda>x. enc_spec (extra_rval x)" extra_ok
  by unfold_locales (rule reads_Extra canonical_Extra; assumption?)+

lemma encodable_extra: "encodable (extra_rval x)"
  by (simp add: extra_rval_def list_all_iff)

lemma Encode_extra: "extra_ok x \<Longrightarrow> EncodeToBytes (extra_rval x) = Inr (enc_spec (extra_rval x))"
  using EncodeToBytes_enc_spec encodable_extra by (simp add: extra_ok_def)

section \<open>Transaction and block codecs\<close>

definition tx_ok :: "txdata \<Rightarrow> bool" where
  "tx_ok d \<longleftrightarrow> td_AccountNonce d < 2 ^ 64 \<and> 0 \<le> td_Price d \<and> 0 \<le> td_GasLimit d \<and> 0 \<le> td_Amount d \<and>
     0 \<le> td_V d \<and> 0 \<le> td_R d \<and> 0 \<le> td_S d \<and> length (enc_spec (tx_rval d)) < 2 ^ 64"

definition block_ok :: "block \<Rightarrow> bool" where
  "block_ok b \<longleftrightarrow> header_ok (b_header b) \<and> list_all tx_ok (b_transactions b) \<and>
     list_all header_ok (b_uncles b) \<and> length (enc_spec (block_rval b)) < 2 ^ 64"

lemma enc_tx:
  "enc_spec (tx_rval d) = enc_list
     (enc_nat (td_AccountNonce d) @ enc_nat (nat (td_Price d)) @ enc_nat (nat (td_GasLimit d)) @
      enc_spec (recipient_rval (td_Recipient d)) @ enc_nat (nat (td_Amount d)) @
      enc_string (td_Payload d) @ enc_nat (nat (td_V d)) @ enc_nat (nat (td_R d)) @
      enc_nat (nat (td_S d)) @ [])"
  by (simp add: tx_rval_def)

lemma kind_first_Address: "kind_first decodeAddress"
  unfolding decodeAddress_def by (rule kind_first_bind [OF kind_first_basic(2)])

lemma reads_recipient: "reads (optionalPtrDecoder decodeAddress) (enc_spec (recipient_rval r)) r"
proof (cases r)
  case None
  then show ?thesis by (simp add: recipient_rval_def reads_optional_None)
next
  case (Some a)
  then show ?thesis
    using reads_optional_Some [OF reads_Address [of a] kind_first_Address] by (simp add: recipient_rval_def)
qed

lemma reads_Txdata:
  assumes "tx_ok d"
  shows "reads decodeTxdata (enc_spec (tx_rval d)) d"
proof -
  have total: "length (enc_spec (tx_rval d)) < 2 ^ 64" using assms by (simp add: tx_ok_def)
  have bigs: "reads decodeBigInt (enc_nat (nat (td_Price d))) (td_Price d)"
    "reads decodeBigInt (enc_nat (nat (td_GasLimit d))) (td_GasLimit d)"
    "reads decodeBigInt (enc_nat (nat (td_Amount d))) (td_Amount d)"
    "reads decodeBigInt (enc_nat (nat (td_V d))) (td_V d)"
    "reads decodeBigInt (enc_nat (nat (td_R d))) (td_R d)"
    "reads decodeBigInt (enc_nat (nat (td_S d))) (td_S d)"
    using assms total unfolding enc_tx by (auto simp: tx_ok_def enc_list_def intro: reads_Big)
  have payload: "reads decodeByteSlice (enc_string (td_Payload d)) (td_Payload d)"
    using total unfolding enc_tx by (auto simp: enc_list_def intro: reads_Str)
  have nonce: "reads (decodeUint 64) (enc_nat (td_AccountNonce d)) (td_AccountNonce d)"
    using assms by (simp add: tx_ok_def reads_Uint)
  show ?thesis unfolding decodeTxdata_def enc_tx
    apply (rule reads_struct)
     apply (rule reads_bind, rule reads_field, rule nonce bigs reads_recipient payload)+
     apply (rule reads_ret_eq, cases d, simp)
    using total unfolding enc_tx by (simp add: enc_list_def)
qed

lemma kind_first_apply: "kind_first d \<Longrightarrow> d (snd (Kind s)) = d s"
  by (simp add: kind_first_def)

lemma decodeTransaction_eq: "decodeTransaction = decodeTxdata"
  by (rule ext) (simp add: decodeTransaction_def decodeTxdata_def kind_first_apply [OF kind_first_struct])

lemma decodeBlock_eq: "decodeBlock = decodeExtblock"
  by (rule ext) (simp add: decodeBlock_def decodeExtblock_def kind_first_apply [OF kind_first_struct])

lemma enc_block:
  "enc_spec (block_rval b) = enc_list
     (enc_spec (header_rval (b_header b)) @
      enc_list (concat (map (\<lambda>t. enc_spec (tx_rval t)) (b_transactions b))) @
      enc_list (concat (map (\<lambda>u. enc_spec (header_rval u)) (b_uncles b))) @ [])"
  by (simp add: block_rval_def comp_def)

lemma enc_tx_nonempty: "enc_spec (tx_rval t) \<noteq> []"
  by (simp only: enc_tx enc_list_nonempty not_False_eq_True)

lemma enc_header_nonempty: "enc_spec (header_rval h) \<noteq> []"
  by (simp only: enc_header enc_list_nonempty not_False_eq_True)

lemma reads_Block:
  assumes "block_ok b"
  shows "reads decodeBlock (enc_spec (block_rval b)) b"
proof -
  have total: "length (enc_spec (block_rval b)) < 2 ^ 64" using assms by (simp add: block_ok_def)
  have hdr: "reads decodeHeader (enc_spec (header_rval (b_header b))) (b_header b)"
    using assms by (simp add: block_ok_def reads_Header)
  have len: "length (concat (map (\<lambda>t. enc_spec (tx_rval t)) (b_transactions b))) < 2 ^ 64"
    "length (concat (map (\<lambda>u. enc_spec (header_rval u)) (b_uncles b))) < 2 ^ 64"
    using total unfolding enc_block by (simp_all add: enc_list_def)
  have "list_all2 (\<lambda>e v. reads decodeTransaction e v \<and> e \<noteq> [])
      (map (\<lambda>t. enc_spec (tx_rval t)) (b_transactions b)) (b_transactions b)"
    using assms by (simp add: list_all2_conv_all_nth list_all_length block_ok_def
        decodeTransaction_eq reads_Txdata enc_tx_nonempty)
  from reads_slice [OF this _ len(1)] have txs: "reads (decodeListSlice decodeTransaction)
      (enc_list (concat (map (\<lambda>t. enc_spec (tx_rval t)) (b_transactions b)))) (b_transactions b)"
    by (simp add: decodeTransaction_eq decodeTxdata_def stops_struct)
  have "list_all2 (\<lambda>e v. reads decodeHeader e v \<and> e \<noteq> [])
      (map (\<lambda>u. enc_spec (header_rval u)) (b_uncles b)) (b_uncles b)"
    using assms by (simp add: list_all2_conv_all_nth list_all_length block_ok_def
        reads_Header enc_header_nonempty)
  from reads_slice [OF this _ len(2)] have uncles: "reads (decodeListSlice decodeHeader)
      (enc_list (concat (map (\<lambda>u. enc_spec (header_rval u)) (b_uncles b)))) (b_uncles b)"
    by (simp add: decodeHeader_def stops_struct)
  show ?thesis unfolding decodeBlock_eq decodeExtblock_def enc_block
    apply (rule reads_struct)
     apply (rule reads_bind, rule reads_field, rule hdr txs uncles)+
     apply (rule reads_ret_eq, cases b, simp)
    using total unfolding enc_block by (simp add: enc_list_def)
qed

interpretation block_codec: rlp_codec decodeBlock "\<lambda>b. enc_spec (block_rval b)" block_ok
  by unfold_locales (rule reads_Block)

interpretation tx_codec: rlp_codec decodeTransaction "\<lambda>t. enc_spec (tx_rval t)" tx_ok
  by unfold_locales (simp add: decodeTransaction_eq reads_Txdata)

section \<open>Filtered headers\<close>

lemma length_min_be_mono: "m \<le> n \<Longrightarrow> length (min_be m) \<le> length (min_be n)"
  using be_nat_less [of "min_be n"] by (intro length_min_be_le) simp

lemma length_puthead_mono:
  assumes "m \<le> n" "n < 2 ^ 64"
  shows "length (puthead a b m) \<le> length (puthead a b n)"
  using assms length_min_be_mono [OF assms(1)] by (auto simp: puthead_def Let_def putint_min_be)

lemma length_enc_list_mono:
  "length p \<le> length q \<Longrightarrow> length q < 2 ^ 64 \<Longrightarrow> length (enc_list p) \<le> length (enc_list q)"
  using length_puthead_mono [of "length p" "length q"] by (simp add: enc_list_def add_mono)

lemma length_enc_string_mono:
  "2 \<le> length p \<Longrightarrow> length p \<le> length q \<Longrightarrow> length q < 2 ^ 64 \<Longrightarrow>
     length (enc_string p) \<le> length (enc_string q)"
  using length_puthead_mono [of "length p" "length q"] by (simp add: enc_string_def add_mono)

definition strip_seals :: "bool \<Rightarrow> istanbul_extra \<Rightarrow> istanbul_extra" where
  "strip_seals keepSeal x = (if keepSeal then x else x\<lparr>ie_Seal := []\<rparr>)\<lparr>ie_CommittedSeal := []\<rparr>"

lemma Extract_Inr:
  assumes "ExtractIstanbulExtra h = Inr x"
  shows "32 \<le> length (h_Extra h) \<and> h_Extra h = take 32 (h_Extra h) @ enc_spec (extra_rval x)"
proof -
  have "32 \<le> length (h_Extra h)" "DecodeBytes (drop 32 (h_Extra h)) decodeIstanbulExtra = Inr x"
    using assms by (auto simp: ExtractIstanbulExtra_def IstanbulExtraVanity_def split: if_splits sum.splits)
  then show ?thesis using DecodeBytes_canonical [OF canonical_Extra] by (metis append_take_drop_id)
qed

lemma length_strip_seals:
  assumes "extra_ok x"
  shows "length (enc_spec (extra_rval (strip_seals keep x))) \<le> length (enc_spec (extra_rval x))"
proof -
  have t: "length (enc_spec (extra_rval x)) < 2 ^ 64" using assms by (simp add: extra_ok_def)
  have c: "length (concat (map enc_string (ie_CommittedSeal x))) < 2 ^ 64"
    using t unfolding enc_extra by (simp add: enc_list_def)
  have "length (enc_string []) \<le> length (enc_string (ie_Seal x))"
    by (auto simp: enc_string_def puthead_def Let_def Suc_le_eq)
  then have "length (enc_string (ie_Seal (strip_seals keep x))) \<le> length (enc_string (ie_Seal x))"
    by (simp add: strip_seals_def)
  moreover have "length (enc_list []) \<le> length (enc_list (concat (map enc_string (ie_CommittedSeal x))))"
    using c by (intro length_enc_list_mono) simp_all
  ultimately show ?thesis unfolding enc_extra
    using t [unfolded enc_extra]
    by (intro length_enc_list_mono) (auto simp: strip_seals_def enc_list_def)
qed

lemma Extract_extra_ok:
  assumes "header_ok h" "ExtractIstanbulExtra h = Inr x"
  shows "extra_ok x"
proof -
  have "length (h_Extra h) = length (take 32 (h_Extra h) @ enc_spec (extra_rval x))"
    using Extract_Inr [OF assms(2)] by metis
  then have "length (enc_spec (extra_rval x)) \<le> length (h_Extra h)" by simp
  moreover have "length (h_Extra h) < 2 ^ 64"
    using assms(1) length_enc_string_ge [of "h_Extra h"]
    unfolding header_ok_def enc_header by (simp add: enc_list_def)
  ultimately show ?thesis by (simp add: extra_ok_def)
qed

lemma IstanbulFilteredHeader_Some:
  fixes keep :: bool
  assumes "header_ok h" "ExtractIstanbulExtra h = Inr x"
  defines "h' \<equiv> h\<lparr>h_Extra := take 32 (h_Extra h) @ enc_spec (extra_rval (strip_seals keep x))\<rparr>"
  shows "IstanbulFilteredHeader h keep = Some h'" "header_ok h'"
proof -
  have ge: "32 \<le> length (h_Extra h)" using Extract_Inr [OF assms(2)] by blast
  have "length (h_Extra h) = length (take 32 (h_Extra h) @ enc_spec (extra_rval x))"
    using Extract_Inr [OF assms(2)] by metis
  then have len: "length (h_Extra h) = 32 + length (enc_spec (extra_rval x))" using ge by simp
  have tot: "length (enc_spec (header_rval h)) < 2 ^ 64" using assms(1) by (simp add: header_ok_def)
  have le: "length (h_Extra h) < 2 ^ 64"
    using tot length_enc_string_ge [of "h_Extra h"] unfolding enc_header by (simp add: enc_list_def)
  have ok: "extra_ok x" using assms(1,2) by (rule Extract_extra_ok)
  note st = length_strip_seals [OF ok, of keep]
  have ok': "extra_ok (strip_seals keep x)" using ok st by (simp add: extra_ok_def)
  from Encode_extra [OF this] assms(2) show "IstanbulFilteredHeader h keep = Some h'"
    by (simp add: IstanbulFilteredHeader_def strip_seals_def h'_def IstanbulExtraVanity_def Let_def
        split: if_split_asm)
  have "length (h_Extra h') \<le> length (h_Extra h)"
    using st len by (simp add: h'_def)
  moreover have "32 \<le> length (h_Extra h')" using ge by (simp add: h'_def)
  ultimately have m: "length (enc_string (h_Extra h')) \<le> length (enc_string (h_Extra h))"
    using le by (intro length_enc_string_mono) simp_all
  have "length (enc_spec (header_rval h')) \<le> length (enc_spec (header_rval h))"
    using m tot unfolding enc_header
    by (intro length_enc_list_mono) (simp_all add: h'_def enc_list_def)
  with tot assms(1) show "header_ok h'" by (simp add: header_ok_def h'_def)
qed

section \<open>Sizes that occur in practice\<close>

lemma length_puthead_le: "n < 2 ^ 64 \<Longrightarrow> length (puthead a b n) \<le> 9"
  using length_putint [of n] by (auto simp: puthead_def Let_def)

lemma length_enc_string_le: "length b < 2 ^ 64 \<Longrightarrow> length (enc_string b) \<le> length b + 9"
  using length_puthead_le [of "length b"] by (simp add: enc_string_def)

lemma length_enc_nat_le: "i < 2 ^ 256 \<Longrightarrow> length (enc_nat (nat i)) \<le> 41"
proof -
  assume "i < 2 ^ 256"
  then have "nat i < 256 ^ 32" by (cases "i < 0") (simp_all add: nat_less_iff)
  then have "length (min_be (nat i)) \<le> 32" by (rule length_min_be_le)
  then show ?thesis using length_enc_string_le [of "min_be (nat i)"] by (simp add: enc_nat_def)
qed

lemma header_length:
  assumes "length (h_Bloom h) = 256" "length (h_Nonce h) = 8" "length (h_Extra h) < 2 ^ 32"
    and "h_Difficulty h < 2 ^ 256" "h_Number h < 2 ^ 256" "h_GasLimit h < 2 ^ 256"
    and "h_GasUsed h < 2 ^ 256" "h_Time h < 2 ^ 256"
  shows "length (enc_spec (header_rval h)) \<le> 2 ^ 40"
proof -
  have s: "length (enc_string b) \<le> 2 ^ 33" if "length b < 2 ^ 32" for b :: bytes
    using length_enc_string_le [of b] that by simp
  have n: "length (enc_nat (nat i)) \<le> 2 ^ 33" if "i < 2 ^ 256" for i
    using length_enc_nat_le [OF that] by simp
  let ?p = "enc_string (hash_bytes (h_ParentHash h)) @ enc_string (hash_bytes (h_UncleHash h)) @
      enc_string (addr_bytes (h_Coinbase h)) @ enc_string (hash_bytes (h_Root h)) @
      enc_string (hash_bytes (h_TxHash h)) @ enc_string (hash_bytes (h_ReceiptHash h)) @
      enc_string (h_Bloom h) @ enc_nat (nat (h_Difficulty h)) @ enc_nat (nat (h_Number h)) @
      enc_nat (nat (h_GasLimit h)) @ enc_nat (nat (h_GasUsed h)) @ enc_nat (nat (h_Time h)) @
      enc_string (h_Extra h) @ enc_string (hash_bytes (h_MixDigest h)) @ enc_string (h_Nonce h) @ []"
  have "length ?p \<le> 15 * 2 ^ 33"
    using s [of "hash_bytes (h_ParentHash h)"] s [of "hash_bytes (h_UncleHash h)"]
      s [of "addr_bytes (h_Coinbase h)"] s [of "hash_bytes (h_Root h)"] s [of "hash_bytes (h_TxHash h)"]
      s [of "hash_bytes (h_ReceiptHash h)"] s [of "h_Bloom h"] n [of "h_Difficulty h"]
      n [of "h_Number h"] n [of "h_GasLimit h"] n [of "h_GasUsed h"] n [of "h_Time h"]
      s [of "h_Extra h"] s [of "hash_bytes (h_MixDigest h)"] s [of "h_Nonce h"] assms
    by simp
  moreover from this have "length (puthead 0xC0 0xF7 (length ?p)) \<le> 9" by (intro length_puthead_le) simp
  ultimately show ?thesis unfolding enc_header by (simp add: enc_list_def)
qed

lemma header_okI:
  assumes "length (h_Bloom h) = 256" "length (h_Nonce h) = 8" "length (h_Extra h) < 2 ^ 32"
    and "0 \<le> h_Difficulty h" "h_Difficulty h < 2 ^ 256" "0 \<le> h_Number h" "h_Number h < 2 ^ 256"
    and "0 \<le> h_GasLimit h" "h_GasLimit h < 2 ^ 256" "0 \<le> h_GasUsed h" "h_GasUsed h < 2 ^ 256"
    and "0 \<le> h_Time h" "h_Time h < 2 ^ 256"
  shows "header_ok h"
  using header_length [of h] assms unfolding header_ok_def by simp

section \<open>Properties\<close>

definition zero_header :: header where
  "zero_header = \<lparr>h_ParentHash = 0, h_UncleHash = 0, h_Coinbase = 0, h_Root = 0, h_TxHash = 0,
     h_ReceiptHash = 0, h_Bloom = replicate 256 0, h_Difficulty = 1, h_Number = 300,
     h_GasLimit = 4700000, h_GasUsed = 0, h_Time = 1500000000, h_Extra = replicate 32 0 @ [0xC3, 0xC0, 0x80, 0xC0],
     h_MixDigest = IstanbulDigest, h_Nonce = replicate 8 0\<rparr>"

lemma zero_header_ok: "header_ok zero_header"
  by (rule header_okI) (simp_all add: zero_header_def)

text \<open>C17. Headers have exactly one encoding: bytes decode to a header if and only if they are what
  the encoder returns for it, so no two byte strings carry the same header.\<close>

theorem header_decode_iff_encode:
  assumes "header_ok h"
  shows "DecodeBytes b decodeHeader = Inr h \<longleftrightarrow> EncodeToBytes (header_rval h) = Inr b"
  using header_codec.decode_iff [OF assms] Encode_header [OF assms] by auto

theorem header_decode_iff_encode_witness:
  "DecodeBytes [0xC0] decodeHeader = Inr zero_header \<longleftrightarrow>
     EncodeToBytes (header_rval zero_header) = Inr [0xC0]"
  by (rule header_decode_iff_encode [OF zero_header_ok])

text \<open>C16. A block survives the wire: what the encoder produces for a block decodes to that block, and
  the same bytes with anything appended are refused.\<close>

theorem block_encode_decode:
  assumes "block_ok b" and "x \<noteq> []"
  shows "\<exists>e. EncodeToBytes (block_rval b) = Inr e \<and> DecodeBytes e decodeBlock = Inr b \<and>
    DecodeBytes (e @ x) decodeBlock = Inl ErrMoreThanOneValue"
proof -
  have "encodable (block_rval b)"
    using assms(1) encodable_header by (auto simp: block_rval_def block_ok_def list_all_iff tx_ok_def
        tx_rval_def recipient_rval_def split: option.splits)
  then show ?thesis
    using EncodeToBytes_enc_spec block_codec.decode_encode block_codec.trailing assms
    by (metis block_ok_def)
qed

theorem block_encode_decode_witness:
  "\<exists>e. EncodeToBytes (block_rval \<lparr>b_header = zero_header, b_uncles = [], b_transactions = []\<rparr>) = Inr e \<and>
    DecodeBytes e decodeBlock = Inr \<lparr>b_header = zero_header, b_uncles = [], b_transactions = []\<rparr> \<and>
    DecodeBytes (e @ [0]) decodeBlock = Inl ErrMoreThanOneValue"
proof (rule block_encode_decode)
  let ?b = "\<lparr>b_header = zero_header, b_uncles = [], b_transactions = []\<rparr>"
  have "length (enc_spec (header_rval zero_header)) \<le> 2 ^ 40"
    by (rule header_length) (simp_all add: zero_header_def)
  then have "length (enc_spec (block_rval ?b)) < 2 ^ 64"
    using length_puthead_le [of "length (enc_spec (header_rval zero_header)) + 2" "0xC0" "0xF7"]
    unfolding enc_block by (simp add: enc_list_def puthead_def [of _ _ 0])
  with zero_header_ok show "block_ok ?b" by (simp add: block_ok_def)
qed simp

text \<open>C18. The hash of an Istanbul header covers everything but the committed seals: for two headers
  with decodable extra-data whose hashed bytes do not collide, the hashes agree exactly when the
  headers agree in every field, in the vanity bytes, the validators and the proposer seal.\<close>

theorem header_hash_covers_all_but_committed_seals:
  fixes kec :: "bytes \<Rightarrow> hash"
  assumes ok: "header_ok h1" "header_ok h2"
    and ist: "h_MixDigest h1 = IstanbulDigest" "h_MixDigest h2 = IstanbulDigest"
    and ex: "ExtractIstanbulExtra h1 = Inr x1" "ExtractIstanbulExtra h2 = Inr x2"
    and nocoll: "\<And>g1 g2. IstanbulFilteredHeader h1 True = Some g1 \<Longrightarrow> IstanbulFilteredHeader h2 True = Some g2 \<Longrightarrow>
      kec (enc_spec (header_rval g1)) = kec (enc_spec (header_rval g2)) \<Longrightarrow>
      enc_spec (header_rval g1) = enc_spec (header_rval g2)"
  shows "header_Hash kec h1 = header_Hash kec h2 \<longleftrightarrow>
    h1\<lparr>h_Extra := []\<rparr> = h2\<lparr>h_Extra := []\<rparr> \<and> take 32 (h_Extra h1) = take 32 (h_Extra h2) \<and>
    ie_Validators x1 = ie_Validators x2 \<and> ie_Seal x1 = ie_Seal x2"
proof -
  let ?e = "\<lambda>x. enc_spec (extra_rval (strip_seals True x))"
  let ?g = "\<lambda>h x. h\<lparr>h_Extra := take 32 (h_Extra h) @ ?e x\<rparr>"
  note f1 = IstanbulFilteredHeader_Some [OF ok(1) ex(1), of True]
    and f2 = IstanbulFilteredHeader_Some [OF ok(2) ex(2), of True]
  have H: "header_Hash kec h1 = kec (enc_spec (header_rval (?g h1 x1)))"
    "header_Hash kec h2 = kec (enc_spec (header_rval (?g h2 x2)))"
    using f1 f2 ist by (simp_all add: header_Hash_def rlpHash_def Encode_header)
  have eok: "extra_ok (strip_seals True x1)" "extra_ok (strip_seals True x2)"
    using Extract_extra_ok [OF ok(1) ex(1)] Extract_extra_ok [OF ok(2) ex(2)]
      length_strip_seals unfolding extra_ok_def by (meson le_less_trans)+
  have "header_Hash kec h1 = header_Hash kec h2 \<longleftrightarrow> ?g h1 x1 = ?g h2 x2"
    unfolding H using nocoll [OF f1(1) f2(1)] header_codec.enc_inject [OF f1(2) f2(2)] by metis
  also have "\<dots> \<longleftrightarrow> h1\<lparr>h_Extra := []\<rparr> = h2\<lparr>h_Extra := []\<rparr> \<and>
      take 32 (h_Extra h1) @ ?e x1 = take 32 (h_Extra h2) @ ?e x2"
    by (cases h1; cases h2) (simp add: conj_ac)
  also have "take 32 (h_Extra h1) @ ?e x1 = take 32 (h_Extra h2) @ ?e x2 \<longleftrightarrow>
      take 32 (h_Extra h1) = take 32 (h_Extra h2) \<and> ?e x1 = ?e x2"
    using Extract_Inr [OF ex(1)] Extract_Inr [OF ex(2)] by (intro append_eq_append_conv) simp
  also have "?e x1 = ?e x2 \<longleftrightarrow> strip_seals True x1 = strip_seals True x2"
    using extra_codec.enc_inject [OF eok] by metis
  also have "\<dots> \<longleftrightarrow> ie_Validators x1 = ie_Validators x2 \<and> ie_Seal x1 = ie_Seal x2"
    by (cases x1; cases x2) (simp add: strip_seals_def)
  finally show ?thesis .
qed

theorem header_hash_covers_all_but_committed_seals_witness:
  "header_Hash hash_of_bytes zero_header =
   header_Hash hash_of_bytes (zero_header\<lparr>h_Extra := replicate 32 0 @ [0xC4, 0xC0, 0x80, 0xC1, 5]\<rparr>)"
proof -
  let ?h = "zero_header\<lparr>h_Extra := replicate 32 0 @ [0xC4, 0xC0, 0x80, 0xC1, 5]\<rparr>"
  let ?x = "\<lparr>ie_Validators = [], ie_Seal = [], ie_CommittedSeal = []\<rparr>"
    and ?y = "\<lparr>ie_Validators = [], ie_Seal = [], ie_CommittedSeal = [[5]]\<rparr>"
  have dec: "DecodeBytes [0xC3, 0xC0, 0x80, 0xC0] decodeIstanbulExtra = Inr ?x"
    "DecodeBytes [0xC4, 0xC0, 0x80, 0xC1, 5] decodeIstanbulExtra = Inr ?y" by code_simp+
  then have ex: "ExtractIstanbulExtra zero_header = Inr ?x" "ExtractIstanbulExtra ?h = Inr ?y"
    by (simp_all add: ExtractIstanbulExtra_def IstanbulExtraVanity_def zero_header_def)
  have ok: "header_ok ?h" by (rule header_okI) (simp_all add: zero_header_def)
  have mix: "h_MixDigest zero_header = IstanbulDigest" "h_MixDigest ?h = IstanbulDigest"
    by (simp_all add: zero_header_def)
  have same: "IstanbulFilteredHeader zero_header True = IstanbulFilteredHeader ?h True"
    unfolding IstanbulFilteredHeader_Some(1) [OF zero_header_ok ex(1)]
      IstanbulFilteredHeader_Some(1) [OF ok ex(2)]
    by (simp add: strip_seals_def zero_header_def)
  show ?thesis
    using header_hash_covers_all_but_committed_seals [OF zero_header_ok ok mix ex, of hash_of_bytes] same
    by (simp add: zero_header_def)
qed

end
