(* ===== verification/Validator_Set.thy ===== *)
theory Validator_Set
  imports Chain_Types
begin

text \<open>
  Validator sets (\<^verbatim>\<open>src/consensus/istanbul/validator/\<close>) and the signature helpers of
  \<^verbatim>\<open>src/consensus/istanbul/utils.go\<close>.

  A validator is its address. The set keeps its validators sorted by the checksummed hexadecimal
  form of their addresses, whose letter case depends on Keccak-256. Keccak and the recovery of a
  public key from a signature are parameters: the record \<open>crypto\<close>. \<^verbatim>\<open>sort.Sort\<close> is not
  stable; the sort keys of different addresses differ (\<open>addr_Hex_inject\<close>), so there is only one
  sorted arrangement and \<^const>\<open>sort_key\<close> computes it. The locks are not modelled.
\<close>

section \<open>Cryptography and checksummed addresses\<close>

record crypto =
  kec :: "bytes \<Rightarrow> hash"
  ecrecover :: "hash \<Rightarrow> bytes \<Rightarrow> bytes option"

definition PubkeyToAddress :: "crypto \<Rightarrow> bytes \<Rightarrow> address" where
  "PubkeyToAddress cr pubBytes = addr_of_bytes (drop 12 (hash_bytes (kec cr (tl pubBytes))))"

definition hex_digit :: "nat \<Rightarrow> byte" where
  "hex_digit n = (if n < 10 then of_nat (48 + n) else of_nat (87 + n))"

definition hex_EncodeToString :: "bytes \<Rightarrow> bytes" where
  "hex_EncodeToString b = concat (map (\<lambda>x. [hex_digit (unat x div 16), hex_digit (unat x mod 16)]) b)"

definition checksum_char :: "bytes \<Rightarrow> nat \<Rightarrow> byte \<Rightarrow> byte" where
  "checksum_char hash i c =
     (let hashByte = (if i mod 2 = 0 then unat (hash ! (i div 2)) div 16 else unat (hash ! (i div 2)) mod 16)
      in if c > 57 \<and> hashByte > 7 then c - 32 else c)"

definition addr_Hex :: "crypto \<Rightarrow> address \<Rightarrow> bytes" where
  "addr_Hex cr a =
     (let unchecksummed = hex_EncodeToString (addr_bytes a);
          hash = hash_bytes (kec cr unchecksummed)
      in 48 # 120 # map (\<lambda>(i, c). checksum_char hash i c) (enumerate 0 unchecksummed))"

section \<open>Validator sets\<close>

datatype proposer_policy = RoundRobin | Sticky

record valset =
  vs_validators :: "address list"
  vs_proposer :: "address option"
  vs_selector :: proposer_policy

definition vs_Size :: "valset \<Rightarrow> nat" where
  "vs_Size v = length (vs_validators v)"

definition GetByIndex :: "valset \<Rightarrow> nat \<Rightarrow> address option" where
  "GetByIndex v i = (if i < vs_Size v then Some (vs_validators v ! i) else None)"

text \<open>\<^verbatim>\<open>GetByAddress\<close> returns -1 and nil for an address that is not in the set.\<close>

definition GetByAddress :: "valset \<Rightarrow> address \<Rightarrow> int \<times> address option" where
  "GetByAddress v addr =
     (case find_index (\<lambda>x. addr = x) (vs_validators v) of
        Some i \<Rightarrow> (int i, Some (vs_validators v ! i))
      | None \<Rightarrow> (- 1, None))"

definition newDefaultSet :: "crypto \<Rightarrow> address list \<Rightarrow> proposer_policy \<Rightarrow> valset" where
  "newDefaultSet cr addrs selector =
     (let vals = sort_key (addr_Hex cr) addrs
      in \<lparr>vs_validators = vals, vs_proposer = (if vals = [] then None else Some (vals ! 0)),
          vs_selector = selector\<rparr>)"

definition NewSet :: "crypto \<Rightarrow> address list \<Rightarrow> proposer_policy \<Rightarrow> valset" where
  "NewSet cr addrs policy =
     (case policy of
        RoundRobin \<Rightarrow> newDefaultSet cr addrs RoundRobin
      | Sticky \<Rightarrow> newDefaultSet cr addrs Sticky)"

text \<open>\<^verbatim>\<open>IsProposer\<close> compares interface values: an unknown address is the proposer of a set that
  has none.\<close>

definition IsProposer :: "valset \<Rightarrow> address \<Rightarrow> bool" where
  "IsProposer v addr \<longleftrightarrow> vs_proposer v = snd (GetByAddress v addr)"

definition calcSeed :: "valset \<Rightarrow> address \<Rightarrow> nat \<Rightarrow> nat" where
  "calcSeed v proposer round =
     (case GetByAddress v proposer of
        (idx, Some _) \<Rightarrow> (nat idx + round) mod 2 ^ 64
      | (_, None) \<Rightarrow> (0 + round) mod 2 ^ 64)"

definition emptyAddress :: "address \<Rightarrow> bool" where
  "emptyAddress addr \<longleftrightarrow> addr = 0"

definition roundRobinProposer :: "valset \<Rightarrow> address \<Rightarrow> nat \<Rightarrow> address option" where
  "roundRobinProposer v proposer round =
     (if vs_Size v = 0 then None
      else
        (let seed = (if emptyAddress proposer then round else (calcSeed v proposer round + 1) mod 2 ^ 64)
         in GetByIndex v (seed mod vs_Size v)))"

definition stickyProposer :: "valset \<Rightarrow> address \<Rightarrow> nat \<Rightarrow> address option" where
  "stickyProposer v proposer round =
     (if vs_Size v = 0 then None
      else
        (let seed = (if emptyAddress proposer then round else calcSeed v proposer round)
         in GetByIndex v (seed mod vs_Size v)))"

definition CalcProposer :: "valset \<Rightarrow> address \<Rightarrow> nat \<Rightarrow> valset" where
  "CalcProposer v lastProposer round =
     v\<lparr>vs_proposer :=
        (case vs_selector v of
           RoundRobin \<Rightarrow> roundRobinProposer v lastProposer round
         | Sticky \<Rightarrow> stickyProposer v lastProposer round)\<rparr>"

definition AddValidator :: "crypto \<Rightarrow> address \<Rightarrow> valset \<Rightarrow> bool \<times> valset" where
  "AddValidator cr addr v =
     (if \<exists>x \<in> set (vs_validators v). x = addr then (False, v)
      else (True, v\<lparr>vs_validators := sort_key (addr_Hex cr) (vs_validators v @ [addr])\<rparr>))"

definition RemoveValidator :: "address \<Rightarrow> valset \<Rightarrow> bool \<times> valset" where
  "RemoveValidator addr v =
     (case find_index (\<lambda>x. x = addr) (vs_validators v) of
        Some i \<Rightarrow> (True, v\<lparr>vs_validators := remove_nth i (vs_validators v)\<rparr>)
      | None \<Rightarrow> (False, v))"

definition vs_Copy :: "crypto \<Rightarrow> valset \<Rightarrow> valset" where
  "vs_Copy cr v = newDefaultSet cr (vs_validators v) (vs_selector v)"

text \<open>\<^verbatim>\<open>int(math.Ceil(float64(n)/3)) - 1\<close>, which floating point computes exactly for every
  size a slice of validators can have in practice (below \<open>2 ^ 50\<close>).\<close>

definition vs_F :: "valset \<Rightarrow> int" where
  "vs_F v = (int (vs_Size v) + 2) div 3 - 1"

definition ExtractValidators :: "bytes \<Rightarrow> address list" where
  "ExtractValidators extraData =
     map (\<lambda>i. addr_of_bytes (take 20 (drop (i * 20) extraData))) [0..<length extraData div 20]"

definition ValidExtraData :: "bytes \<Rightarrow> bool" where
  "ValidExtraData extraData \<longleftrightarrow> length extraData mod 20 = 0"

datatype istanbul_error = ErrUnauthorizedAddress | ErrRecover

definition GetSignatureAddress :: "crypto \<Rightarrow> bytes \<Rightarrow> bytes \<Rightarrow> istanbul_error + address" where
  "GetSignatureAddress cr data sig =
     (case ecrecover cr (kec cr data) sig of
        None \<Rightarrow> Inl ErrRecover
      | Some pubkey \<Rightarrow> Inr (PubkeyToAddress cr pubkey))"

definition CheckValidatorSignature :: "crypto \<Rightarrow> valset \<Rightarrow> bytes \<Rightarrow> bytes \<Rightarrow> istanbul_error + address" where
  "CheckValidatorSignature cr v data sig =
     (case GetSignatureAddress cr data sig of
        Inl e \<Rightarrow> Inl e
      | Inr signer \<Rightarrow>
          (case GetByAddress v signer of
             (_, Some val) \<Rightarrow> Inr val
           | (_, None) \<Rightarrow> Inl ErrUnauthorizedAddress))"

section \<open>Checksummed addresses are unique\<close>

definition undigit :: "byte \<Rightarrow> nat" where
  "undigit c = (if c < 58 then unat c - 48 else if c < 71 then unat c - 55 else unat c - 87)"

lemma undigit_hex_digit:
  assumes "n < 16"
  shows "undigit (hex_digit n) = n" "undigit (checksum_char hash i (hex_digit n)) = n"
proof -
  have up: "[0..<16] = [0, 1, 2, 3, 4, 5, 6, 7, 8, 9, 10, 11, 12, 13, 14, 15 :: nat]" by (simp add: upt_rec)
  have "\<forall>m \<in> set [0..<16]. undigit (hex_digit m) = m \<and> undigit (checksum_char hash i (hex_digit m)) = m"
    unfolding up by (simp add: undigit_def hex_digit_def checksum_char_def Let_def word_less_nat_alt)
  then show "undigit (hex_digit n) = n" "undigit (checksum_char hash i (hex_digit n)) = n"
    using assms by simp_all
qed

lemma nibbles_lt: "unat (z :: byte) div 16 < 16" "unat z mod 16 < 16"
  using less_mult_imp_div_less [of "unat z" 16 16] by simp_all

lemma undigit_addr_Hex:
  "map undigit (drop 2 (addr_Hex cr a)) = map undigit (hex_EncodeToString (addr_bytes a))"
proof -
  let ?u = "hex_EncodeToString (addr_bytes a)" and ?h = "hash_bytes (kec cr (hex_EncodeToString (addr_bytes a)))"
  have digit: "\<exists>n < 16. c = hex_digit n" if "c \<in> set ?u" for c
  proof -
    from that obtain x :: byte where "c = hex_digit (unat x div 16) \<or> c = hex_digit (unat x mod 16)"
      by (auto simp: hex_EncodeToString_def)
    then show ?thesis using nibbles_lt by blast
  qed
  have "undigit (checksum_char ?h i (?u ! i)) = undigit (?u ! i)" if "i < length ?u" for i
    using digit [OF nth_mem [OF that]] undigit_hex_digit by metis
  then show ?thesis
    by (intro nth_equalityI) (auto simp: addr_Hex_def Let_def nth_enumerate_eq)
qed

lemma hex_inject:
  "map undigit (hex_EncodeToString b) = map undigit (hex_EncodeToString c) \<Longrightarrow> length b = length c \<Longrightarrow> b = c"
proof (induction b arbitrary: c)
  case (Cons x b)
  then obtain y c' where c: "c = y # c'" by (cases c) auto
  have e: "hex_EncodeToString (z # zs) = hex_digit (unat z div 16) # hex_digit (unat z mod 16) # hex_EncodeToString zs"
    for z zs by (simp add: hex_EncodeToString_def)
  note lt = nibbles_lt
  from Cons.prems(1) have "unat x div 16 = unat y div 16" "unat x mod 16 = unat y mod 16"
    "map undigit (hex_EncodeToString b) = map undigit (hex_EncodeToString c')"
    unfolding c e by (simp_all add: undigit_hex_digit lt)
  moreover from this have "unat x = unat y" by (metis div_mult_mod_eq)
  ultimately show ?case using Cons.IH [of c'] Cons.prems(2) c by (simp add: word_unat_eq_iff)
qed simp

lemma addr_Hex_inject [simp]: "addr_Hex cr a = addr_Hex cr b \<longleftrightarrow> a = b"
proof
  assume "addr_Hex cr a = addr_Hex cr b"
  then have "map undigit (hex_EncodeToString (addr_bytes a)) = map undigit (hex_EncodeToString (addr_bytes b))"
    using undigit_addr_Hex by metis
  then show "a = b" using hex_inject by fastforce
qed simp

section \<open>The invariant of validator sets\<close>

definition valset_ok :: "crypto \<Rightarrow> valset \<Rightarrow> bool" where
  "valset_ok cr v \<longleftrightarrow> sorted (map (addr_Hex cr) (vs_validators v)) \<and> distinct (vs_validators v)"

abbreviation members :: "valset \<Rightarrow> address set" where
  "members v \<equiv> set (vs_validators v)"

lemma newDefaultSet_ok: "distinct addrs \<Longrightarrow> valset_ok cr (newDefaultSet cr addrs p)"
  by (simp add: valset_ok_def newDefaultSet_def Let_def)

lemma members_newDefaultSet [simp]: "members (newDefaultSet cr addrs p) = set addrs"
  by (simp add: newDefaultSet_def Let_def)

lemma vs_Copy_ok: "valset_ok cr v \<Longrightarrow> valset_ok cr (vs_Copy cr v)"
  unfolding vs_Copy_def by (rule newDefaultSet_ok) (simp add: valset_ok_def)

lemma GetByAddress_mem:
  "a \<in> members v \<Longrightarrow> \<exists>i < vs_Size v. GetByAddress v a = (int i, Some a) \<and> vs_validators v ! i = a"
proof -
  assume a: "a \<in> members v"
  then obtain i where "find_index (\<lambda>x. a = x) (vs_validators v) = Some i"
    by (metis (mono_tags) find_index_None not_None_eq)
  with find_index_SomeD [OF this] show ?thesis by (auto simp: GetByAddress_def vs_Size_def)
qed

lemma GetByAddress_not_mem: "a \<notin> members v \<Longrightarrow> GetByAddress v a = (- 1, None)"
proof -
  assume "a \<notin> members v"
  then have none: "find_index (\<lambda>x. a = x) (vs_validators v) = None" by (auto simp: find_index_None)
  show ?thesis unfolding GetByAddress_def none by simp
qed

lemma snd_GetByAddress: "snd (GetByAddress v a) = (if a \<in> members v then Some a else None)"
  using GetByAddress_mem [of a v] GetByAddress_not_mem [of a v] by auto

lemma AddValidator_ok: "valset_ok cr v \<Longrightarrow> valset_ok cr (snd (AddValidator cr a v))"
  by (auto simp: AddValidator_def valset_ok_def)

lemma members_AddValidator: "members (snd (AddValidator cr a v)) = insert a (members v)"
  by (auto simp: AddValidator_def)

lemma AddValidator_res: "fst (AddValidator cr a v) \<longleftrightarrow> a \<notin> members v"
  by (auto simp: AddValidator_def)

lemma RemoveValidator_cases:
  "(a \<notin> members v \<and> RemoveValidator a v = (False, v)) \<or>
   (\<exists>ys zs. vs_validators v = ys @ a # zs \<and> a \<notin> set ys \<and>
      RemoveValidator a v = (True, v\<lparr>vs_validators := ys @ zs\<rparr>))"
proof (cases "find_index (\<lambda>x. x = a) (vs_validators v)")
  case None
  then have "a \<notin> members v" by (auto simp: find_index_None)
  then show ?thesis unfolding RemoveValidator_def None by simp
next
  case (Some i)
  from find_index_remove [OF Some] obtain ys zs where "vs_validators v = ys @ a # zs" "a \<notin> set ys"
    "remove_nth i (vs_validators v) = ys @ zs" by blast
  then show ?thesis unfolding RemoveValidator_def Some by auto
qed

lemma RemoveValidator_ok:
  assumes "valset_ok cr v"
  shows "valset_ok cr (snd (RemoveValidator a v))"
  using RemoveValidator_cases [of a v] assms by (auto simp: valset_ok_def sorted_append)

lemma members_RemoveValidator:
  assumes "valset_ok cr v"
  shows "members (snd (RemoveValidator a v)) = members v - {a}"
  using RemoveValidator_cases [of a v] assms by (auto simp: valset_ok_def)

lemma RemoveValidator_res: "fst (RemoveValidator a v) \<longleftrightarrow> a \<in> members v"
  using RemoveValidator_cases [of a v] by auto

lemma vs_Size_card: "valset_ok cr v \<Longrightarrow> vs_Size v = card (members v)"
  by (simp add: valset_ok_def vs_Size_def distinct_card)

text \<open>Two sets with the same members list them in the same order.\<close>

lemma valset_ok_unique:
  assumes "valset_ok cr v" "valset_ok cr w" "members v = members w"
  shows "vs_validators v = vs_validators w"
proof -
  have "map (addr_Hex cr) (vs_validators v) = map (addr_Hex cr) (vs_validators w)"
    using assms by (intro sorted_distinct_set_unique)
      (auto simp: valset_ok_def distinct_map inj_on_def)
  then show ?thesis by (rule map_injective) (simp add: inj_def)
qed

text \<open>The interface \<^verbatim>\<open>ValidatorSet\<close> as its clients use it for membership changes.\<close>

locale validator_set =
  fixes ok :: "'s \<Rightarrow> bool" and mem :: "'s \<Rightarrow> address set" and sz :: "'s \<Rightarrow> nat"
    and add :: "address \<Rightarrow> 's \<Rightarrow> bool \<times> 's" and rem :: "address \<Rightarrow> 's \<Rightarrow> bool \<times> 's"
  assumes add_ok: "ok s \<Longrightarrow> ok (snd (add a s))"
    and rem_ok: "ok s \<Longrightarrow> ok (snd (rem a s))"
    and mem_add: "ok s \<Longrightarrow> mem (snd (add a s)) = insert a (mem s)"
    and mem_rem: "ok s \<Longrightarrow> mem (snd (rem a s)) = mem s - {a}"
    and add_res: "ok s \<Longrightarrow> fst (add a s) \<longleftrightarrow> a \<notin> mem s"
    and rem_res: "ok s \<Longrightarrow> fst (rem a s) \<longleftrightarrow> a \<in> mem s"
    and finite_mem: "ok s \<Longrightarrow> finite (mem s)"
    and size_card: "ok s \<Longrightarrow> sz s = card (mem s)"
begin

lemma size_add: "ok s \<Longrightarrow> sz (snd (add a s)) = (if fst (add a s) then Suc (sz s) else sz s)"
  by (simp add: size_card add_ok mem_add add_res finite_mem card_insert_if)

lemma size_rem: "ok s \<Longrightarrow> Suc (sz (snd (rem a s))) = (if fst (rem a s) then sz s else Suc (sz s))"
  using card_Suc_Diff1 [OF finite_mem, of s a]
  by (cases "a \<in> mem s") (simp_all add: size_card rem_ok mem_rem rem_res del: card_Diff_insert card_Diff_singleton)

lemma add_rem: "ok s \<Longrightarrow> a \<notin> mem s \<Longrightarrow> mem (snd (rem a (snd (add a s)))) = mem s"
  by (simp add: mem_rem mem_add add_ok)

lemma rem_add: "ok s \<Longrightarrow> a \<in> mem s \<Longrightarrow> mem (snd (add a (snd (rem a s)))) = mem s"
  by (auto simp: mem_rem mem_add rem_ok)

lemma size_change:
  "ok s \<Longrightarrow> sz (snd (add a s)) \<le> Suc (sz s) \<and> sz s \<le> Suc (sz (snd (rem a s)))"
  using size_add [of s a] size_rem [of s a] by (auto split: if_splits)

end

interpretation vset: validator_set "valset_ok cr" members vs_Size "AddValidator cr" RemoveValidator
  for cr
  by unfold_locales
    (auto simp: AddValidator_ok RemoveValidator_ok members_AddValidator members_RemoveValidator
      AddValidator_res RemoveValidator_res vs_Size_card)

section \<open>Fault tolerance and quorums\<close>

lemma vs_F_bounds: "3 * vs_F v + 1 \<le> int (vs_Size v) \<or> vs_Size v = 0" "int (vs_Size v) \<le> 3 * vs_F v + 3"
  by (auto simp: vs_F_def)

text \<open>A specification notion: a quorum is a set of more than \<open>2 F\<close> members, the bound that the code
  tests in the prepare and commit phases, in round changes and for the committed seals.\<close>

definition is_quorum :: "valset \<Rightarrow> address set \<Rightarrow> bool" where
  "is_quorum v Q \<longleftrightarrow> Q \<subseteq> members v \<and> int (card Q) > 2 * vs_F v"

locale quorum_system =
  fixes voters :: "'v set" and quorum :: "'v set \<Rightarrow> bool" and q :: nat
  assumes fin: "finite voters"
    and sub: "quorum Q \<Longrightarrow> Q \<subseteq> voters"
    and big: "quorum Q \<Longrightarrow> q \<le> card Q"
begin

lemma overlap:
  assumes "quorum A" "quorum B"
  shows "2 * q \<le> card (A \<inter> B) + card voters"
proof -
  have "finite A" "finite B" using fin sub assms by (auto intro: finite_subset)
  then have "card (A \<union> B) + card (A \<inter> B) = card A + card B" using card_Un_Int [of A B] by simp
  moreover have "card (A \<union> B) \<le> card voters" using fin sub assms by (intro card_mono) auto
  ultimately show ?thesis using big [OF assms(1)] big [OF assms(2)] by simp
qed

lemma common_member: "quorum A \<Longrightarrow> quorum B \<Longrightarrow> card voters < 2 * q \<Longrightarrow> A \<inter> B \<noteq> {}"
  using overlap [of A B] by auto

end

interpretation vquorum: quorum_system "members v" "is_quorum v" "nat (2 * vs_F v + 1)" for v
  by unfold_locales (auto simp: is_quorum_def)

text \<open>The first and the last \<open>2 F + 1\<close> validators of the list are two quorums with the least overlap.\<close>

lemma least_overlap:
  assumes "valset_ok cr v" "vs_Size v \<noteq> 0"
  shows "\<exists>A B. is_quorum v A \<and> is_quorum v B \<and> card (A \<inter> B) \<le> 2 * nat (2 * vs_F v + 1) - vs_Size v"
proof -
  let ?l = "vs_validators v" and ?k = "nat (2 * vs_F v + 1)" and ?n = "vs_Size v"
  have l: "length ?l = ?n" "distinct ?l" using assms by (simp_all add: vs_Size_def valset_ok_def)
  have k: "?k \<le> ?n" "2 * vs_F v < int ?k" using assms(2) by (auto simp: vs_F_def)
  let ?A = "set (take ?k ?l)" and ?B = "set (drop (?n - ?k) ?l)"
  have "card ?A = ?k" "card ?B = ?k" using l k(1) by (simp_all add: distinct_card)
  then have q: "is_quorum v ?A" "is_quorum v ?B"
    using k(2) by (auto simp: is_quorum_def dest: in_set_takeD in_set_dropD)
  have "?A \<inter> ?B \<subseteq> (\<lambda>i. ?l ! i) ` {?n - ?k..<?k}"
  proof
    fix x assume "x \<in> ?A \<inter> ?B"
    then obtain i j where "i < ?k" "x = ?l ! i" "j < ?k" "x = ?l ! (?n - ?k + j)"
      using l(1) k(1) by (auto simp: in_set_conv_nth)
    moreover from this have "i = ?n - ?k + j" using l k(1) by (simp add: nth_eq_iff_index_eq)
    ultimately show "x \<in> (\<lambda>i. ?l ! i) ` {?n - ?k..<?k}" by auto
  qed
  then have "card (?A \<inter> ?B) \<le> card ((\<lambda>i. ?l ! i) ` {?n - ?k..<?k})" by (intro card_mono) auto
  also have "\<dots> \<le> ?k - (?n - ?k)" using card_image_le [of "{?n - ?k..<?k}" "\<lambda>i. ?l ! i"] by simp
  also have "\<dots> = 2 * ?k - ?n" using k(1) by simp
  finally show ?thesis using q by blast
qed

section \<open>Round robin\<close>

lemma roundRobin_index:
  assumes "vs_Size v \<noteq> 0" "vs_Size v + round + 1 < 2 ^ 64"
  shows "\<exists>k \<le> vs_Size v. roundRobinProposer v lp round = Some (vs_validators v ! ((k + round) mod vs_Size v)) \<and>
    (\<forall>r. vs_Size v + r + 1 < 2 ^ 64 \<longrightarrow>
       roundRobinProposer v lp r = Some (vs_validators v ! ((k + r) mod vs_Size v)))"
proof -
  have "\<exists>k \<le> vs_Size v. \<forall>r. vs_Size v + r + 1 < 2 ^ 64 \<longrightarrow>
       roundRobinProposer v lp r = Some (vs_validators v ! ((k + r) mod vs_Size v))"
  proof (cases "lp = 0")
    case True
    then show ?thesis using assms by (intro exI [of _ 0]) (simp add: roundRobinProposer_def emptyAddress_def GetByIndex_def)
  next
    case False
    show ?thesis
    proof (cases "lp \<in> members v")
      case True
      then obtain i where "i < vs_Size v" "GetByAddress v lp = (int i, Some lp)"
        using GetByAddress_mem by blast
      with False assms(1) show ?thesis
        by (intro exI [of _ "Suc i"])
          (simp add: roundRobinProposer_def emptyAddress_def GetByIndex_def calcSeed_def)
    next
      case False
      with \<open>lp \<noteq> 0\<close> assms(1) GetByAddress_not_mem [OF False] show ?thesis
        by (intro exI [of _ "Suc 0"])
          (auto simp: roundRobinProposer_def emptyAddress_def GetByIndex_def calcSeed_def Suc_le_eq)
    qed
  qed
  then show ?thesis using assms(2) by blast
qed

lemma mod_shift_image:
  assumes "0 < (n :: nat)"
  shows "(\<lambda>r. (k + r) mod n) ` {r0..<r0 + n} = {..<n}"
proof -
  have eq: "x = y" if "x \<le> y" "y < x + n" "(k + x) mod n = (k + y) mod n" for x y
  proof -
    have "n dvd (k + y) - (k + x)" using that mod_eq_dvd_iff_nat [of "k + x" "k + y" n] by simp
    then have "n dvd y - x" by simp
    moreover have "y - x < n" using that by linarith
    ultimately show ?thesis using that(1) by (metis dvd_imp_le le_antisym linorder_not_less zero_less_diff)
  qed
  have "inj_on (\<lambda>r. (k + r) mod n) {r0..<r0 + n}"
  proof (rule inj_onI)
    fix x y assume "x \<in> {r0..<r0 + n}" "y \<in> {r0..<r0 + n}" "(k + x) mod n = (k + y) mod n"
    then show "x = y" using eq [of x y] eq [of y x] by (cases "x \<le> y") auto
  qed
  then have "card ((\<lambda>r. (k + r) mod n) ` {r0..<r0 + n}) = n" by (simp add: card_image)
  moreover have "(\<lambda>r. (k + r) mod n) ` {r0..<r0 + n} \<subseteq> {..<n}" using assms by auto
  ultimately show ?thesis by (simp add: card_subset_eq)
qed

section \<open>Properties\<close>

text \<open>C21. Adding and removing validators keep the set sorted and free of duplicates, report whether
  the address was new or present, change exactly that member, and two sets with the same members
  list them in the same order, so all nodes compute the same proposers.\<close>

theorem validator_set_operations:
  assumes "valset_ok cr v"
  shows "valset_ok cr (snd (AddValidator cr a v)) \<and> valset_ok cr (snd (RemoveValidator a v)) \<and>
    members (snd (AddValidator cr a v)) = insert a (members v) \<and>
    members (snd (RemoveValidator a v)) = members v - {a} \<and>
    (fst (AddValidator cr a v) \<longleftrightarrow> a \<notin> members v) \<and> (fst (RemoveValidator a v) \<longleftrightarrow> a \<in> members v) \<and>
    vs_validators (vs_Copy cr v) = vs_validators v \<and>
    (a \<notin> members v \<longrightarrow> vs_validators (snd (RemoveValidator a (snd (AddValidator cr a v)))) = vs_validators v)"
proof -
  have copy: "vs_validators (vs_Copy cr v) = vs_validators v"
    by (rule valset_ok_unique [OF vs_Copy_ok [OF assms] assms]) (simp add: vs_Copy_def)
  have undo: "vs_validators (snd (RemoveValidator a (snd (AddValidator cr a v)))) = vs_validators v"
    if "a \<notin> members v"
    using vset.add_rem [OF assms that]
    by (rule valset_ok_unique [OF RemoveValidator_ok [OF AddValidator_ok [OF assms]] assms])
  show ?thesis
    by (simp add: copy undo assms vset.add_ok vset.rem_ok vset.mem_add [OF assms] vset.mem_rem [OF assms]
        vset.add_res [OF assms] vset.rem_res [OF assms])
qed

definition toy_crypto :: crypto where
  "toy_crypto = \<lparr>kec = (\<lambda>b. hash_of_bytes b), ecrecover = (\<lambda>h s. Some (0 # s))\<rparr>"

theorem validator_set_operations_witness:
  "members (snd (AddValidator toy_crypto 9 (newDefaultSet toy_crypto [5, 7, 6] RoundRobin))) = {9, 5, 7, 6} \<and>
   members (snd (RemoveValidator 9 (newDefaultSet toy_crypto [5, 7, 6] RoundRobin))) = {5, 7, 6}"
proof -
  have "valset_ok toy_crypto (newDefaultSet toy_crypto [5, 7, 6] RoundRobin)"
    by (rule newDefaultSet_ok) simp
  from validator_set_operations [OF this, of 9] show ?thesis by simp
qed

text \<open>C20. With round robin every window of as many rounds as there are validators gives each
  validator a turn as proposer, whoever proposed last.\<close>

theorem round_robin_everyone_proposes:
  assumes "vs_Size v \<noteq> 0" and "2 * vs_Size v + r0 + 1 < 2 ^ 64"
  shows "(\<lambda>r. roundRobinProposer v lastProposer r) ` {r0..<r0 + vs_Size v} = Some ` members v"
proof -
  have "vs_Size v + r0 + 1 < 2 ^ 64" using assms(2) by simp
  from roundRobin_index [OF assms(1) this] obtain k where
    k: "\<forall>r. vs_Size v + r + 1 < 2 ^ 64 \<longrightarrow>
       roundRobinProposer v lastProposer r = Some (vs_validators v ! ((k + r) mod vs_Size v))" by blast
  let ?n = "vs_Size v"
  have "(\<lambda>r. roundRobinProposer v lastProposer r) ` {r0..<r0 + ?n} =
      (\<lambda>r. Some (vs_validators v ! ((k + r) mod ?n))) ` {r0..<r0 + ?n}"
    using k assms(2) by (intro image_cong) auto
  also have "\<dots> = (\<lambda>i. Some (vs_validators v ! i)) ` ((\<lambda>r. (k + r) mod ?n) ` {r0..<r0 + ?n})"
    by (simp add: image_image)
  also have "\<dots> = (\<lambda>i. Some (vs_validators v ! i)) ` {..<?n}"
    using assms(1) mod_shift_image [of ?n k r0] by simp
  also have "\<dots> = Some ` members v"
    by (auto simp: vs_Size_def in_set_conv_nth image_iff)
  finally show ?thesis .
qed

theorem round_robin_everyone_proposes_witness:
  "(\<lambda>r. roundRobinProposer \<lparr>vs_validators = [7, 5, 6], vs_proposer = None, vs_selector = RoundRobin\<rparr> 5 r) ` {9..<9 + 3}
   = Some ` {7, 5, 6}"
  using round_robin_everyone_proposes
    [of "\<lparr>vs_validators = [7, 5, 6], vs_proposer = None, vs_selector = RoundRobin\<rparr>" 9 5]
  by (simp add: vs_Size_def)

text \<open>C19. Any two quorums share more members than the \<open>F\<close> faulty ones the code tolerates, and so a
  correct validator, exactly when the number of validators is one more than a multiple of three: the
  rounded-up third less one that \<^verbatim>\<open>F\<close> computes together with the test of more than \<open>2 F\<close> messages is
  safe at the sizes \<open>3 F + 1\<close> only. At every other positive size there are two quorums whose common
  members may all be faulty.\<close>

theorem quorums_share_correct_iff:
  assumes "valset_ok cr v" "vs_Size v \<noteq> 0"
  shows "(\<forall>A B. is_quorum v A \<and> is_quorum v B \<longrightarrow> vs_F v < int (card (A \<inter> B))) \<longleftrightarrow> vs_Size v mod 3 = 1"
proof
  assume all: "\<forall>A B. is_quorum v A \<and> is_quorum v B \<longrightarrow> vs_F v < int (card (A \<inter> B))"
  obtain A B where "is_quorum v A" "is_quorum v B" "card (A \<inter> B) \<le> 2 * nat (2 * vs_F v + 1) - vs_Size v"
    using least_overlap [OF assms] by blast
  with all have "vs_F v < int (2 * nat (2 * vs_F v + 1) - vs_Size v)" by fastforce
  moreover have "0 \<le> vs_F v" "3 * vs_F v + 1 \<le> int (vs_Size v)"
    using assms(2) vs_F_bounds(1) [of v] by (auto simp: vs_F_def)
  ultimately have "int (vs_Size v) = 3 * vs_F v + 1" by linarith
  then show "vs_Size v mod 3 = 1" by presburger
next
  assume n: "vs_Size v mod 3 = 1"
  show "\<forall>A B. is_quorum v A \<and> is_quorum v B \<longrightarrow> vs_F v < int (card (A \<inter> B))"
  proof (intro allI impI)
    fix A B assume "is_quorum v A \<and> is_quorum v B"
    then have "2 * nat (2 * vs_F v + 1) \<le> card (A \<inter> B) + vs_Size v"
      using vquorum.overlap [of v A B] vs_Size_card [OF assms(1)] by simp
    moreover have "int (vs_Size v) = 3 * vs_F v + 1" using n unfolding vs_F_def by presburger
    ultimately show "vs_F v < int (card (A \<inter> B))" by linarith
  qed
qed

theorem quorums_share_correct_iff_witness:
  "vs_F (newDefaultSet toy_crypto [1, 2, 3, 4] RoundRobin) < int (card ({1, 2, 3} \<inter> {2, 3, 4 :: address})) \<and>
   (\<exists>A B. is_quorum (newDefaultSet toy_crypto [1, 2, 3, 4, 5] RoundRobin) A \<and>
      is_quorum (newDefaultSet toy_crypto [1, 2, 3, 4, 5] RoundRobin) B \<and> card (A \<inter> B) \<le> 1)"
proof -
  let ?v = "newDefaultSet toy_crypto [1, 2, 3, 4] RoundRobin" and ?w = "newDefaultSet toy_crypto [1, 2, 3, 4, 5] RoundRobin"
  have size: "vs_Size ?v = 4" "vs_Size ?w = 5" by (simp_all add: vs_Size_def newDefaultSet_def Let_def)
  then have f: "vs_F ?v = 1" "vs_F ?w = 1" by (simp_all add: vs_F_def)
  have ok: "valset_ok toy_crypto ?v" "valset_ok toy_crypto ?w" by (rule newDefaultSet_ok; simp)+
  have "is_quorum ?v {1, 2, 3}" "is_quorum ?v {2, 3, 4}" by (simp_all add: is_quorum_def f)
  then have "vs_F ?v < int (card ({1, 2, 3} \<inter> {2, 3, 4 :: address}))"
    using quorums_share_correct_iff [OF ok(1)] size(1) by fastforce
  moreover have "\<exists>A B. is_quorum ?w A \<and> is_quorum ?w B \<and> \<not> vs_F ?w < int (card (A \<inter> B))"
    using quorums_share_correct_iff [OF ok(2)] size(2) by simp
  ultimately show ?thesis unfolding f(2) by (simp add: not_less)
qed

text \<open>C31. The quorum test of more than \<open>2 F\<close> messages, with \<open>F\<close> the rounded-up third less one, admits two
  disjoint quorums exactly for sets of two, three or six validators (and for the empty set).\<close>

theorem disjoint_quorums_iff:
  assumes "valset_ok cr v"
  shows "(\<exists>A B. is_quorum v A \<and> is_quorum v B \<and> A \<inter> B = {}) \<longleftrightarrow> vs_Size v \<in> {0, 2, 3, 6}"
proof
  assume "\<exists>A B. is_quorum v A \<and> is_quorum v B \<and> A \<inter> B = {}"
  then obtain A B where q: "is_quorum v A" "is_quorum v B" "A \<inter> B = {}" by blast
  have "2 * nat (2 * vs_F v + 1) \<le> vs_Size v"
    using vquorum.overlap [OF q(1,2)] vs_Size_card [OF assms] q(3) by simp
  then have "4 * ((int (vs_Size v) + 2) div 3) \<le> int (vs_Size v) + 2" by (simp add: vs_F_def)
  then show "vs_Size v \<in> {0, 2, 3, 6}" by (simp, presburger)
next
  let ?l = "vs_validators v" and ?k = "nat (2 * vs_F v + 1)"
  assume n: "vs_Size v \<in> {0, 2, 3, 6}"
  have l: "length ?l = vs_Size v" "distinct ?l" using assms by (simp_all add: vs_Size_def valset_ok_def)
  have "set (take ?k ?l) \<inter> set (drop ?k ?l) = {}" using l(2) by (metis append_take_drop_id distinct_append)
  moreover have "int (card (set (take ?k ?l))) > 2 * vs_F v" "int (card (set (drop ?k ?l))) > 2 * vs_F v"
    using n l by (auto simp: distinct_card vs_F_def)
  ultimately show "\<exists>A B. is_quorum v A \<and> is_quorum v B \<and> A \<inter> B = {}"
    by (intro exI [of _ "set (take ?k ?l)"] exI [of _ "set (drop ?k ?l)"])
      (auto simp: is_quorum_def dest: in_set_takeD in_set_dropD)
qed

theorem disjoint_quorums_iff_witness:
  "\<exists>A B. is_quorum (newDefaultSet toy_crypto [1, 2, 3, 4, 5, 6] RoundRobin) A \<and>
     is_quorum (newDefaultSet toy_crypto [1, 2, 3, 4, 5, 6] RoundRobin) B \<and> A \<inter> B = {}"
proof -
  let ?v = "newDefaultSet toy_crypto [1, 2, 3, 4, 5, 6] RoundRobin"
  have "vs_Size ?v = 6" by (simp add: vs_Size_def newDefaultSet_def Let_def)
  moreover have "valset_ok toy_crypto ?v" by (rule newDefaultSet_ok) simp
  ultimately show ?thesis using disjoint_quorums_iff [of toy_crypto ?v] by simp
qed

end
