(* ===== verification/Go_Heap.thy ===== *)
theory Go_Heap
  imports Chain_Types
begin

text \<open>
  The binary heap of the Go library (\<^verbatim>\<open>container/heap\<close>) over a slice, as the priority queues of
  the node use it: the vendored \<^verbatim>\<open>prque\<close> (backlogs and pending requests of the consensus core)
  and the nonce and price heaps of the transaction pool. The comparison \<^verbatim>\<open>Less(i, j)\<close> of every
  one of them compares a key of the elements, so the model takes the key function.
\<close>

section \<open>Sifting\<close>

definition parent :: "nat \<Rightarrow> nat" where
  "parent j = (j - 1) div 2"

definition swap :: "'a list \<Rightarrow> nat \<Rightarrow> nat \<Rightarrow> 'a list" where
  "swap xs i j = xs[i := xs ! j, j := xs ! i]"

lemma parent_less: "0 < j \<Longrightarrow> parent j < j"
  by (simp add: parent_def less_mult_imp_div_less)

function heap_up :: "('a \<Rightarrow> 'k :: linorder) \<Rightarrow> 'a list \<Rightarrow> nat \<Rightarrow> 'a list" where
  "heap_up key h j =
     (if j = 0 \<or> \<not> key (h ! j) < key (h ! parent j) then h
      else heap_up key (swap h (parent j) j) (parent j))"
  by pat_completeness auto
termination
  by (relation "measure (\<lambda>(key, h, j). j)") (auto simp: parent_less)

declare heap_up.simps [simp del]

definition least_child :: "('a \<Rightarrow> 'k :: linorder) \<Rightarrow> nat \<Rightarrow> 'a list \<Rightarrow> nat \<Rightarrow> nat" where
  "least_child key n h i =
     (if 2 * i + 2 < n \<and> key (h ! (2 * i + 2)) < key (h ! (2 * i + 1)) then 2 * i + 2 else 2 * i + 1)"

text \<open>\<^verbatim>\<open>down\<close> returns the slice and the index the element ended at; Go returns whether that index
  differs from the one it started from.\<close>

function heap_down :: "('a \<Rightarrow> 'k :: linorder) \<Rightarrow> nat \<Rightarrow> 'a list \<Rightarrow> nat \<Rightarrow> 'a list \<times> nat" where
  "heap_down key n h i =
     (if 2 * i + 1 \<ge> n then (h, i)
      else
        (let j = least_child key n h i in
         if \<not> key (h ! j) < key (h ! i) then (h, i) else heap_down key n (swap h i j) j))"
  by pat_completeness auto
termination
  by (relation "measure (\<lambda>(key, n, h, i). n - i)") (auto simp: least_child_def)

declare heap_down.simps [simp del]

section \<open>Operations\<close>

definition heap_Push :: "('a \<Rightarrow> 'k :: linorder) \<Rightarrow> 'a \<Rightarrow> 'a list \<Rightarrow> 'a list" where
  "heap_Push key x h = heap_up key (h @ [x]) (length h)"

text \<open>Popping from an empty heap panics.\<close>

definition heap_Pop :: "('a \<Rightarrow> 'k :: linorder) \<Rightarrow> 'a list \<Rightarrow> ('a \<times> 'a list) option" where
  "heap_Pop key h =
     (if h = [] then None
      else
        (let n = length h - 1; h1 = fst (heap_down key n (swap h 0 n) 0)
         in Some (last h1, butlast h1)))"

definition heap_Fix :: "('a \<Rightarrow> 'k :: linorder) \<Rightarrow> 'a list \<Rightarrow> nat \<Rightarrow> 'a list" where
  "heap_Fix key h i =
     (case heap_down key (length h) h i of (h1, i1) \<Rightarrow> if i1 > i then h1 else heap_up key h1 i)"

fun heap_Init_from :: "('a \<Rightarrow> 'k :: linorder) \<Rightarrow> nat \<Rightarrow> 'a list \<Rightarrow> 'a list" where
  "heap_Init_from key 0 h = h"
| "heap_Init_from key (Suc i) h = heap_Init_from key i (fst (heap_down key (length h) h i))"

definition heap_Init :: "('a \<Rightarrow> 'k :: linorder) \<Rightarrow> 'a list \<Rightarrow> 'a list" where
  "heap_Init key h = heap_Init_from key (length h div 2) h"

section \<open>Nothing is lost\<close>

lemma length_swap [simp]: "length (swap h i j) = length h"
  by (simp add: swap_def)

lemma mset_swap_heap: "i < length h \<Longrightarrow> j < length h \<Longrightarrow> mset (swap h i j) = mset h"
  unfolding swap_def by (rule mset_swap)

lemma nth_swap:
  "i < length h \<Longrightarrow> j < length h \<Longrightarrow>
     swap h i j ! m = (if m = j then h ! i else if m = i then h ! j else h ! m)"
  by (cases "m < length h") (auto simp: swap_def nth_list_update)

lemma mset_heap_up: "j < length h \<Longrightarrow> mset (heap_up key h j) = mset h \<and> length (heap_up key h j) = length h"
proof (induction key h j rule: heap_up.induct)
  case (1 key h j)
  show ?case
  proof (cases "j = 0 \<or> \<not> key (h ! j) < key (h ! parent j)")
    case True
    then show ?thesis by (subst heap_up.simps) (simp add: heap_up.simps)
  next
    case False
    then have "parent j < j" by (simp add: parent_less)
    with 1 False show ?thesis by (simp add: heap_up.simps [of key h j] mset_swap_heap)
  qed
qed

lemma least_child_less: "2 * i + 1 < n \<Longrightarrow> least_child key n h i < n \<and> i < least_child key n h i"
  by (simp add: least_child_def)

lemma mset_heap_down:
  "i < length h \<Longrightarrow> n \<le> length h \<Longrightarrow>
     mset (fst (heap_down key n h i)) = mset h \<and> length (fst (heap_down key n h i)) = length h"
proof (induction key n h i rule: heap_down.induct)
  case (1 key n h i)
  let ?j = "least_child key n h i"
  show ?case
  proof (cases "2 * i + 1 \<ge> n \<or> \<not> key (h ! ?j) < key (h ! i)")
    case True
    then show ?thesis by (auto simp: heap_down.simps [of key n h i] Let_def)
  next
    case False
    then have "?j < n" using least_child_less [of i n key h] by simp
    with 1 False show ?thesis by (simp add: heap_down.simps [of key n h i] Let_def mset_swap_heap)
  qed
qed

text \<open>Sifting down within the first \<open>n\<close> elements leaves the others in place.\<close>

lemma heap_down_outside:
  "i < length h \<Longrightarrow> n \<le> length h \<Longrightarrow> i < n \<or> n \<le> 2 * i + 1 \<Longrightarrow> n \<le> m \<Longrightarrow> fst (heap_down key n h i) ! m = h ! m"
proof (induction key n h i rule: heap_down.induct)
  case (1 key n h i)
  let ?j = "least_child key n h i"
  show ?case
  proof (cases "2 * i + 1 \<ge> n \<or> \<not> key (h ! ?j) < key (h ! i)")
    case True
    then show ?thesis by (auto simp: heap_down.simps [of key n h i] Let_def)
  next
    case False
    then have "?j < n" "i < ?j" using least_child_less [of i n key h] by simp_all
    with 1 False show ?thesis by (simp add: heap_down.simps [of key n h i] Let_def nth_swap)
  qed
qed

section \<open>The heap order\<close>

definition heap_from :: "('a \<Rightarrow> 'k :: linorder) \<Rightarrow> nat \<Rightarrow> nat \<Rightarrow> 'a list \<Rightarrow> bool" where
  "heap_from key l n h \<longleftrightarrow>
     (\<forall>m. 0 < m \<and> m < n \<and> l \<le> parent m \<longrightarrow> key (h ! parent m) \<le> key (h ! m))"

abbreviation is_heap :: "('a \<Rightarrow> 'k :: linorder) \<Rightarrow> 'a list \<Rightarrow> bool" where
  "is_heap key h \<equiv> heap_from key 0 (length h) h"

definition up_inv :: "('a \<Rightarrow> 'k :: linorder) \<Rightarrow> nat \<Rightarrow> 'a list \<Rightarrow> bool" where
  "up_inv key j h \<longleftrightarrow>
     (\<forall>m. 0 < m \<and> m < length h \<and> m \<noteq> j \<longrightarrow> key (h ! parent m) \<le> key (h ! m)) \<and>
     (\<forall>m. 0 < m \<and> m < length h \<and> parent m = j \<and> 0 < j \<longrightarrow> key (h ! parent j) \<le> key (h ! m))"

lemma heap_up_heap: "j < length h \<Longrightarrow> up_inv key j h \<Longrightarrow> is_heap key (heap_up key h j)"
proof (induction key h j rule: heap_up.induct)
  case (1 key h j)
  show ?case
  proof (cases "j = 0 \<or> \<not> key (h ! j) < key (h ! parent j)")
    case True
    then have e: "heap_up key h j = h" by (auto simp: heap_up.simps [of key h j])
    show ?thesis unfolding e heap_from_def
      using 1(3) True by (metis linorder_not_less neq0_conv up_inv_def)
  next
    case False
    let ?p = "parent j" and ?h = "swap h (parent j) j"
    have p: "?p < j" using False by (simp add: parent_less)
    have "up_inv key ?p ?h"
      unfolding up_inv_def
    proof (intro conjI allI impI)
      fix m assume m: "0 < m \<and> m < length ?h \<and> m \<noteq> ?p"
      have pm: "parent m < m" using m by (simp add: parent_less)
      show "key (?h ! parent m) \<le> key (?h ! m)"
      proof (cases "m = j")
        case True
        then show ?thesis using False p 1(2) by (simp add: nth_swap)
      next
        case mj: False
        then have le: "key (h ! parent m) \<le> key (h ! m)" using 1(3) m by (simp add: up_inv_def)
        show ?thesis
        proof (cases "parent m = j")
          case True
          then have "key (h ! ?p) \<le> key (h ! m)" using 1(3) m False by (simp add: up_inv_def)
          then show ?thesis using True mj m p 1(2) by (simp add: nth_swap)
        next
          case pj: False
          show ?thesis
          proof (cases "parent m = ?p")
            case True
            then show ?thesis using le False mj m p 1(2) by (simp add: nth_swap)
          next
            case False
            then show ?thesis using le mj pj m p 1(2) by (simp add: nth_swap)
          qed
        qed
      qed
    next
      fix m assume m: "0 < m \<and> m < length ?h \<and> parent m = ?p \<and> 0 < ?p"
      have pp: "parent ?p < ?p" using m by (simp add: parent_less)
      have a: "key (h ! parent ?p) \<le> key (h ! ?p)" using 1(2,3) m p by (simp add: up_inv_def)
      have mp: "m \<noteq> ?p" using m parent_less [of m] by auto
      show "key (?h ! parent ?p) \<le> key (?h ! m)"
      proof (cases "m = j")
        case True
        then show ?thesis using a pp p 1(2) by (simp add: nth_swap)
      next
        case False
        then have "key (h ! ?p) \<le> key (h ! m)" using 1(3) m by (metis length_swap up_inv_def)
        then show ?thesis using a pp p mp False 1(2) m by (simp add: nth_swap)
      qed
    qed
    with 1 False p show ?thesis by (simp add: heap_up.simps [of key h j])
  qed
qed

definition down_inv :: "('a \<Rightarrow> 'k :: linorder) \<Rightarrow> nat \<Rightarrow> nat \<Rightarrow> nat \<Rightarrow> 'a list \<Rightarrow> bool" where
  "down_inv key l i n h \<longleftrightarrow>
     (\<forall>m. 0 < m \<and> m < n \<and> l \<le> parent m \<and> parent m \<noteq> i \<longrightarrow> key (h ! parent m) \<le> key (h ! m)) \<and>
     (\<forall>m. 0 < m \<and> m < n \<and> parent m = i \<and> 0 < i \<and> l \<le> parent i \<longrightarrow> key (h ! parent i) \<le> key (h ! m))"

lemma parent_cases: "0 < m \<Longrightarrow> parent m = i \<longleftrightarrow> m = 2 * i + 1 \<or> m = 2 * i + 2"
  by (auto simp: parent_def)

lemma least_child_le:
  assumes "2 * i + 1 < n" "0 < m" "m < n" "parent m = i"
  shows "key (h ! least_child key n h i) \<le> key (h ! m)"
  using assms by (auto simp: least_child_def parent_cases)

lemma parent_least_child: "parent (least_child key n h i) = i" "0 < least_child key n h i"
  by (auto simp: least_child_def parent_def)

lemma down_inv_stop:
  assumes "down_inv key l i n h" "2 * i + 1 \<ge> n \<or> \<not> key (h ! least_child key n h i) < key (h ! i)"
  shows "heap_from key l n h"
  unfolding heap_from_def
proof (intro allI impI)
  fix m assume m: "0 < m \<and> m < n \<and> l \<le> parent m"
  show "key (h ! parent m) \<le> key (h ! m)"
  proof (cases "parent m = i")
    case True
    then have "2 * i + 1 < n" using m by (auto simp: parent_cases)
    with least_child_le [OF this, of m key h] m True assms(2) show ?thesis by auto
  qed (use assms(1) m in \<open>simp add: down_inv_def\<close>)
qed

lemma down_inv_step:
  assumes inv: "down_inv key l i n h" and j: "j = least_child key n h i" and n: "2 * i + 1 < n" "n \<le> length h"
    and less: "key (h ! j) < key (h ! i)"
  shows "down_inv key l j n (swap h i j)"
proof -
  have ji: "j < n" "i < j" "parent j = i" using j least_child_less [OF n(1)] parent_least_child by metis+
  have nth: "swap h i j ! m = (if m = j then h ! i else if m = i then h ! j else h ! m)" for m
    using ji n by (simp add: nth_swap)
  have child: "key (h ! j) \<le> key (h ! m)" if "0 < m" "m < n" "parent m = i" for m
    using least_child_le [OF n(1) that] j by simp
  show ?thesis
    unfolding down_inv_def
  proof (intro conjI allI impI)
    fix m assume m: "0 < m \<and> m < n \<and> l \<le> parent m \<and> parent m \<noteq> j"
    have pm: "parent m < m" using m parent_less by simp
    show "key (swap h i j ! parent m) \<le> key (swap h i j ! m)"
    proof (cases "parent m = i")
      case True
      then show ?thesis using child [of m] m less ji pm unfolding nth by auto
    next
      case False
      then have le: "key (h ! parent m) \<le> key (h ! m)" using inv m by (simp add: down_inv_def)
      have "m \<noteq> j" using False ji by auto
      moreover have "key (h ! parent m) \<le> key (h ! j)" if "m = i"
        using inv ji that m by (auto simp: down_inv_def)
      ultimately show ?thesis using le False m unfolding nth by auto
    qed
  next
    fix m assume m: "0 < m \<and> m < n \<and> parent m = j \<and> 0 < j \<and> l \<le> parent j"
    have "m \<noteq> j" "m \<noteq> i" using m ji parent_less [of m] by auto
    moreover have "key (h ! j) \<le> key (h ! m)" using inv m ji by (auto simp: down_inv_def)
    ultimately show "key (swap h i j ! parent j) \<le> key (swap h i j ! m)" using ji unfolding nth by simp
  qed
qed

lemma heap_down_heap:
  "n \<le> length h \<Longrightarrow> down_inv key l i n h \<Longrightarrow> heap_from key l n (fst (heap_down key n h i))"
proof (induction key n h i rule: heap_down.induct)
  case (1 key n h i)
  let ?j = "least_child key n h i"
  show ?case
  proof (cases "2 * i + 1 \<ge> n \<or> \<not> key (h ! ?j) < key (h ! i)")
    case True
    then have "fst (heap_down key n h i) = h" by (auto simp: heap_down.simps [of key n h i] Let_def)
    with down_inv_stop [OF 1(3) True] show ?thesis by simp
  next
    case False
    then have "down_inv key l ?j n (swap h i ?j)" using 1(2,3) by (intro down_inv_step) auto
    with 1 False show ?thesis by (simp add: heap_down.simps [of key n h i] Let_def)
  qed
qed

lemma heap_min:
  assumes "is_heap key h" "m < length h"
  shows "key (h ! 0) \<le> key (h ! m)"
  using assms(2)
proof (induction m rule: less_induct)
  case (less m)
  show ?case
  proof (cases "m = 0")
    case False
    then have p: "parent m < m" by (simp add: parent_less)
    with less have "key (h ! 0) \<le> key (h ! parent m)" by simp
    also have "\<dots> \<le> key (h ! m)" using assms(1) less.prems False by (simp add: heap_from_def)
    finally show ?thesis .
  qed simp
qed

section \<open>The operations keep the heap\<close>

lemma heap_Push_heap:
  assumes "is_heap key h"
  shows "is_heap key (heap_Push key x h)" "mset (heap_Push key x h) = add_mset x (mset h)"
proof -
  have "up_inv key (length h) (h @ [x])"
    unfolding up_inv_def
  proof (intro conjI allI impI)
    fix m assume m: "0 < m \<and> m < length (h @ [x]) \<and> m \<noteq> length h"
    then have "parent m < length h" using parent_less [of m] by simp
    then show "key ((h @ [x]) ! parent m) \<le> key ((h @ [x]) ! m)"
      using m assms by (simp add: nth_append heap_from_def)
  next
    fix m assume m: "0 < m \<and> m < length (h @ [x]) \<and> parent m = length h \<and> 0 < length h"
    have "parent m < m" using m by (intro parent_less) simp
    with m have False by simp
    then show "key ((h @ [x]) ! parent (length h)) \<le> key ((h @ [x]) ! m)" ..
  qed
  then show "is_heap key (heap_Push key x h)"
    unfolding heap_Push_def by (intro heap_up_heap) simp_all
  show "mset (heap_Push key x h) = add_mset x (mset h)"
    using mset_heap_up [of "length h" "h @ [x]" key] by (simp add: heap_Push_def)
qed

lemma heap_Pop_heap:
  assumes "is_heap key h" "h \<noteq> []"
  shows "\<exists>h'. heap_Pop key h = Some (h ! 0, h') \<and> is_heap key h' \<and> mset h = add_mset (h ! 0) (mset h')"
proof -
  let ?n = "length h - 1"
  let ?s = "swap h 0 ?n" and ?d = "fst (heap_down key (length h - 1) (swap h 0 (length h - 1)) 0)"
  have n: "?n < length h" "0 < length h" using assms(2) by simp_all
  have m: "mset ?d = mset h" "length ?d = length h"
    using mset_heap_down [of 0 ?s ?n key] n by (simp_all add: mset_swap_heap)
  then have ne: "?d \<noteq> []" using n by auto
  have out: "?d ! ?n = h ! 0"
    using heap_down_outside [of 0 ?s ?n ?n key] n by (cases "?n = 0") (auto simp: nth_swap)
  have last: "last ?d = h ! 0" using out m(2) ne by (simp add: last_conv_nth)
  have "down_inv key 0 0 ?n ?s"
    unfolding down_inv_def
  proof (intro conjI allI impI)
    fix k assume k: "0 < k \<and> k < ?n \<and> 0 \<le> parent k \<and> parent k \<noteq> 0"
    then have "parent k < k" by (simp add: parent_less)
    moreover from k have "k < length h" "k \<noteq> ?n" "k \<noteq> 0" by auto
    moreover from this have "key (h ! parent k) \<le> key (h ! k)" using assms(1) by (simp add: heap_from_def)
    ultimately show "key (?s ! parent k) \<le> key (?s ! k)"
      using k n by (simp add: nth_swap)
  qed simp
  then have "heap_from key 0 ?n ?d" using n by (intro heap_down_heap) simp_all
  then have "is_heap key (butlast ?d)"
    using m(2) unfolding heap_from_def
    by (auto simp: nth_butlast dest: parent_less)
  moreover have "mset h = add_mset (h ! 0) (mset (butlast ?d))"
    using append_butlast_last_id [OF ne] last m(1) by (metis mset_append mset.simps(2) mset_single_iff_right
        union_mset_add_mset_right add.right_neutral mset.simps(1))
  ultimately show ?thesis using last assms(2) by (simp add: heap_Pop_def Let_def)
qed

lemma heap_Init_from_heap:
  "heap_from key i (length h) h \<Longrightarrow> i \<le> length h \<Longrightarrow>
     is_heap key (heap_Init_from key i h) \<and> mset (heap_Init_from key i h) = mset h"
proof (induction i arbitrary: h)
  case (Suc i)
  let ?d = "fst (heap_down key (length h) h i)"
  have d: "mset ?d = mset h" "length ?d = length h" using mset_heap_down [of i h "length h" key] Suc.prems by simp_all
  have "down_inv key i i (length h) h"
    unfolding down_inv_def
  proof (intro conjI allI impI)
    fix m assume "0 < m \<and> m < length h \<and> i \<le> parent m \<and> parent m \<noteq> i"
    then show "key (h ! parent m) \<le> key (h ! m)" using Suc.prems(1) by (simp add: heap_from_def)
  next
    fix m assume "0 < m \<and> m < length h \<and> parent m = i \<and> 0 < i \<and> i \<le> parent i"
    then show "key (h ! parent i) \<le> key (h ! m)" using parent_less [of i] by simp
  qed
  then have "heap_from key i (length h) ?d" by (intro heap_down_heap) simp_all
  with Suc.IH [of ?d] d Suc.prems show ?case by simp
qed simp

lemma heap_Init_heap: "is_heap key (heap_Init key h)" "mset (heap_Init key h) = mset h"
proof -
  have "heap_from key (length h div 2) (length h) h"
    by (auto simp: heap_from_def parent_def)
  then have "is_heap key (heap_Init_from key (length h div 2) h) \<and>
      mset (heap_Init_from key (length h div 2) h) = mset h"
    by (rule heap_Init_from_heap) simp
  then show "is_heap key (heap_Init key h)" "mset (heap_Init key h) = mset h"
    by (simp_all add: heap_Init_def)
qed

text \<open>Replacing the root and fixing it, as a shift to the account's next transaction does.\<close>

lemma heap_Fix_root:
  assumes "is_heap key h" "h \<noteq> []"
  shows "is_heap key (heap_Fix key (h[0 := x]) 0)" "mset (heap_Fix key (h[0 := x]) 0) = mset (h[0 := x])"
proof -
  let ?h = "h[0 := x]" and ?d = "fst (heap_down key (length h) (h[0 := x]) 0)"
  have e: "heap_Fix key ?h 0 = ?d" by (auto simp: heap_Fix_def heap_up.simps split: prod.splits)
  have "down_inv key 0 0 (length ?h) ?h"
    using assms(1) by (auto simp: down_inv_def heap_from_def nth_list_update)
  then have "heap_from key 0 (length h) ?d" using heap_down_heap [of "length ?h" ?h key 0 0] by simp
  moreover have "mset ?d = mset ?h" "length ?d = length h"
    using mset_heap_down [of 0 ?h "length h" key] assms(2) by simp_all
  ultimately show "is_heap key (heap_Fix key ?h 0)" "mset (heap_Fix key ?h 0) = mset ?h"
    unfolding e by simp_all
qed

section \<open>The priority queue interface\<close>

text \<open>What the clients of \<^verbatim>\<open>heap.Push\<close> and \<^verbatim>\<open>heap.Pop\<close> rely on. Popping everything yields the elements
  in order of their keys.\<close>

locale priority_queue =
  fixes inv :: "'q \<Rightarrow> bool" and elems :: "'q \<Rightarrow> 'a multiset" and key :: "'a \<Rightarrow> 'k :: linorder"
    and push :: "'a \<Rightarrow> 'q \<Rightarrow> 'q" and pop :: "'q \<Rightarrow> ('a \<times> 'q) option"
  assumes push_inv: "inv q \<Longrightarrow> inv (push x q)"
    and push_elems: "inv q \<Longrightarrow> elems (push x q) = add_mset x (elems q)"
    and pop_None: "inv q \<Longrightarrow> pop q = None \<longleftrightarrow> elems q = {#}"
    and pop_inv: "inv q \<Longrightarrow> pop q = Some (x, q') \<Longrightarrow> inv q'"
    and pop_elems: "inv q \<Longrightarrow> pop q = Some (x, q') \<Longrightarrow> elems q = add_mset x (elems q')"
    and pop_least: "inv q \<Longrightarrow> pop q = Some (x, q') \<Longrightarrow> y \<in># elems q \<Longrightarrow> key x \<le> key y"
begin

lemma push_pop_least: "inv q \<Longrightarrow> pop (push x q) = Some (y, q') \<Longrightarrow> key y \<le> key x"
  by (rule pop_least [OF push_inv]) (auto simp: push_elems)

lemma pop_exists: "inv q \<Longrightarrow> elems q \<noteq> {#} \<Longrightarrow> \<exists>x q'. pop q = Some (x, q') \<and> size (elems q') < size (elems q)"
  using pop_None [of q] pop_elems [of q] by (cases "pop q") fastforce+

lemma pop_ordered:
  "inv q \<Longrightarrow> pop q = Some (x, q') \<Longrightarrow> pop q' = Some (y, q'') \<Longrightarrow> key x \<le> key y"
  by (rule pop_least) (auto simp: pop_elems pop_inv)

end

lemma heap_Pop_Some:
  assumes "is_heap key h" "heap_Pop key h = Some (x, h')"
  shows "is_heap key h'" "mset h = add_mset x (mset h')" "\<forall>y \<in># mset h. key x \<le> key y"
proof -
  have ne: "h \<noteq> []" using assms(2) by (auto simp: heap_Pop_def)
  from heap_Pop_heap [OF assms(1) ne] assms(2)
  show "is_heap key h'" "mset h = add_mset x (mset h')" by auto
  have "x = h ! 0" using heap_Pop_heap [OF assms(1) ne] assms(2) by auto
  then show "\<forall>y \<in># mset h. key x \<le> key y" using heap_min [OF assms(1)] by (auto simp: in_set_conv_nth)
qed

interpretation go_heap: priority_queue "is_heap key" mset key "heap_Push key" "heap_Pop key"
  for key :: "'a \<Rightarrow> 'k :: linorder"
proof
  fix h x h' and y :: 'a
  assume h: "is_heap key h"
  show "is_heap key (heap_Push key x h)" "mset (heap_Push key x h) = add_mset x (mset h)"
    using heap_Push_heap [OF h] by simp_all
  show "heap_Pop key h = None \<longleftrightarrow> mset h = {#}" by (simp add: heap_Pop_def Let_def)
  assume p: "heap_Pop key h = Some (x, h')"
  show "is_heap key h'" "mset h = add_mset x (mset h')" using heap_Pop_Some [OF h p] by simp_all
  show "key x \<le> key y" if "y \<in># mset h" using heap_Pop_Some(3) [OF h p] that by blast
qed

section \<open>The prque package\<close>

text \<open>\<^verbatim>\<open>Prque\<close>: the greatest priority comes first, so the key is the negated priority. The blocks of the
  \<^verbatim>\<open>sstack\<close> are one list. A priority is a \<^verbatim>\<open>float32\<close>; every one the node computes is an integer that
  the type represents.\<close>

type_synonym 'a prque = "('a \<times> int) list"

abbreviation prque_key :: "'a \<times> int \<Rightarrow> int" where
  "prque_key \<equiv> (\<lambda>item. - snd item)"

definition prque_Push :: "'a \<Rightarrow> int \<Rightarrow> 'a prque \<Rightarrow> 'a prque" where
  "prque_Push data priority q = heap_Push prque_key (data, priority) q"

definition prque_Pop :: "'a prque \<Rightarrow> (('a \<times> int) \<times> 'a prque) option" where
  "prque_Pop q = heap_Pop prque_key q"

definition prque_Empty :: "'a prque \<Rightarrow> bool" where
  "prque_Empty q \<longleftrightarrow> length q = 0"

abbreviation prque_ok :: "'a prque \<Rightarrow> bool" where
  "prque_ok q \<equiv> is_heap prque_key q"

lemma prque_Push_ok: "prque_ok q \<Longrightarrow> prque_ok (prque_Push d p q)"
  and mset_prque_Push: "prque_ok q \<Longrightarrow> mset (prque_Push d p q) = add_mset (d, p) (mset q)"
  by (simp_all add: prque_Push_def go_heap.push_inv go_heap.push_elems)

lemma prque_Pop_ok:
  assumes "prque_ok q" "prque_Pop q = Some ((d, p), q')"
  shows "prque_ok q'" "mset q = add_mset (d, p) (mset q')" "length q = Suc (length q')"
    "\<forall>(e, r) \<in> set q. r \<le> p"
proof -
  have pop: "heap_Pop prque_key q = Some ((d, p), q')" using assms(2) by (simp add: prque_Pop_def)
  show "prque_ok q'" using go_heap.pop_inv [OF assms(1) pop] .
  show m: "mset q = add_mset (d, p) (mset q')" using go_heap.pop_elems [OF assms(1) pop] .
  show "length q = Suc (length q')" using arg_cong [OF m, of size] by simp
  show "\<forall>(e, r) \<in> set q. r \<le> p" using go_heap.pop_least [OF assms(1) pop] by fastforce
qed

lemma prque_Pop_exists: "prque_ok q \<Longrightarrow> \<not> prque_Empty q \<Longrightarrow> \<exists>d p q'. prque_Pop q = Some ((d, p), q')"
  using go_heap.pop_exists [of prque_key q] by (auto simp: prque_Empty_def prque_Pop_def)

section \<open>Properties\<close>

function heap_drain :: "('a \<Rightarrow> 'k :: linorder) \<Rightarrow> 'a list \<Rightarrow> 'a list" where
  "heap_drain key h = (case heap_Pop key h of None \<Rightarrow> [] | Some (x, h') \<Rightarrow> x # heap_drain key h')"
  by pat_completeness auto
termination
proof (relation "measure (\<lambda>(key, h). length h)", simp)
  fix key :: "'a \<Rightarrow> 'k :: linorder" and h y x h'
  assume p: "heap_Pop key h = Some y" "(x, h') = y"
  then have "h \<noteq> []" by (auto simp: heap_Pop_def)
  moreover have "length (fst (heap_down key (length h - 1) (swap h 0 (length h - 1)) 0)) = length h"
    using \<open>h \<noteq> []\<close> mset_heap_down [of 0 "swap h 0 (length h - 1)" "length h - 1" key] by simp
  ultimately have "length h' < length h" using p by (auto simp: heap_Pop_def Let_def)
  then show "((key, h'), key, h) \<in> measure (\<lambda>(key, h). length h)" by simp
qed

declare heap_drain.simps [simp del]

lemma heap_drain_sorted:
  "is_heap key h \<Longrightarrow> sorted (map key (heap_drain key h)) \<and> mset (heap_drain key h) = mset h"
proof (induction key h rule: heap_drain.induct)
  case (1 key h)
  show ?case
  proof (cases "heap_Pop key h")
    case None
    then have "h = []" by (auto simp: heap_Pop_def Let_def split: if_splits)
    with None show ?thesis by (subst heap_drain.simps, subst heap_drain.simps) simp
  next
    case (Some y)
    then obtain x h' where p: "heap_Pop key h = Some (x, h')" by (cases y) auto
    note pop = heap_Pop_Some [OF 1(2) p]
    have ih: "sorted (map key (heap_drain key h'))" "mset (heap_drain key h') = mset h'"
      using 1(1) [OF p refl pop(1)] by simp_all
    have "set (heap_drain key h') = set h'" using ih(2) by (metis set_mset_mset)
    then have "\<forall>y \<in> set (heap_drain key h'). key x \<le> key y" using pop(2,3) by simp
    with ih pop(2) p show ?thesis by (simp add: heap_drain.simps [of key h])
  qed
qed

lemma heap_sorts:
  "sorted (map key (heap_drain key (heap_Init key xs))) \<and> mset (heap_drain key (heap_Init key xs)) = mset xs"
  using heap_drain_sorted [OF heap_Init_heap(1)] heap_Init_heap(2) by metis

lemma prque_of_list:
  "prque_ok (fold (\<lambda>(d, p). prque_Push d p) xs q) \<and> mset (fold (\<lambda>(d, p). prque_Push d p) xs q) = mset q + mset xs"
  if "prque_ok q" for q :: "'a prque"
  using that by (induction xs arbitrary: q) (auto simp: prque_Push_ok mset_prque_Push)

text \<open>A queue filled in any order pops an item of the highest priority, keeps exactly the others, and
  stays a heap.\<close>

theorem prque_pops_highest_priority:
  assumes "prque_Pop (fold (\<lambda>(d, p). prque_Push d p) xs []) = Some ((d, p), q)"
  shows "mset xs = add_mset (d, p) (mset q) \<and> (\<forall>(e, r) \<in> set xs. r \<le> p) \<and> prque_ok q"
proof -
  let ?f = "fold (\<lambda>(d, p). prque_Push d p) xs []"
  have f: "prque_ok ?f" "mset ?f = mset xs"
    using prque_of_list [of "[]" xs] by (auto simp: heap_from_def)
  then have "set ?f = set xs" by (metis set_mset_mset)
  with prque_Pop_ok [OF f(1) assms] f(2) show ?thesis by simp
qed

theorem prque_pops_highest_priority_witness:
  "prque_Pop (fold (\<lambda>(d, p). prque_Push d p) [(''a'', - 7), (''b'', - 2), (''c'', - 5)] []) =
     Some ((''b'', - 2), [(''c'', - 5), (''a'', - 7)]) \<and>
   mset [(''a'', - 7), (''b'', - 2), (''c'', - 5)] =
     add_mset (''b'', - 2) (mset [(''c'', - 5), (''a'', - 7 :: int)])"
proof -
  have pop: "prque_Pop (fold (\<lambda>(d, p). prque_Push d p) [(''a'', - 7), (''b'', - 2), (''c'', - 5)] []) =
     Some ((''b'', - 2), [(''c'', - 5), (''a'', - 7)])" by code_simp
  from prque_pops_highest_priority [OF this] pop show ?thesis by simp
qed

end
