(* ===== verification/Istanbul_Types.thy ===== *)
theory Istanbul_Types
  imports Validator_Set Go_Heap
begin

text \<open>
  The messages of the Istanbul protocol (\<^verbatim>\<open>src/consensus/istanbul/types.go\<close>,
  \<^verbatim>\<open>src/consensus/istanbul/core/types.go\<close>) with their RLP codecs, the order on views and the
  priorities of backlog messages (\<^verbatim>\<open>core/backlog.go\<close>).

  A proposal is a block: \<^verbatim>\<open>Preprepare.DecodeRLP\<close> decodes a \<^verbatim>\<open>*types.Block\<close>, and the miner
  requests blocks. \<^verbatim>\<open>reflect.DeepEqual\<close> on subjects is equality of their values.
\<close>

section \<open>Views\<close>

record view =
  v_Round :: int
  v_Sequence :: int

definition view_Cmp :: "view \<Rightarrow> view \<Rightarrow> int" where
  "view_Cmp v y =
     (if big_Cmp (v_Sequence v) (v_Sequence y) \<noteq> 0 then big_Cmp (v_Sequence v) (v_Sequence y)
      else if big_Cmp (v_Round v) (v_Round y) \<noteq> 0 then big_Cmp (v_Round v) (v_Round y)
      else 0)"

definition view_rval :: "view \<Rightarrow> rval" where
  "view_rval v = RSlice [RBigPtr (Some (v_Round v)), RBigPtr (Some (v_Sequence v))]"

definition decodeView :: "view decoder" where
  "decodeView = structDecoder
     (dbind (struct_field decodeBigInt) (\<lambda>round.
      dbind (struct_field decodeBigInt) (\<lambda>sequence.
      dret \<lparr>v_Round = round, v_Sequence = sequence\<rparr>)))"

section \<open>Subjects, pre-prepares and round changes\<close>

record subject =
  sub_View :: view
  sub_Digest :: hash

definition subject_rval :: "subject \<Rightarrow> rval" where
  "subject_rval b = RSlice [view_rval (sub_View b), RBytes (hash_bytes (sub_Digest b))]"

definition decodeSubject :: "subject decoder" where
  "decodeSubject = structDecoder
     (dbind (struct_field decodeView) (\<lambda>view.
      dbind (struct_field decodeHash) (\<lambda>digest.
      dret \<lparr>sub_View = view, sub_Digest = digest\<rparr>)))"

record preprepare =
  pp_View :: view
  pp_Proposal :: block

definition preprepare_rval :: "preprepare \<Rightarrow> rval" where
  "preprepare_rval b = RSlice [view_rval (pp_View b), block_rval (pp_Proposal b)]"

definition decodePreprepare :: "preprepare decoder" where
  "decodePreprepare = structDecoder
     (dbind (struct_field decodeView) (\<lambda>view.
      dbind (struct_field decodeBlock) (\<lambda>proposal.
      dret \<lparr>pp_View = view, pp_Proposal = proposal\<rparr>)))"

record round_change =
  rc_Round :: int
  rc_Sequence :: int
  rc_Digest :: hash

definition roundChange_rval :: "round_change \<Rightarrow> rval" where
  "roundChange_rval rc = RSlice
     [RBigPtr (Some (rc_Round rc)), RBigPtr (Some (rc_Sequence rc)), RBytes (hash_bytes (rc_Digest rc))]"

definition decodeRoundChange :: "round_change decoder" where
  "decodeRoundChange = structDecoder
     (dbind (struct_field decodeBigInt) (\<lambda>round.
      dbind (struct_field decodeBigInt) (\<lambda>sequence.
      dbind (struct_field decodeHash) (\<lambda>digest.
      dret \<lparr>rc_Round = round, rc_Sequence = sequence, rc_Digest = digest\<rparr>))))"

section \<open>Messages\<close>

datatype ist_state = StateAcceptRequest | StatePreprepared | StatePrepared | StateCommitted

fun state_num :: "ist_state \<Rightarrow> nat" where
  "state_num StateAcceptRequest = 0"
| "state_num StatePreprepared = 1"
| "state_num StatePrepared = 2"
| "state_num StateCommitted = 3"

definition state_Cmp :: "ist_state \<Rightarrow> ist_state \<Rightarrow> int" where
  "state_Cmp s y =
     (if state_num s < state_num y then - 1 else if state_num s > state_num y then 1 else 0)"

abbreviation msgPreprepare :: nat where "msgPreprepare \<equiv> 0"
abbreviation msgPrepare :: nat where "msgPrepare \<equiv> 1"
abbreviation msgCommit :: nat where "msgCommit \<equiv> 2"
abbreviation msgRoundChange :: nat where "msgRoundChange \<equiv> 3"

record message =
  m_Code :: nat
  m_Msg :: bytes
  m_Address :: address
  m_Signature :: bytes
  m_CommittedSeal :: bytes

definition message_rval :: "message \<Rightarrow> rval" where
  "message_rval m = RSlice
     [RUint (m_Code m), RBytes (m_Msg m), RBytes (addr_bytes (m_Address m)), RBytes (m_Signature m),
      RBytes (m_CommittedSeal m)]"

definition decodeMessage :: "message decoder" where
  "decodeMessage = structDecoder
     (dbind (struct_field (decodeUint 64)) (\<lambda>code.
      dbind (struct_field decodeByteSlice) (\<lambda>msg.
      dbind (struct_field decodeAddress) (\<lambda>addr.
      dbind (struct_field decodeByteSlice) (\<lambda>sig.
      dbind (struct_field decodeByteSlice) (\<lambda>seal.
      dret \<lparr>m_Code = code, m_Msg = msg, m_Address = addr, m_Signature = sig,
            m_CommittedSeal = seal\<rparr>))))))"

definition Payload :: "message \<Rightarrow> rlp_encode_error + bytes" where
  "Payload m = EncodeToBytes (message_rval m)"

definition PayloadNoSig :: "message \<Rightarrow> rlp_encode_error + bytes" where
  "PayloadNoSig m = EncodeToBytes (message_rval (m\<lparr>m_Signature := []\<rparr>))"

text \<open>\<^verbatim>\<open>FromPayload\<close> decodes the message and validates its signature; the address the validation
  function returns is dropped.\<close>

datatype payload_error = PayloadDecode rlp_error | PayloadEncode rlp_encode_error | PayloadSig istanbul_error

definition FromPayload ::
  "bytes \<Rightarrow> (bytes \<Rightarrow> bytes \<Rightarrow> istanbul_error + address) option \<Rightarrow> payload_error + message" where
  "FromPayload b validateFn =
     (case DecodeBytes b decodeMessage of
        Inl e \<Rightarrow> Inl (PayloadDecode e)
      | Inr m \<Rightarrow>
          (case validateFn of
             None \<Rightarrow> Inr m
           | Some f \<Rightarrow>
               (case PayloadNoSig m of
                  Inl e \<Rightarrow> Inl (PayloadEncode e)
                | Inr payload \<Rightarrow>
                    (case f payload (m_Signature m) of
                       Inl e \<Rightarrow> Inl (PayloadSig e)
                     | Inr _ \<Rightarrow> Inr m))))"

definition RLPHash :: "crypto \<Rightarrow> rval \<Rightarrow> hash" where
  "RLPHash cr v = kec cr (case EncodeToBytes v of Inr b \<Rightarrow> b | Inl e \<Rightarrow> [])"

definition PrepareCommittedSeal :: "hash \<Rightarrow> bytes" where
  "PrepareCommittedSeal h = hash_bytes h @ [of_nat msgCommit]"

section \<open>Priorities\<close>

text \<open>The conversion of an integer to \<^verbatim>\<open>float32\<close> rounds to 24 significant bits, halfway cases to
  the even neighbour.\<close>

fun bitlen :: "nat \<Rightarrow> nat" where
  "bitlen n = (if n = 0 then 0 else Suc (bitlen (n div 2)))"

declare bitlen.simps [simp del]

definition float32 :: "nat \<Rightarrow> nat" where
  "float32 n =
     (let e = bitlen n - 24; q = n div 2 ^ e; r = n mod 2 ^ e; half = 2 ^ (e - 1)
      in if e = 0 then n
         else if r > half \<or> (r = half \<and> odd q) then (q + 1) * 2 ^ e else q * 2 ^ e)"

definition float32_int :: "int \<Rightarrow> int" where
  "float32_int i = (if i < 0 then - int (float32 (nat (- i))) else int (float32 (nat i)))"

fun msgPriority :: "nat \<Rightarrow> nat" where
  "msgPriority code = (if code = msgPreprepare then 1 else if code = msgCommit then 2
     else if code = msgPrepare then 3 else 0)"

definition toPriority :: "nat \<Rightarrow> view \<Rightarrow> int" where
  "toPriority msgCode v =
     - int (float32 ((big_Uint64 (v_Sequence v) * 1000 + big_Uint64 (v_Round v) * 10 + msgPriority msgCode)
         mod 2 ^ 64))"

section \<open>Codecs\<close>

definition view_ok :: "view \<Rightarrow> bool" where
  "view_ok v \<longleftrightarrow> 0 \<le> v_Round v \<and> 0 \<le> v_Sequence v \<and> length (enc_spec (view_rval v)) < 2 ^ 64"

lemma enc_view:
  "enc_spec (view_rval v) = enc_list (enc_nat (nat (v_Round v)) @ enc_nat (nat (v_Sequence v)) @ [])"
  by (simp add: view_rval_def)

lemma reads_View:
  assumes "view_ok v"
  shows "reads decodeView (enc_spec (view_rval v)) v"
proof -
  have total: "length (enc_spec (view_rval v)) < 2 ^ 64" using assms by (simp add: view_ok_def)
  have bigs: "reads decodeBigInt (enc_nat (nat (v_Round v))) (v_Round v)"
    "reads decodeBigInt (enc_nat (nat (v_Sequence v))) (v_Sequence v)"
    using assms total unfolding enc_view by (auto simp: view_ok_def enc_list_def intro: reads_Big)
  show ?thesis unfolding decodeView_def enc_view
    apply (rule reads_struct)
     apply (rule reads_bind, rule reads_field, rule bigs)+
     apply (rule reads_ret_eq, cases v, simp)
    using total unfolding enc_view by (simp add: enc_list_def)
qed

lemma canonical_View: "canonical decodeView (\<lambda>v. enc_spec (view_rval v))"
  unfolding decodeView_def enc_view
  apply (rule canonical_struct)
  apply (rule canonical_bind' [where proj = v_Round, OF canonical_field [OF canonical_BigInt]])
   apply (rule canonical_bind' [where proj = v_Sequence, OF canonical_field [OF canonical_BigInt]])
    apply (rule canonical_ret)
   apply (fastforce simp: dbind_Inr)+
  done

interpretation view_codec: strict_codec decodeView "\<lambda>v. enc_spec (view_rval v)" view_ok
  by unfold_locales (rule reads_View canonical_View; assumption?)+

definition subject_ok :: "subject \<Rightarrow> bool" where
  "subject_ok b \<longleftrightarrow> view_ok (sub_View b) \<and> length (enc_spec (subject_rval b)) < 2 ^ 64"

lemma enc_subject:
  "enc_spec (subject_rval b) =
     enc_list (enc_spec (view_rval (sub_View b)) @ enc_string (hash_bytes (sub_Digest b)) @ [])"
  by (simp add: subject_rval_def)

lemma reads_Subject:
  assumes "subject_ok b"
  shows "reads decodeSubject (enc_spec (subject_rval b)) b"
proof -
  have total: "length (enc_spec (subject_rval b)) < 2 ^ 64" using assms by (simp add: subject_ok_def)
  have v: "reads decodeView (enc_spec (view_rval (sub_View b))) (sub_View b)"
    using assms by (simp add: subject_ok_def reads_View)
  show ?thesis unfolding decodeSubject_def enc_subject
    apply (rule reads_struct)
     apply (rule reads_bind, rule reads_field, rule v reads_Hash)+
     apply (rule reads_ret_eq, cases b, simp)
    using total unfolding enc_subject by (simp add: enc_list_def)
qed

lemma canonical_Subject: "canonical decodeSubject (\<lambda>b. enc_spec (subject_rval b))"
  unfolding decodeSubject_def enc_subject
  apply (rule canonical_struct)
  apply (rule canonical_bind' [where proj = sub_View, OF canonical_field [OF canonical_View]])
   apply (rule canonical_bind' [where proj = sub_Digest, OF canonical_field [OF canonical_Hash]])
    apply (rule canonical_ret)
   apply (fastforce simp: dbind_Inr)+
  done

interpretation subject_codec: strict_codec decodeSubject "\<lambda>b. enc_spec (subject_rval b)" subject_ok
  by unfold_locales (rule reads_Subject canonical_Subject; assumption?)+

definition roundChange_ok :: "round_change \<Rightarrow> bool" where
  "roundChange_ok rc \<longleftrightarrow>
     0 \<le> rc_Round rc \<and> 0 \<le> rc_Sequence rc \<and> length (enc_spec (roundChange_rval rc)) < 2 ^ 64"

lemma enc_roundChange:
  "enc_spec (roundChange_rval rc) =
     enc_list (enc_nat (nat (rc_Round rc)) @ enc_nat (nat (rc_Sequence rc)) @
       enc_string (hash_bytes (rc_Digest rc)) @ [])"
  by (simp add: roundChange_rval_def)

lemma reads_RoundChange:
  assumes "roundChange_ok rc"
  shows "reads decodeRoundChange (enc_spec (roundChange_rval rc)) rc"
proof -
  have total: "length (enc_spec (roundChange_rval rc)) < 2 ^ 64" using assms by (simp add: roundChange_ok_def)
  have bigs: "reads decodeBigInt (enc_nat (nat (rc_Round rc))) (rc_Round rc)"
    "reads decodeBigInt (enc_nat (nat (rc_Sequence rc))) (rc_Sequence rc)"
    using assms total unfolding enc_roundChange by (auto simp: roundChange_ok_def enc_list_def intro: reads_Big)
  show ?thesis unfolding decodeRoundChange_def enc_roundChange
    apply (rule reads_struct)
     apply (rule reads_bind, rule reads_field, rule bigs reads_Hash)+
     apply (rule reads_ret_eq, cases rc, simp)
    using total unfolding enc_roundChange by (simp add: enc_list_def)
qed

lemma canonical_RoundChange: "canonical decodeRoundChange (\<lambda>rc. enc_spec (roundChange_rval rc))"
  unfolding decodeRoundChange_def enc_roundChange
  apply (rule canonical_struct)
  apply (rule canonical_bind' [where proj = rc_Round, OF canonical_field [OF canonical_BigInt]])
   apply (rule canonical_bind' [where proj = rc_Sequence, OF canonical_field [OF canonical_BigInt]])
    apply (rule canonical_bind' [where proj = rc_Digest, OF canonical_field [OF canonical_Hash]])
     apply (rule canonical_ret)
    apply (fastforce simp: dbind_Inr)+
  done

interpretation roundChange_codec: strict_codec decodeRoundChange "\<lambda>rc. enc_spec (roundChange_rval rc)" roundChange_ok
  by unfold_locales (rule reads_RoundChange canonical_RoundChange; assumption?)+

definition preprepare_ok :: "preprepare \<Rightarrow> bool" where
  "preprepare_ok b \<longleftrightarrow>
     view_ok (pp_View b) \<and> block_ok (pp_Proposal b) \<and> length (enc_spec (preprepare_rval b)) < 2 ^ 64"

lemma enc_preprepare:
  "enc_spec (preprepare_rval b) =
     enc_list (enc_spec (view_rval (pp_View b)) @ enc_spec (block_rval (pp_Proposal b)) @ [])"
  by (simp add: preprepare_rval_def)

lemma reads_Preprepare:
  assumes "preprepare_ok b"
  shows "reads decodePreprepare (enc_spec (preprepare_rval b)) b"
proof -
  have total: "length (enc_spec (preprepare_rval b)) < 2 ^ 64" using assms by (simp add: preprepare_ok_def)
  have v: "reads decodeView (enc_spec (view_rval (pp_View b))) (pp_View b)"
    "reads decodeBlock (enc_spec (block_rval (pp_Proposal b))) (pp_Proposal b)"
    using assms by (simp_all add: preprepare_ok_def reads_View reads_Block)
  show ?thesis unfolding decodePreprepare_def enc_preprepare
    apply (rule reads_struct)
     apply (rule reads_bind, rule reads_field, rule v)+
     apply (rule reads_ret_eq, cases b, simp)
    using total unfolding enc_preprepare by (simp add: enc_list_def)
qed

interpretation preprepare_codec: rlp_codec decodePreprepare "\<lambda>b. enc_spec (preprepare_rval b)" preprepare_ok
  by unfold_locales (rule reads_Preprepare)

definition message_ok :: "message \<Rightarrow> bool" where
  "message_ok m \<longleftrightarrow> m_Code m < 2 ^ 64 \<and> length (enc_spec (message_rval m)) < 2 ^ 64"

lemma enc_message:
  "enc_spec (message_rval m) =
     enc_list (enc_nat (m_Code m) @ enc_string (m_Msg m) @ enc_string (addr_bytes (m_Address m)) @
       enc_string (m_Signature m) @ enc_string (m_CommittedSeal m) @ [])"
  by (simp add: message_rval_def)

lemma reads_Message:
  assumes "message_ok m"
  shows "reads decodeMessage (enc_spec (message_rval m)) m"
proof -
  have total: "length (enc_spec (message_rval m)) < 2 ^ 64" using assms by (simp add: message_ok_def)
  have strs: "reads decodeByteSlice (enc_string (m_Msg m)) (m_Msg m)"
    "reads decodeByteSlice (enc_string (m_Signature m)) (m_Signature m)"
    "reads decodeByteSlice (enc_string (m_CommittedSeal m)) (m_CommittedSeal m)"
    using total unfolding enc_message by (auto simp: enc_list_def intro: reads_Str)
  have code: "reads (decodeUint 64) (enc_nat (m_Code m)) (m_Code m)"
    using assms by (simp add: message_ok_def reads_Uint)
  show ?thesis unfolding decodeMessage_def enc_message
    apply (rule reads_struct)
     apply (rule reads_bind, rule reads_field, rule code strs reads_Address)+
     apply (rule reads_ret_eq, cases m, simp)
    using total unfolding enc_message by (simp add: enc_list_def)
qed

lemma canonical_Uint: "canonical (decodeUint n) enc_nat"
  unfolding decodeUint_def by (intro canonical_wrapped canonical_uint)

lemma canonical_Message: "canonical decodeMessage (\<lambda>m. enc_spec (message_rval m))"
  unfolding decodeMessage_def enc_message
  apply (rule canonical_struct)
  apply (rule canonical_bind' [where proj = m_Code, OF canonical_field [OF canonical_Uint]])
   apply (rule canonical_bind' [where proj = m_Msg, OF canonical_field [OF canonical_ByteSlice]])
    apply (rule canonical_bind' [where proj = m_Address, OF canonical_field [OF canonical_Address]])
     apply (rule canonical_bind' [where proj = m_Signature, OF canonical_field [OF canonical_ByteSlice]])
      apply (rule canonical_bind' [where proj = m_CommittedSeal, OF canonical_field [OF canonical_ByteSlice]])
       apply (rule canonical_ret)
      apply (fastforce simp: dbind_Inr)+
  done

interpretation message_codec: strict_codec decodeMessage "\<lambda>m. enc_spec (message_rval m)" message_ok
  by unfold_locales (rule reads_Message canonical_Message; assumption?)+

lemma encodable_message: "m_Code m < 2 ^ 64 \<Longrightarrow> encodable (message_rval m)"
  by (simp add: message_rval_def)

lemma Payload_ok: "message_ok m \<Longrightarrow> Payload m = Inr (enc_spec (message_rval m))"
  using EncodeToBytes_enc_spec [OF encodable_message] by (simp add: Payload_def message_ok_def)

section \<open>The order of views\<close>

lemma view_Cmp_iff [simp]:
  "view_Cmp v w = 0 \<longleftrightarrow> v = w"
  "view_Cmp v w < 0 \<longleftrightarrow> v_Sequence v < v_Sequence w \<or> v_Sequence v = v_Sequence w \<and> v_Round v < v_Round w"
  "0 < view_Cmp v w \<longleftrightarrow> v_Sequence w < v_Sequence v \<or> v_Sequence w = v_Sequence v \<and> v_Round w < v_Round v"
  by (cases v; cases w; auto simp: view_Cmp_def)+

definition view_le :: "view \<Rightarrow> view \<Rightarrow> bool" where
  "view_le v w \<longleftrightarrow> view_Cmp v w \<le> 0"

lemma view_le_iff:
  "view_le v w \<longleftrightarrow> v_Sequence v < v_Sequence w \<or> v_Sequence v = v_Sequence w \<and> v_Round v \<le> v_Round w"
  unfolding view_le_def le_less view_Cmp_iff by (cases v; cases w; auto)

lemma view_le_refl [simp]: "view_le v v"
  and view_le_trans: "view_le u v \<Longrightarrow> view_le v w \<Longrightarrow> view_le u w"
  by (auto simp: view_le_iff)

section \<open>Signatures\<close>

lemma CheckValidatorSignature_Inr:
  "CheckValidatorSignature cr v data sig = Inr a \<longleftrightarrow>
     (\<exists>pub. ecrecover cr (kec cr data) sig = Some pub \<and> a = PubkeyToAddress cr pub \<and> a \<in> members v)"
proof (cases "ecrecover cr (kec cr data) sig")
  case None
  then show ?thesis by (simp add: CheckValidatorSignature_def GetSignatureAddress_def)
next
  case (Some pub)
  obtain i r where g: "GetByAddress v (PubkeyToAddress cr pub) = (i, r)" by fastforce
  then have "r = (if PubkeyToAddress cr pub \<in> members v then Some (PubkeyToAddress cr pub) else None)"
    using snd_GetByAddress [of v "PubkeyToAddress cr pub"] by simp
  with Some g show ?thesis by (auto simp: CheckValidatorSignature_def GetSignatureAddress_def)
qed

section \<open>The order of priorities\<close>

lemma bitlen_le: "n < 2 ^ k \<Longrightarrow> bitlen n \<le> k"
proof (induction k arbitrary: n)
  case 0
  then show ?case by (simp add: bitlen.simps)
next
  case (Suc k)
  then have "n div 2 < 2 ^ k" by (simp add: less_mult_imp_div_less)
  with Suc.IH show ?case by (subst bitlen.simps) simp
qed

lemma float32_exact: "n < 2 ^ 24 \<Longrightarrow> float32 n = n"
  using bitlen_le [of n 24] by (simp add: float32_def Let_def)

lemma toPriority_exact:
  assumes "0 \<le> v_Round v" "v_Round v < 100" "0 \<le> v_Sequence v" "v_Sequence v < 16777"
  shows "toPriority c v = - (v_Sequence v * 1000 + v_Round v * 10 + int (msgPriority c))"
proof -
  have u: "big_Uint64 (v_Sequence v) = nat (v_Sequence v)" "big_Uint64 (v_Round v) = nat (v_Round v)"
    using assms by (simp_all add: big_Uint64_small)
  have "nat (v_Sequence v) < 16777" "nat (v_Round v) < 100" "msgPriority c \<le> 3" using assms by (auto simp: nat_less_iff)
  then have "nat (v_Sequence v) * 1000 + nat (v_Round v) * 10 + msgPriority c < 2 ^ 24" by simp
  then show ?thesis unfolding toPriority_def u using assms by (simp add: float32_exact)
qed

section \<open>Properties\<close>

text \<open>Consensus messages have exactly one payload: bytes decode to a message if and only if they
  are its payload, so a signed message cannot be rewritten into other bytes that decode alike.\<close>

theorem message_payload_unique:
  assumes "message_ok m"
  shows "DecodeBytes b decodeMessage = Inr m \<longleftrightarrow> Payload m = Inr b"
  using message_codec.decode_iff [OF assms] Payload_ok [OF assms] by auto

theorem message_payload_unique_witness:
  "DecodeBytes [0xDA, 0x02, 0x81, 0xC0, 0x94, 0, 0, 0, 0, 0, 0, 0, 0, 0, 0, 0, 0, 0, 0, 0, 0, 0, 0, 0, 7, 0x80, 0x01] decodeMessage =
     Inr \<lparr>m_Code = 2, m_Msg = [0xC0], m_Address = 7, m_Signature = [], m_CommittedSeal = [1]\<rparr> \<longleftrightarrow>
   Payload \<lparr>m_Code = 2, m_Msg = [0xC0], m_Address = 7, m_Signature = [], m_CommittedSeal = [1]\<rparr> =
     Inr [0xDA, 0x02, 0x81, 0xC0, 0x94, 0, 0, 0, 0, 0, 0, 0, 0, 0, 0, 0, 0, 0, 0, 0, 0, 0, 0, 0, 7, 0x80, 0x01]"
proof (rule message_payload_unique)
  have "length (enc_spec (message_rval \<lparr>m_Code = 2, m_Msg = [0xC0], m_Address = 7, m_Signature = [], m_CommittedSeal = [1]\<rparr>)) = 27"
    by code_simp
  then show "message_ok \<lparr>m_Code = 2, m_Msg = [0xC0], m_Address = 7, m_Signature = [], m_CommittedSeal = [1]\<rparr>"
    by (simp add: message_ok_def)
qed

text \<open>C32. Within the range the comment of \<^verbatim>\<open>toPriority\<close> and single precision allow (rounds below 100,
  sequences below 16777) the backlog priority orders messages by sequence, then round, then kind of
  message; at sequence 33555 a pre-prepare and a commit already get the same priority.\<close>

theorem toPriority_orders_views:
  assumes "0 \<le> v_Round v" "v_Round v < 100" "0 \<le> v_Sequence v" "v_Sequence v < 16777"
    and "0 \<le> v_Round w" "v_Round w < 100" "0 \<le> v_Sequence w" "v_Sequence w < 16777"
  shows "(toPriority a v > toPriority b w \<longleftrightarrow>
      v_Sequence v < v_Sequence w \<or> v_Sequence v = v_Sequence w \<and>
        (v_Round v < v_Round w \<or> v_Round v = v_Round w \<and> msgPriority a < msgPriority b)) \<and>
    toPriority msgPreprepare \<lparr>v_Round = 0, v_Sequence = 33555\<rparr> =
      toPriority msgCommit \<lparr>v_Round = 0, v_Sequence = 33555\<rparr>"
proof
  have "msgPriority a \<le> 3" "msgPriority b \<le> 3" by simp_all
  then show "toPriority a v > toPriority b w \<longleftrightarrow>
      v_Sequence v < v_Sequence w \<or> v_Sequence v = v_Sequence w \<and>
        (v_Round v < v_Round w \<or> v_Round v = v_Round w \<and> msgPriority a < msgPriority b)"
    unfolding toPriority_exact [OF assms(1-4)] toPriority_exact [OF assms(5-8)]
    using assms
    by (cases "v_Sequence v" "v_Sequence w" rule: linorder_cases;
        cases "v_Round v" "v_Round w" rule: linorder_cases; simp del: msgPriority.simps)
  show "toPriority msgPreprepare \<lparr>v_Round = 0, v_Sequence = 33555\<rparr> =
      toPriority msgCommit \<lparr>v_Round = 0, v_Sequence = 33555\<rparr>"
    by (simp add: toPriority_def big_Uint64_def float32_def bitlen.simps Let_def)
qed

theorem toPriority_orders_views_witness:
  "toPriority msgPreprepare \<lparr>v_Round = 1, v_Sequence = 9\<rparr> > toPriority msgPrepare \<lparr>v_Round = 1, v_Sequence = 9\<rparr>"
  using toPriority_orders_views [where v = "\<lparr>v_Round = 1, v_Sequence = 9\<rparr>" and
      w = "\<lparr>v_Round = 1, v_Sequence = 9\<rparr>" and a = msgPreprepare and b = msgPrepare] by simp

text \<open>C30. An accepted payload was signed by some validator: the signature on the message without its
  signature field recovers to a member of the set. Which member is not compared with the sender the
  message names: with the signature of any member over its bytes, a message is accepted whatever
  its address field says.\<close>

theorem FromPayload_accepts_iff_signed_by_validator:
  assumes "message_ok m" and "message_ok (m\<lparr>m_Signature := []\<rparr>)"
  shows "FromPayload (enc_spec (message_rval m)) (Some (CheckValidatorSignature cr v)) = Inr m \<longleftrightarrow>
    (\<exists>pub. ecrecover cr (kec cr (enc_spec (message_rval (m\<lparr>m_Signature := []\<rparr>)))) (m_Signature m) = Some pub \<and>
       PubkeyToAddress cr pub \<in> members v)"
proof -
  have d: "DecodeBytes (enc_spec (message_rval m)) decodeMessage = Inr m"
    using message_codec.decode_encode [OF assms(1)] .
  have p: "PayloadNoSig m = Inr (enc_spec (message_rval (m\<lparr>m_Signature := []\<rparr>)))"
    using Payload_ok [OF assms(2)] by (simp add: PayloadNoSig_def Payload_def)
  have "FromPayload (enc_spec (message_rval m)) (Some (CheckValidatorSignature cr v)) = Inr m \<longleftrightarrow>
    (\<exists>a. CheckValidatorSignature cr v (enc_spec (message_rval (m\<lparr>m_Signature := []\<rparr>))) (m_Signature m) = Inr a)"
    by (simp add: FromPayload_def d p split: sum.split)
  then show ?thesis by (auto simp: CheckValidatorSignature_Inr)
qed

definition forged_message :: message where
  "forged_message = \<lparr>m_Code = 2, m_Msg = [0xC0], m_Address = 9, m_Signature = [7], m_CommittedSeal = []\<rparr>"

theorem FromPayload_accepts_iff_signed_by_validator_witness:
  "FromPayload (enc_spec (message_rval forged_message))
     (Some (CheckValidatorSignature toy_crypto (newDefaultSet toy_crypto [7] RoundRobin))) = Inr forged_message"
proof -
  have "length (enc_spec (message_rval forged_message)) = 27"
    "length (enc_spec (message_rval (forged_message\<lparr>m_Signature := []\<rparr>))) = 27" by code_simp+
  then have ok: "message_ok forged_message" "message_ok (forged_message\<lparr>m_Signature := []\<rparr>)"
    by (simp_all add: message_ok_def) (simp_all add: forged_message_def)
  have "ecrecover toy_crypto h (m_Signature forged_message) = Some [0, 7]" for h
    by (simp add: toy_crypto_def forged_message_def)
  moreover have "PubkeyToAddress toy_crypto [0, 7] = 7" by code_simp
  ultimately show ?thesis
    using FromPayload_accepts_iff_signed_by_validator [OF ok, of toy_crypto "newDefaultSet toy_crypto [7] RoundRobin"]
    by simp
qed

end
