(* ===== verification/Istanbul_State.thy ===== *)
theory Istanbul_State
  imports Istanbul_Types "HOL-Library.AList"
begin

text \<open>
  The bookkeeping of one consensus round: message sets (\<^verbatim>\<open>core/message_set.go\<close>), the round
  state with its lock (\<^verbatim>\<open>core/roundstate.go\<close>) and the set of round change messages
  (\<^verbatim>\<open>core/roundchange.go\<close>). Go maps are association lists with distinct keys; their order
  stands for the unspecified iteration order of the map.
\<close>

section \<open>Message sets\<close>

record message_set =
  ms_view :: view
  ms_valSet :: valset
  ms_messages :: "(hash \<times> message) list"

definition newMessageSet :: "valset \<Rightarrow> message_set" where
  "newMessageSet v = \<lparr>ms_view = \<lparr>v_Round = 0, v_Sequence = 0\<rparr>, ms_valSet = v, ms_messages = []\<rparr>"

definition ms_verify :: "message_set \<Rightarrow> message \<Rightarrow> istanbul_error option" where
  "ms_verify ms msg =
     (case GetByAddress (ms_valSet ms) (m_Address msg) of
        (_, None) \<Rightarrow> Some ErrUnauthorizedAddress
      | (_, Some _) \<Rightarrow> None)"

definition addVerifiedMessage :: "crypto \<Rightarrow> message \<Rightarrow> message_set \<Rightarrow> message_set" where
  "addVerifiedMessage cr msg ms =
     ms\<lparr>ms_messages := AList.update (RLPHash cr (message_rval msg)) msg (ms_messages ms)\<rparr>"

definition ms_Add :: "crypto \<Rightarrow> message \<Rightarrow> message_set \<Rightarrow> istanbul_error option \<times> message_set" where
  "ms_Add cr msg ms =
     (case ms_verify ms msg of
        Some e \<Rightarrow> (Some e, ms)
      | None \<Rightarrow> (None, addVerifiedMessage cr msg ms))"

definition ms_Values :: "message_set \<Rightarrow> message list" where
  "ms_Values ms = map snd (ms_messages ms)"

definition ms_Size :: "message_set \<Rightarrow> nat" where
  "ms_Size ms = length (ms_messages ms)"

section \<open>Round state\<close>

record round_state =
  rs_round :: int
  rs_sequence :: int
  rs_Preprepare :: "preprepare option"
  rs_Prepares :: message_set
  rs_Commits :: message_set
  rs_lockedHash :: hash
  rs_pendingRequest :: "block option"

definition newRoundState ::
  "view \<Rightarrow> valset \<Rightarrow> hash \<Rightarrow> preprepare option \<Rightarrow> block option \<Rightarrow> round_state" where
  "newRoundState v valSet lockedHash pp pendingRequest =
     \<lparr>rs_round = v_Round v, rs_sequence = v_Sequence v, rs_Preprepare = pp,
      rs_Prepares = newMessageSet valSet, rs_Commits = newMessageSet valSet,
      rs_lockedHash = lockedHash, rs_pendingRequest = pendingRequest\<rparr>"

definition rs_Subject :: "crypto \<Rightarrow> round_state \<Rightarrow> subject option" where
  "rs_Subject cr s =
     (case rs_Preprepare s of
        None \<Rightarrow> None
      | Some pp \<Rightarrow>
          Some \<lparr>sub_View = \<lparr>v_Round = rs_round s, v_Sequence = rs_sequence s\<rparr>,
                sub_Digest = block_Hash (kec cr) (pp_Proposal pp)\<rparr>)"

definition SetPreprepare :: "preprepare \<Rightarrow> round_state \<Rightarrow> round_state" where
  "SetPreprepare pp s = s\<lparr>rs_Preprepare := Some pp\<rparr>"

definition rs_Proposal :: "round_state \<Rightarrow> block option" where
  "rs_Proposal s = (case rs_Preprepare s of Some pp \<Rightarrow> Some (pp_Proposal pp) | None \<Rightarrow> None)"

definition LockHash :: "crypto \<Rightarrow> round_state \<Rightarrow> round_state" where
  "LockHash cr s =
     (case rs_Preprepare s of
        Some pp \<Rightarrow> s\<lparr>rs_lockedHash := block_Hash (kec cr) (pp_Proposal pp)\<rparr>
      | None \<Rightarrow> s)"

definition UnlockHash :: "round_state \<Rightarrow> round_state" where
  "UnlockHash s = s\<lparr>rs_lockedHash := 0\<rparr>"

definition IsHashLocked :: "round_state \<Rightarrow> bool" where
  "IsHashLocked s \<longleftrightarrow> rs_lockedHash s \<noteq> 0"

text \<open>A committed seal is copied into an array of 65 bytes.\<close>

definition fixed_seal :: "bytes \<Rightarrow> bytes" where
  "fixed_seal s = take IstanbulExtraSeal s @ replicate (IstanbulExtraSeal - length s) 0"

section \<open>Round changes\<close>

record round_change_set =
  rcs_validatorSet :: valset
  rcs_roundChanges :: "(nat \<times> message_set) list"

definition newRoundChangeSet :: "valset \<Rightarrow> round_change_set" where
  "newRoundChangeSet v = \<lparr>rcs_validatorSet = v, rcs_roundChanges = []\<rparr>"

text \<open>\<^verbatim>\<open>Add\<close> creates the round's message set before it adds the message, and keeps it when the
  message is refused.\<close>

definition rcs_Add :: "crypto \<Rightarrow> int \<Rightarrow> message \<Rightarrow> round_change_set \<Rightarrow> (istanbul_error + nat) \<times> round_change_set"
where
  "rcs_Add cr r msg rcs =
     (let round = big_Uint64 r;
          ms = (case map_of (rcs_roundChanges rcs) round of
                  None \<Rightarrow> newMessageSet (rcs_validatorSet rcs) | Some ms \<Rightarrow> ms)
      in case ms_Add cr msg ms of (err, ms1) \<Rightarrow>
           let rcs1 = rcs\<lparr>rcs_roundChanges := AList.update round ms1 (rcs_roundChanges rcs)\<rparr>
           in case err of
                Some e \<Rightarrow> (Inl e, rcs1)
              | None \<Rightarrow> (Inr (ms_Size ms1), rcs1))"

definition rcs_Clear :: "int \<Rightarrow> round_change_set \<Rightarrow> round_change_set" where
  "rcs_Clear round rcs =
     rcs\<lparr>rcs_roundChanges :=
        filter (\<lambda>(k, rms). \<not> (length (ms_Values rms) = 0 \<or> k < big_Uint64 round)) (rcs_roundChanges rcs)\<rparr>"

fun max_round :: "int \<Rightarrow> (nat \<times> message_set) list \<Rightarrow> int option \<Rightarrow> int option" where
  "max_round num [] maxRound = maxRound"
| "max_round num ((k, rms) # rest) maxRound =
     (if int (ms_Size rms) < num then max_round num rest maxRound
      else
        (let r = wrap_i64 (int k) in
         case maxRound of
           None \<Rightarrow> max_round num rest (Some r)
         | Some m \<Rightarrow> if big_Cmp m r < 0 then max_round num rest (Some r) else max_round num rest maxRound))"

definition MaxRound :: "int \<Rightarrow> round_change_set \<Rightarrow> int option" where
  "MaxRound num rcs = max_round num (rcs_roundChanges rcs) None"

section \<open>Lemmas\<close>

lemma ms_verify_iff: "ms_verify ms msg = None \<longleftrightarrow> m_Address msg \<in> members (ms_valSet ms)"
proof -
  obtain i r where g: "GetByAddress (ms_valSet ms) (m_Address msg) = (i, r)" by fastforce
  then show ?thesis using snd_GetByAddress [of "ms_valSet ms" "m_Address msg"]
    by (auto simp: ms_verify_def split: if_splits)
qed

lemma ms_Add_cases:
  "(m_Address msg \<notin> members (ms_valSet ms) \<and> ms_Add cr msg ms = (Some ErrUnauthorizedAddress, ms)) \<or>
   (m_Address msg \<in> members (ms_valSet ms) \<and> ms_Add cr msg ms = (None, addVerifiedMessage cr msg ms))"
  using ms_verify_iff [of ms msg]
  by (auto simp: ms_Add_def ms_verify_def split: option.splits prod.splits)

lemma set_update_subset: "set (AList.update k v al) \<subseteq> insert (k, v) (set al)"
  by (induction al) auto

lemma length_alist_update:
  "length (AList.update k v al) = (if k \<in> fst ` set al then length al else Suc (length al))"
  by (induction al) auto

lemma set_ms_Values_add: "set (ms_Values (addVerifiedMessage cr msg ms)) \<subseteq> insert msg (set (ms_Values ms))"
  using set_update_subset [of "RLPHash cr (message_rval msg)" msg "ms_messages ms"]
  by (auto simp: ms_Values_def addVerifiedMessage_def)

lemma ms_Size_add: "ms_Size (addVerifiedMessage cr msg ms) \<le> Suc (ms_Size ms)"
  by (simp add: ms_Size_def addVerifiedMessage_def length_alist_update)

text \<open>The messages of a set: from members of its validator set, at most one per hash.\<close>

definition ms_ok :: "crypto \<Rightarrow> message_set \<Rightarrow> bool" where
  "ms_ok cr ms \<longleftrightarrow> distinct (map fst (ms_messages ms)) \<and>
     (\<forall>(h, m) \<in> set (ms_messages ms). h = RLPHash cr (message_rval m) \<and> m_Address m \<in> members (ms_valSet ms))"

lemma newMessageSet_ok: "ms_ok cr (newMessageSet v)"
  by (simp add: ms_ok_def newMessageSet_def)

lemma addVerifiedMessage_ok:
  assumes "ms_ok cr ms" "m_Address msg \<in> members (ms_valSet ms)"
  shows "ms_ok cr (addVerifiedMessage cr msg ms)"
  using assms set_update_subset [of "RLPHash cr (message_rval msg)" msg "ms_messages ms"]
  by (fastforce simp: ms_ok_def addVerifiedMessage_def distinct_update)

lemma ms_Add_ok: "ms_ok cr ms \<Longrightarrow> ms_ok cr (snd (ms_Add cr msg ms))"
  using ms_Add_cases [of msg ms cr] addVerifiedMessage_ok by fastforce

lemma max_round_le:
  "max_round num l m0 = Some m \<Longrightarrow>
     (m0 = Some m \<or> (\<exists>(k, rms) \<in> set l. m = wrap_i64 (int k) \<and> num \<le> int (ms_Size rms))) \<and>
     (\<forall>x. m0 = Some x \<longrightarrow> x \<le> m) \<and>
     (\<forall>(k, rms) \<in> set l. num \<le> int (ms_Size rms) \<longrightarrow> wrap_i64 (int k) \<le> m)"
proof (induction num l m0 rule: max_round.induct)
  case (2 num k rms rest m0)
  show ?case
  proof (cases "int (ms_Size rms) < num")
    case True
    with 2 show ?thesis by auto
  next
    case False
    let ?r = "wrap_i64 (int k)"
    show ?thesis
    proof (cases m0)
      case None
      with False 2(2) [OF False refl None] 2(5) show ?thesis by (auto simp: Let_def)
    next
      case (Some x)
      show ?thesis
      proof (cases "x < ?r")
        case True
        with False Some 2(3) [OF False refl Some] 2(5) show ?thesis by (fastforce simp: Let_def)
      next
        case nlt: False
        with False Some 2(4) [OF False refl Some] 2(5) show ?thesis by (fastforce simp: Let_def)
      qed
    qed
  qed
qed simp

lemma max_round_None: "max_round num l m0 = None \<Longrightarrow> m0 = None \<and> (\<forall>(k, rms) \<in> set l. int (ms_Size rms) < num)"
  by (induction num l m0 rule: max_round.induct) (auto simp: Let_def split: if_splits option.splits)

end
