(* ===== verification/Istanbul_Voting.thy ===== *)
theory Istanbul_Voting
  imports Istanbul_State
begin

text \<open>
  The abstract specification of a validator: a voting automaton without queues, timers and
  encodings. It says when a validator may accept a proposal, vote, lock, decide and change its
  round; \<^verbatim>\<open>Istanbul_Core\<close> is shown to refine it, and the safety of votes and decisions is proved
  here, once, for the automaton.
\<close>

record voting =
  q_view :: view
  q_state :: ist_state
  q_waiting :: bool
  q_prop :: "preprepare option"
  q_lock :: hash
  q_prepares :: "(hash \<times> message) list"
  q_commits :: "(hash \<times> message) list"
  q_vals :: "address list"
  q_votes :: "(nat \<times> subject) list"
  q_decided :: "(block \<times> bytes list) list"

definition digest :: "crypto \<Rightarrow> preprepare \<Rightarrow> hash" where
  "digest cr pp = block_Hash (kec cr) (pp_Proposal pp)"

definition two_thirds :: "address list \<Rightarrow> int \<Rightarrow> bool" where
  "two_thirds vals n \<longleftrightarrow> n > 2 * ((int (length vals) + 2) div 3 - 1)"

text \<open>What a lock carries into the next round of the same height.\<close>

definition kept :: "voting \<Rightarrow> preprepare option" where
  "kept q = (if q_lock q \<noteq> 0 then q_prop q else None)"

definition is_vote :: "crypto \<Rightarrow> voting \<Rightarrow> nat \<Rightarrow> message \<Rightarrow> bool" where
  "is_vote cr q code m \<longleftrightarrow> m_Code m = code \<and> m_Address m \<in> set (q_vals q) \<and>
     (\<exists>pp. q_prop q = Some pp \<and>
        DecodeBytes (m_Msg m) decodeSubject = Inr \<lparr>sub_View = q_view q, sub_Digest = digest cr pp\<rparr>)"

inductive qstep :: "crypto \<Rightarrow> (address list \<Rightarrow> bool) \<Rightarrow> (block \<Rightarrow> bool) \<Rightarrow> bool \<Rightarrow> voting \<Rightarrow> voting \<Rightarrow> bool"
  for cr Vals Valid may_fail
where
  accept:
  "\<not> q_waiting q \<Longrightarrow> q_state q = StateAcceptRequest \<Longrightarrow> Valid (pp_Proposal pp) \<Longrightarrow>
   q_lock q = 0 \<or> digest cr pp = q_lock q \<Longrightarrow>
   vs = [] \<or> vs = [(msgPrepare, \<lparr>sub_View = q_view q, sub_Digest = digest cr pp\<rparr>)] \<Longrightarrow>
   qstep cr Vals Valid may_fail q
     (q\<lparr>q_state := StatePreprepared, q_prop := Some pp, q_votes := q_votes q @ vs\<rparr>)"
| prepare:
  "\<not> q_waiting q \<Longrightarrow> q_state q \<noteq> StateAcceptRequest \<Longrightarrow> is_vote cr q msgPrepare m \<Longrightarrow>
   qstep cr Vals Valid may_fail q
     (q\<lparr>q_prepares := AList.update (RLPHash cr (message_rval m)) m (q_prepares q)\<rparr>)"
| lock:
  "\<not> q_waiting q \<Longrightarrow> q_state q = StatePreprepared \<Longrightarrow> q_prop q = Some pp \<Longrightarrow>
   q_lock q \<noteq> 0 \<or> two_thirds (q_vals q) (int (length (q_prepares q))) \<Longrightarrow>
   vs = [] \<or> vs = [(msgCommit, \<lparr>sub_View = q_view q, sub_Digest = digest cr pp\<rparr>)] \<Longrightarrow>
   qstep cr Vals Valid may_fail q
     (q\<lparr>q_state := StatePrepared, q_lock := digest cr pp, q_votes := q_votes q @ vs\<rparr>)"
| commit:
  "\<not> q_waiting q \<Longrightarrow> q_state q \<noteq> StateAcceptRequest \<Longrightarrow> is_vote cr q msgCommit m \<Longrightarrow>
   qstep cr Vals Valid may_fail q
     (q\<lparr>q_commits := AList.update (RLPHash cr (message_rval m)) m (q_commits q)\<rparr>)"
| decide:
  "\<not> q_waiting q \<Longrightarrow> q_state q = StatePreprepared \<or> q_state q = StatePrepared \<Longrightarrow> q_prop q = Some pp \<Longrightarrow>
   two_thirds (q_vals q) (int (length (q_commits q))) \<Longrightarrow>
   seals = map (\<lambda>(h, m). fixed_seal (m_CommittedSeal m)) (q_commits q) \<Longrightarrow>
   qstep cr Vals Valid may_fail q
     (q\<lparr>q_state := StateCommitted, q_lock := digest cr pp,
        q_decided := q_decided q @ [(pp_Proposal pp, seals)]\<rparr>)"
| fail:
  "may_fail \<Longrightarrow> \<not> q_waiting q \<Longrightarrow> q_state q = StateCommitted \<Longrightarrow> v_Round (q_view q) < r \<Longrightarrow>
   qstep cr Vals Valid may_fail q
     (q\<lparr>q_view := (q_view q)\<lparr>v_Round := r\<rparr>, q_waiting := True, q_prop := None, q_lock := 0,
        q_prepares := [], q_commits := []\<rparr>)"
| catch_up:
  "v_Round (q_view q) < r \<Longrightarrow>
   qstep cr Vals Valid may_fail q
     (q\<lparr>q_view := (q_view q)\<lparr>v_Round := r\<rparr>, q_waiting := True, q_prop := kept q,
        q_prepares := [], q_commits := []\<rparr>)"
| enter:
  "view_le (q_view q) v \<Longrightarrow> q_waiting q \<or> v \<noteq> q_view q \<Longrightarrow> Vals vals \<Longrightarrow>
   qstep cr Vals Valid may_fail q
     (q\<lparr>q_view := v, q_state := StateAcceptRequest, q_waiting := False, q_prop := kept q,
        q_prepares := [], q_commits := [], q_vals := vals\<rparr>)"
| fresh:
  "v_Sequence (q_view q) < v_Sequence v \<Longrightarrow> Vals vals \<Longrightarrow>
   qstep cr Vals Valid may_fail q
     (q\<lparr>q_view := v, q_state := StateAcceptRequest, q_waiting := False, q_prop := None, q_lock := 0,
        q_prepares := [], q_commits := [], q_vals := vals\<rparr>)"


section \<open>Invariants\<close>

definition lock_ok :: "crypto \<Rightarrow> voting \<Rightarrow> bool" where
  "lock_ok cr q \<longleftrightarrow>
     (q_lock q \<noteq> 0 \<longrightarrow> (\<exists>pp. q_prop q = Some pp \<and> digest cr pp = q_lock q)) \<and>
     (\<not> q_waiting q \<and> q_state q \<noteq> StateAcceptRequest \<longrightarrow> q_prop q \<noteq> None) \<and>
     (\<not> q_waiting q \<and> (q_state q = StatePrepared \<or> q_state q = StateCommitted) \<longrightarrow>
        (\<exists>pp. q_prop q = Some pp \<and> q_lock q = digest cr pp))"

definition prop_ok :: "(block \<Rightarrow> bool) \<Rightarrow> voting \<Rightarrow> bool" where
  "prop_ok Valid q \<longleftrightarrow> (\<forall>pp. q_prop q = Some pp \<longrightarrow> Valid (pp_Proposal pp))"

definition tally :: "crypto \<Rightarrow> voting \<Rightarrow> nat \<Rightarrow> (hash \<times> message) list \<Rightarrow> bool" where
  "tally cr q code l \<longleftrightarrow> distinct (map fst l) \<and>
     (\<forall>(h, m) \<in> set l. h = RLPHash cr (message_rval m) \<and> is_vote cr q code m)"

definition tally_ok :: "crypto \<Rightarrow> (address list \<Rightarrow> bool) \<Rightarrow> voting \<Rightarrow> bool" where
  "tally_ok cr Vals q \<longleftrightarrow> Vals (q_vals q) \<and>
     (q_waiting q \<or> q_state q = StateAcceptRequest \<longrightarrow> q_prepares q = [] \<and> q_commits q = []) \<and>
     tally cr q msgPrepare (q_prepares q) \<and> tally cr q msgCommit (q_commits q)"

definition certified :: "crypto \<Rightarrow> (address list \<Rightarrow> bool) \<Rightarrow> block \<Rightarrow> bytes list \<Rightarrow> bool" where
  "certified cr Vals p seals \<longleftrightarrow>
     (\<exists>vals v (msgs :: message list). Vals vals \<and> distinct msgs \<and> two_thirds vals (int (length msgs)) \<and>
        seals = map (\<lambda>m. fixed_seal (m_CommittedSeal m)) msgs \<and>
        (\<forall>m \<in> set msgs. m_Code m = msgCommit \<and> m_Address m \<in> set vals \<and>
           DecodeBytes (m_Msg m) decodeSubject = Inr \<lparr>sub_View = v, sub_Digest = block_Hash (kec cr) p\<rparr>))"

definition decided_ok :: "crypto \<Rightarrow> (address list \<Rightarrow> bool) \<Rightarrow> (block \<Rightarrow> bool) \<Rightarrow> voting \<Rightarrow> bool" where
  "decided_ok cr Vals Valid q \<longleftrightarrow>
     (\<forall>(p, seals) \<in> set (q_decided q). Valid p \<and> certified cr Vals p seals)"

text \<open>The votes of the current view agree with the accepted proposal; nothing is voted for in a view
  before its proposal is accepted, and nothing is voted for twice.\<close>

definition vote_ok :: "crypto \<Rightarrow> voting \<Rightarrow> nat \<Rightarrow> subject \<Rightarrow> bool" where
  "vote_ok cr q k s \<longleftrightarrow> view_le (sub_View s) (q_view q) \<and>
     (sub_View s = q_view q \<longrightarrow>
        \<not> q_waiting q \<and> q_state q \<noteq> StateAcceptRequest \<and>
        (\<exists>pp. q_prop q = Some pp \<and> sub_Digest s = digest cr pp) \<and>
        (k = msgCommit \<longrightarrow> q_state q = StatePrepared \<or> q_state q = StateCommitted))"

definition votes_ok :: "crypto \<Rightarrow> voting \<Rightarrow> bool" where
  "votes_ok cr q \<longleftrightarrow> distinct (q_votes q) \<and> (\<forall>k s. (k, s) \<in> set (q_votes q) \<longrightarrow> vote_ok cr q k s) \<and>
     (\<forall>k s k' s'. (k, s) \<in> set (q_votes q) \<longrightarrow> (k', s') \<in> set (q_votes q) \<longrightarrow>
        sub_View s = sub_View s' \<longrightarrow> s = s')"

lemmas voting_defs = lock_ok_def prop_ok_def kept_def

lemma lock_ok_step: "qstep cr Vals Valid mf q q' \<Longrightarrow> lock_ok cr q \<Longrightarrow> lock_ok cr q'"
  by (induction rule: qstep.induct) (auto simp: voting_defs)

lemma prop_ok_step: "qstep cr Vals Valid mf q q' \<Longrightarrow> prop_ok Valid q \<Longrightarrow> prop_ok Valid q'"
  by (induction rule: qstep.induct) (auto simp: voting_defs)

lemma tally_Nil [simp]: "tally cr q code []"
  by (simp add: tally_def)

lemma tally_update:
  assumes "tally cr q code l" "is_vote cr q code m"
  shows "tally cr q code (AList.update (RLPHash cr (message_rval m)) m l)"
  using assms set_update_subset [of "RLPHash cr (message_rval m)" m l]
  by (fastforce simp: tally_def distinct_update)

lemma tally_frame [simp]:
  "tally cr (q\<lparr>q_state := st\<rparr>) code l = tally cr q code l"
  "tally cr (q\<lparr>q_lock := h\<rparr>) code l = tally cr q code l"
  "tally cr (q\<lparr>q_votes := vs\<rparr>) code l = tally cr q code l"
  "tally cr (q\<lparr>q_decided := d\<rparr>) code l = tally cr q code l"
  "tally cr (q\<lparr>q_prepares := ms\<rparr>) code l = tally cr q code l"
  "tally cr (q\<lparr>q_commits := ms\<rparr>) code l = tally cr q code l"
  by (simp_all add: tally_def is_vote_def)

lemma tally_ok_step: "qstep cr Vals Valid mf q q' \<Longrightarrow> tally_ok cr Vals q \<Longrightarrow> tally_ok cr Vals q'"
  by (induction rule: qstep.induct) (auto simp: tally_ok_def tally_update)

lemma tally_certifies:
  assumes "tally cr q msgCommit (q_commits q)" "Vals (q_vals q)" "q_prop q = Some pp"
    "two_thirds (q_vals q) (int (length (q_commits q)))"
  shows "certified cr Vals (pp_Proposal pp) (map (\<lambda>(h, m). fixed_seal (m_CommittedSeal m)) (q_commits q))"
proof -
  let ?l = "q_commits q"
  have keys: "map fst ?l = map (\<lambda>m. RLPHash cr (message_rval m)) (map snd ?l)"
    using assms(1) by (auto simp: tally_def)
  have "distinct (map snd ?l)"
    using assms(1) unfolding tally_def keys by (blast dest: distinct_map [THEN iffD1])
  moreover have "\<forall>m \<in> set (map snd ?l). is_vote cr q msgCommit m"
    using assms(1) by (auto simp: tally_def)
  ultimately show ?thesis using assms(2-4) unfolding certified_def
    by (intro exI [of _ "q_vals q"] exI [of _ "q_view q"] exI [of _ "map snd ?l"])
      (auto simp: is_vote_def digest_def comp_def case_prod_beta)
qed

lemma decided_ok_step:
  assumes "qstep cr Vals Valid mf q q'" "decided_ok cr Vals Valid q" "tally_ok cr Vals q" "prop_ok Valid q"
  shows "decided_ok cr Vals Valid q'"
  using assms
proof (induction rule: qstep.induct)
  case (decide q pp seals)
  then show ?case using tally_certifies [of cr q Vals pp]
    by (auto simp: decided_ok_def tally_ok_def prop_ok_def)
qed (simp_all add: decided_ok_def)

lemma view_le_antisym: "view_le v w \<Longrightarrow> view_le w v \<Longrightarrow> v = w"
  by (cases v, cases w) (auto simp: view_le_iff)

text \<open>Votes stay good when the view grows, and in the view when its proposal stays.\<close>

lemma votes_ok_mono:
  assumes "votes_ok cr q" "q_votes q' = q_votes q"
    "\<And>k s. vote_ok cr q k s \<Longrightarrow> vote_ok cr q' k s"
  shows "votes_ok cr q'"
  using assms unfolding votes_ok_def by metis

lemma vote_ok_later:
  assumes "vote_ok cr q k s" "view_le (q_view q) (q_view q')" "q_view q' = q_view q \<longrightarrow> q_waiting q"
  shows "vote_ok cr q' k s"
proof -
  have le: "view_le (sub_View s) (q_view q)" using assms(1) by (simp add: vote_ok_def)
  have "sub_View s \<noteq> q_view q'"
  proof
    assume eq: "sub_View s = q_view q'"
    then have "q_view q' = q_view q" using le assms(2) view_le_antisym by metis
    then show False using assms(1,3) eq by (simp add: vote_ok_def)
  qed
  then show ?thesis using le assms(2) view_le_trans unfolding vote_ok_def by metis
qed

lemmas votes_ok_later = votes_ok_mono [OF _ _ vote_ok_later]

lemma votes_ok_add:
  assumes "votes_ok cr q" "vs = [] \<or> vs = [(k, \<lparr>sub_View = q_view q, sub_Digest = digest cr pp\<rparr>)]"
    "q_prop q = Some pp" "\<not> q_waiting q" "q_state q \<noteq> StateAcceptRequest"
    "k = msgCommit \<longrightarrow> q_state q = StatePrepared \<or> q_state q = StateCommitted"
    "\<And>s. (k, s) \<in> set (q_votes q) \<Longrightarrow> sub_View s \<noteq> q_view q"
  shows "votes_ok cr (q\<lparr>q_votes := q_votes q @ vs\<rparr>)"
proof (cases "vs = []")
  case True
  then show ?thesis using assms(1) by simp
next
  case False
  let ?s = "\<lparr>sub_View = q_view q, sub_Digest = digest cr pp\<rparr>"
  have vs: "vs = [(k, ?s)]" using assms(2) False by simp
  have new: "(k, ?s) \<notin> set (q_votes q)" using assms(7) by fastforce
  have same: "s = ?s" if "(k', s) \<in> set (q_votes q)" "sub_View s = q_view q" for k' s
    using that assms(1,3) by (cases s) (fastforce simp: votes_ok_def vote_ok_def)
  have old: "vote_ok cr (q\<lparr>q_votes := q_votes q @ vs\<rparr>) k' s \<longleftrightarrow> vote_ok cr q k' s" for k' s
    by (simp add: vote_ok_def)
  have "vote_ok cr q k ?s" using assms(3-6) by (simp add: vote_ok_def)
  then show ?thesis using assms(1) new same unfolding votes_ok_def old
    by (auto simp: vs)
qed

lemma later_round: "v_Round v < r \<Longrightarrow> v\<lparr>v_Round := r\<rparr> \<noteq> (v :: view)" "v_Round v < r \<Longrightarrow> view_le v (v\<lparr>v_Round := r\<rparr>)"
  by (cases v; simp add: view_le_iff)+

lemma votes_ok_step:
  assumes "qstep cr Vals Valid mf q q'" "votes_ok cr q" "lock_ok cr q"
  shows "votes_ok cr q'"
  using assms
proof (induction rule: qstep.induct)
  case (accept q pp vs)
  let ?q = "q\<lparr>q_state := StatePreprepared, q_prop := Some pp\<rparr>"
  have none: "sub_View s \<noteq> q_view q" if "(k, s) \<in> set (q_votes q)" for k s
    using that accept(2,6) unfolding votes_ok_def vote_ok_def by blast
  have "votes_ok cr ?q"
    using accept(6) none unfolding votes_ok_def vote_ok_def by simp
  from votes_ok_add [OF this, of vs msgPrepare pp] accept(1,5) none show ?case by simp
next
  case (lock q pp vs)
  let ?q = "q\<lparr>q_state := StatePrepared, q_lock := digest cr pp\<rparr>"
  have none: "sub_View s \<noteq> q_view q" if "(msgCommit, s) \<in> set (q_votes q)" for s
    using that lock(2,6) unfolding votes_ok_def vote_ok_def by fastforce
  have "votes_ok cr ?q"
    by (rule votes_ok_mono [OF lock(6)]) (simp_all add: vote_ok_def)
  from votes_ok_add [OF this, of vs msgCommit pp] lock(1,3,5) none show ?case by simp
next
  case (enter q v vals)
  then show ?case by (intro votes_ok_later [OF enter(4)]) auto
next
  case (catch_up q r)
  from later_round [OF catch_up(1)] have "view_le (q_view q) ((q_view q)\<lparr>v_Round := r\<rparr>)"
    "(q_view q)\<lparr>v_Round := r\<rparr> = q_view q \<longrightarrow> q_waiting q" by blast+
  with catch_up show ?case by (intro votes_ok_later [OF catch_up(2)]) simp_all
next
  case (fresh q v vals)
  then show ?case by (intro votes_ok_later [OF fresh(3)]) (auto simp: view_le_iff)
next
  case (fail q r)
  from later_round [OF fail(4)] have "view_le (q_view q) ((q_view q)\<lparr>v_Round := r\<rparr>)"
    "(q_view q)\<lparr>v_Round := r\<rparr> = q_view q \<longrightarrow> q_waiting q" by blast+
  with fail show ?case by (intro votes_ok_later [OF fail(5)]) (simp_all, blast)
next
  case (decide q pp seals)
  then show ?case by (intro votes_ok_mono [OF decide(6)]) (auto simp: vote_ok_def)
next
  case (prepare q m)
  then show ?case by (intro votes_ok_mono [OF prepare(4)]) (simp_all add: vote_ok_def)
next
  case (commit q m)
  then show ?case by (intro votes_ok_mono [OF commit(4)]) (simp_all add: vote_ok_def)
qed

definition qinv :: "crypto \<Rightarrow> (address list \<Rightarrow> bool) \<Rightarrow> (block \<Rightarrow> bool) \<Rightarrow> voting \<Rightarrow> bool" where
  "qinv cr Vals Valid q \<longleftrightarrow>
     lock_ok cr q \<and> prop_ok Valid q \<and> tally_ok cr Vals q \<and> decided_ok cr Vals Valid q \<and> votes_ok cr q"

lemma qinv_steps: "(qstep cr Vals Valid mf)\<^sup>*\<^sup>* q q' \<Longrightarrow> qinv cr Vals Valid q \<Longrightarrow> qinv cr Vals Valid q'"
  by (induction rule: rtranclp_induct)
    (simp_all add: qinv_def, meson lock_ok_step prop_ok_step tally_ok_step decided_ok_step votes_ok_step)

lemma view_le_step: "qstep cr Vals Valid mf q q' \<Longrightarrow> view_le (q_view q) (q_view q')"
  by (induction rule: qstep.induct) (simp_all add: view_le_iff)

lemma view_le_steps: "(qstep cr Vals Valid mf)\<^sup>*\<^sup>* q q' \<Longrightarrow> view_le (q_view q) (q_view q')"
  by (induction rule: rtranclp_induct) (auto intro: view_le_trans view_le_step)

text \<open>While no decision fails, the lock keeps the commit votes of a height together.\<close>

definition heights_ok :: "crypto \<Rightarrow> voting \<Rightarrow> bool" where
  "heights_ok cr q \<longleftrightarrow>
     (\<forall>s. (msgCommit, s) \<in> set (q_votes q) \<longrightarrow> sub_Digest s \<noteq> 0 \<and>
        (v_Sequence (sub_View s) = v_Sequence (q_view q) \<longrightarrow> q_lock q = sub_Digest s)) \<and>
     (\<forall>s s'. (msgCommit, s) \<in> set (q_votes q) \<longrightarrow> (msgCommit, s') \<in> set (q_votes q) \<longrightarrow>
        v_Sequence (sub_View s) = v_Sequence (sub_View s') \<longrightarrow> sub_Digest s = sub_Digest s')"

lemma heights_ok_mono:
  assumes "heights_ok cr q" "\<And>s. (msgCommit, s) \<in> set (q_votes q') \<longleftrightarrow> (msgCommit, s) \<in> set (q_votes q)"
    "v_Sequence (q_view q') = v_Sequence (q_view q) \<Longrightarrow> q_lock q \<noteq> 0 \<Longrightarrow> q_lock q' = q_lock q"
    "v_Sequence (q_view q') \<noteq> v_Sequence (q_view q) \<Longrightarrow>
       \<forall>s. (msgCommit, s) \<in> set (q_votes q) \<longrightarrow> v_Sequence (sub_View s) \<noteq> v_Sequence (q_view q')"
  shows "heights_ok cr q'"
  using assms unfolding heights_ok_def by metis

lemma commit_votes_past:
  assumes "votes_ok cr q" "v_Sequence (q_view q) < n" "(k, s) \<in> set (q_votes q)"
  shows "v_Sequence (sub_View s) \<noteq> n"
  using assms by (fastforce simp: votes_ok_def vote_ok_def view_le_iff)

lemma heights_ok_add:
  assumes "heights_ok cr q" "q_lock q = d" "d \<noteq> 0"
    "vs = [] \<or> vs = [(msgCommit, \<lparr>sub_View = q_view q, sub_Digest = d\<rparr>)]"
  shows "heights_ok cr (q\<lparr>q_votes := q_votes q @ vs\<rparr>)"
proof (cases "vs = []")
  case False
  let ?s = "\<lparr>sub_View = q_view q, sub_Digest = d\<rparr>"
  have mem: "(msgCommit, s) \<in> set (q_votes q @ vs) \<longleftrightarrow> (msgCommit, s) \<in> set (q_votes q) \<or> s = ?s" for s
    using assms(4) False by auto
  let ?q = "q\<lparr>q_votes := q_votes q @ vs\<rparr>"
  have sel: "q_votes ?q = q_votes q @ vs" "q_lock ?q = q_lock q" "q_view ?q = q_view q"
    "sub_Digest ?s = d" "sub_View ?s = q_view q" by simp_all
  show ?thesis using assms(1-3) unfolding heights_ok_def sel mem by (metis sel(4,5))
qed (use assms(1) in simp)

lemma heights_ok_step:
  assumes "qstep cr Vals Valid False q q'" "heights_ok cr q" "votes_ok cr q" "lock_ok cr q"
    and nonzero: "\<And>pp. digest cr pp \<noteq> 0"
  shows "heights_ok cr q'"
  using assms(1-4)
proof (induction rule: qstep.induct)
  case (accept q pp vs)
  then show ?case by (intro heights_ok_mono [OF accept(6)]) auto
next
  case (prepare q m)
  then show ?case by (intro heights_ok_mono [OF prepare(4)]) auto
next
  case (commit q m)
  then show ?case by (intro heights_ok_mono [OF commit(4)]) auto
next
  case (lock q pp vs)
  have same: "q_lock q \<noteq> 0 \<Longrightarrow> q_lock q = digest cr pp" using lock(3,8) by (auto simp: lock_ok_def)
  let ?q = "q\<lparr>q_state := StatePrepared, q_lock := digest cr pp\<rparr>"
  have "heights_ok cr ?q" by (rule heights_ok_mono [OF lock(6)]) (use same in simp_all)
  from heights_ok_add [OF this, of "digest cr pp" vs] lock(5) nonzero show ?case by simp
next
  case (decide q pp seals)
  have same: "q_lock q \<noteq> 0 \<Longrightarrow> q_lock q = digest cr pp" using decide(3,8) by (auto simp: lock_ok_def)
  then show ?case by (intro heights_ok_mono [OF decide(6)]) auto
next
  case (catch_up q r)
  then show ?case by (intro heights_ok_mono [OF catch_up(2)]) auto
next
  case (enter q v vals)
  then show ?case
    by (intro heights_ok_mono [OF enter(4)]) (auto simp: view_le_iff dest: commit_votes_past)
next
  case (fresh q v vals)
  then show ?case
    by (intro heights_ok_mono [OF fresh(3)]) (auto dest: commit_votes_past)
qed simp

lemma heights_ok_steps:
  assumes "(qstep cr Vals Valid False)\<^sup>*\<^sup>* q q'" "heights_ok cr q" "qinv cr Vals Valid q"
    and nonzero: "\<And>pp. digest cr pp \<noteq> 0"
  shows "heights_ok cr q'"
  using assms(1,2)
proof (induction rule: rtranclp_induct)
  case (step y z)
  from qinv_steps [OF step(1) assms(3)] have "votes_ok cr y" "lock_ok cr y" by (simp_all add: qinv_def)
  from heights_ok_step [OF step(2) step(3) [OF step(4)] this nonzero] show ?case .
qed simp

end
