(* ===== verification/Istanbul_Core.thy ===== *)
theory Istanbul_Core
  imports Istanbul_State
begin

text \<open>
  The consensus state machine (\<^verbatim>\<open>src/consensus/istanbul/core/\<close>): the \<open>core\<close> struct and every
  handler of its event loop.

  \<^item> The backend is the interface \<^verbatim>\<open>istanbul.Backend\<close>. Its answers may differ from call to call,
    so every event is handled with a record \<open>backend\<close> of the answers of that moment.
  \<^item> Effects (broadcast, gossip, commit, posted events) are appended to \<open>c_out\<close>. Goroutines
    post events in no particular order; the event loop of the model takes any event at any time.
  \<^item> Timers are the fields \<open>c_roundChangeTimer\<close> (the running timeout) and
    \<open>c_futurePreprepareTimer\<close>; when one fires, its event arrives.
  \<^item> Go keys the backlogs by the validator pointer. A pointer is the identity of the validator set
    it belongs to, which the backend chooses, with the address.
  \<^item> Logging and metrics are left out. \<open>c_panicked\<close> records a nil dereference: a backend without a
    last proposal in \<^verbatim>\<open>startNewRound\<close>, a lock without a proposal, a nil subject to encode.
\<close>

section \<open>State\<close>

type_synonym validator = "nat \<times> address"

datatype verify_result = VerifyOk | VerifyFuture int | VerifyFail

record backend =
  bk_Address :: address
  bk_Validators :: "block \<Rightarrow> nat \<times> valset"
  bk_Verify :: "block \<Rightarrow> verify_result"
  bk_Sign :: "bytes \<Rightarrow> bytes option"
  bk_Commit :: "block \<Rightarrow> bytes list \<Rightarrow> bool"
  bk_LastProposal :: "(block \<times> address) option"
  bk_pow2_overflow :: "nat \<Rightarrow> nat"

datatype core_effect =
    Broadcast valset message bytes
  | GossipPayload valset bytes
  | CommitProposal block "bytes list"
  | PostBacklog validator message
  | PostRequest block

datatype core_error =
    errInconsistentSubject
  | errNotFromProposer
  | errFutureMessage
  | errOldMessage
  | errInvalidMessage
  | errFailedDecodePreprepare
  | errFailedDecodePrepare
  | errFailedDecodeCommit
  | errUnauthorizedAddress
  | errPayload payload_error
  | errVerify verify_result
  | errMessageSet istanbul_error

record core =
  c_requestTimeout :: nat
  c_address :: address
  c_state :: ist_state
  c_lastProposer :: address
  c_lastProposal :: block
  c_valSet :: valset
  c_valSetId :: nat
  c_waitingForRoundChange :: bool
  c_backlogs :: "(validator \<times> message prque) list"
  c_current :: round_state
  c_roundChangeSet :: round_change_set
  c_pendingRequests :: "block prque"
  c_roundChangeTimer :: "int option"
  c_futurePreprepareTimer :: "(int \<times> validator \<times> message) option"
  c_panicked :: bool
  c_out :: "core_effect list"

definition emit :: "core_effect \<Rightarrow> core \<Rightarrow> core" where
  "emit e c = c\<lparr>c_out := c_out c @ [e]\<rparr>"

abbreviation block_Number :: "block \<Rightarrow> int" where
  "block_Number b \<equiv> h_Number (b_header b)"

section \<open>Sending\<close>

definition finalizeMessage :: "crypto \<Rightarrow> backend \<Rightarrow> core \<Rightarrow> message \<Rightarrow> (message \<times> bytes) option" where
  "finalizeMessage cr bk c msg =
     (let m1 = msg\<lparr>m_Address := c_address c, m_CommittedSeal := []\<rparr>;
          sealed = (if m_Code m1 = msgCommit \<and> rs_Proposal (c_current c) \<noteq> None
                    then (case bk_Sign bk (PrepareCommittedSeal
                              (block_Hash (kec cr) (the (rs_Proposal (c_current c))))) of
                            None \<Rightarrow> None
                          | Some seal \<Rightarrow> Some (m1\<lparr>m_CommittedSeal := seal\<rparr>))
                    else Some m1)
      in case sealed of
           None \<Rightarrow> None
         | Some m2 \<Rightarrow>
             (case PayloadNoSig m2 of
                Inl _ \<Rightarrow> None
              | Inr data \<Rightarrow>
                  (case bk_Sign bk data of
                     None \<Rightarrow> None
                   | Some sig \<Rightarrow>
                       let m3 = m2\<lparr>m_Signature := sig\<rparr> in
                       case Payload m3 of Inl _ \<Rightarrow> None | Inr payload \<Rightarrow> Some (m3, payload))))"

definition broadcast :: "crypto \<Rightarrow> backend \<Rightarrow> message \<Rightarrow> core \<Rightarrow> core" where
  "broadcast cr bk msg c =
     (case finalizeMessage cr bk c msg of
        None \<Rightarrow> c
      | Some (m, payload) \<Rightarrow> emit (Broadcast (c_valSet c) m payload) c)"

definition new_message :: "nat \<Rightarrow> bytes \<Rightarrow> message" where
  "new_message code msg =
     \<lparr>m_Code = code, m_Msg = msg, m_Address = 0, m_Signature = [], m_CommittedSeal = []\<rparr>"

definition currentView :: "core \<Rightarrow> view" where
  "currentView c = \<lparr>v_Round = rs_round (c_current c), v_Sequence = rs_sequence (c_current c)\<rparr>"

definition isProposer :: "backend \<Rightarrow> core \<Rightarrow> bool" where
  "isProposer bk c = IsProposer (c_valSet c) (bk_Address bk)"

definition sendPreprepare :: "crypto \<Rightarrow> backend \<Rightarrow> block \<Rightarrow> core \<Rightarrow> core" where
  "sendPreprepare cr bk request c =
     (if big_Cmp (rs_sequence (c_current c)) (block_Number request) = 0 \<and> isProposer bk c then
        (case EncodeToBytes (preprepare_rval \<lparr>pp_View = currentView c, pp_Proposal = request\<rparr>) of
           Inl _ \<Rightarrow> c
         | Inr pp \<Rightarrow> broadcast cr bk (new_message msgPreprepare pp) c)
      else c)"

text \<open>\<^verbatim>\<open>Encode\<close> of a nil subject calls \<^verbatim>\<open>EncodeRLP\<close> on the nil pointer, which dereferences it.\<close>

definition sendPrepare :: "crypto \<Rightarrow> backend \<Rightarrow> core \<Rightarrow> core" where
  "sendPrepare cr bk c =
     (case rs_Subject cr (c_current c) of
        None \<Rightarrow> c\<lparr>c_panicked := True\<rparr>
      | Some sub \<Rightarrow>
          (case EncodeToBytes (subject_rval sub) of
             Inl _ \<Rightarrow> c
           | Inr encodedSubject \<Rightarrow> broadcast cr bk (new_message msgPrepare encodedSubject) c))"

definition broadcastCommit :: "crypto \<Rightarrow> backend \<Rightarrow> subject option \<Rightarrow> core \<Rightarrow> core" where
  "broadcastCommit cr bk sub c =
     (case sub of
        None \<Rightarrow> c\<lparr>c_panicked := True\<rparr>
      | Some sub \<Rightarrow>
          (case EncodeToBytes (subject_rval sub) of
             Inl _ \<Rightarrow> c
           | Inr encodedSubject \<Rightarrow> broadcast cr bk (new_message msgCommit encodedSubject) c))"

definition sendCommit :: "crypto \<Rightarrow> backend \<Rightarrow> core \<Rightarrow> core" where
  "sendCommit cr bk c = broadcastCommit cr bk (rs_Subject cr (c_current c)) c"

definition sendCommitForOldBlock :: "crypto \<Rightarrow> backend \<Rightarrow> view \<Rightarrow> hash \<Rightarrow> core \<Rightarrow> core" where
  "sendCommitForOldBlock cr bk v digest c =
     broadcastCommit cr bk (Some \<lparr>sub_View = v, sub_Digest = digest\<rparr>) c"

section \<open>Checking messages\<close>

definition checkMessage :: "core \<Rightarrow> nat \<Rightarrow> view option \<Rightarrow> core_error option" where
  "checkMessage c msgCode v =
     (case v of
        None \<Rightarrow> Some errInvalidMessage
      | Some v \<Rightarrow>
          if view_Cmp v (currentView c) > 0 then Some errFutureMessage
          else if view_Cmp v (currentView c) < 0 then Some errOldMessage
          else if c_waitingForRoundChange c then Some errFutureMessage
          else if c_state c = StateAcceptRequest then
            (if msgCode > msgPreprepare then Some errFutureMessage else None)
          else None)"

definition checkRequestMsg :: "core \<Rightarrow> block option \<Rightarrow> core_error option" where
  "checkRequestMsg c request =
     (case request of
        None \<Rightarrow> Some errInvalidMessage
      | Some p \<Rightarrow>
          (let d = big_Cmp (rs_sequence (c_current c)) (block_Number p) in
           if d > 0 then Some errOldMessage else if d < 0 then Some errFutureMessage else None))"

section \<open>Backlogs and pending requests\<close>

definition msg_view :: "message \<Rightarrow> view option" where
  "msg_view msg =
     (if m_Code msg = msgPreprepare then
        (case DecodeBytes (m_Msg msg) decodePreprepare of Inr p \<Rightarrow> Some (pp_View p) | Inl _ \<Rightarrow> None)
      else
        (case DecodeBytes (m_Msg msg) decodeSubject of Inr p \<Rightarrow> Some (sub_View p) | Inl _ \<Rightarrow> None))"

definition storeBacklog :: "message \<Rightarrow> validator \<Rightarrow> core \<Rightarrow> core" where
  "storeBacklog msg src c =
     (if snd src = c_address c then c
      else
        (let backlog = (case map_of (c_backlogs c) src of None \<Rightarrow> [] | Some q \<Rightarrow> q);
             backlog1 = (case msg_view msg of
                           Some v \<Rightarrow> prque_Push msg (toPriority (m_Code msg) v) backlog
                         | None \<Rightarrow> backlog)
         in c\<lparr>c_backlogs := AList.update src backlog1 (c_backlogs c)\<rparr>))"

lemma heap_Pop_length: "heap_Pop key h = Some (x, h') \<Longrightarrow> length h = Suc (length h')"
  using mset_heap_down [of 0 "swap h 0 (length h - 1)" "length h - 1" key]
  by (auto simp: heap_Pop_def Let_def split: if_splits)

text \<open>The inner loop of \<^verbatim>\<open>processBacklog\<close>: the rest of the queue and the messages posted.\<close>

function drainBacklog :: "core \<Rightarrow> message prque \<Rightarrow> message prque \<times> message list" where
  "drainBacklog c backlog =
     (case prque_Pop backlog of
        None \<Rightarrow> (backlog, [])
      | Some ((msg, prio), rest) \<Rightarrow>
          (case msg_view msg of
             None \<Rightarrow> drainBacklog c rest
           | Some v \<Rightarrow>
               (case checkMessage c (m_Code msg) (Some v) of
                  Some e \<Rightarrow>
                    if e = errFutureMessage then (prque_Push msg prio rest, [])
                    else drainBacklog c rest
                | None \<Rightarrow>
                    (case drainBacklog c rest of (q, posted) \<Rightarrow> (q, msg # posted)))))"
  by pat_completeness auto
termination
  by (relation "measure (\<lambda>(c, q). length q)") (auto simp: prque_Pop_def dest!: heap_Pop_length)

declare drainBacklog.simps [simp del]

fun processBacklogs :: "core \<Rightarrow> (validator \<times> message prque) list \<Rightarrow>
    (validator \<times> message prque) list \<times> core_effect list" where
  "processBacklogs c [] = ([], [])"
| "processBacklogs c ((src, backlog) # rest) =
     (case drainBacklog c backlog of (q, posted) \<Rightarrow>
      (case processBacklogs c rest of (qs, effs) \<Rightarrow>
         ((src, q) # qs, map (PostBacklog src) posted @ effs)))"

definition processBacklog :: "core \<Rightarrow> core" where
  "processBacklog c =
     (case processBacklogs c (c_backlogs c) of (qs, effs) \<Rightarrow>
        c\<lparr>c_backlogs := qs, c_out := c_out c @ effs\<rparr>)"

definition storeRequestMsg :: "block \<Rightarrow> core \<Rightarrow> core" where
  "storeRequestMsg request c =
     c\<lparr>c_pendingRequests :=
        prque_Push request (float32_int (wrap_i64 (- big_Int64 (block_Number request)))) (c_pendingRequests c)\<rparr>"

function drainRequests :: "core \<Rightarrow> block prque \<Rightarrow> block prque \<times> block list" where
  "drainRequests c pending =
     (case prque_Pop pending of
        None \<Rightarrow> (pending, [])
      | Some ((r, prio), rest) \<Rightarrow>
          (case checkRequestMsg c (Some r) of
             Some e \<Rightarrow>
               if e = errFutureMessage then (prque_Push r prio rest, [])
               else drainRequests c rest
           | None \<Rightarrow> (case drainRequests c rest of (q, posted) \<Rightarrow> (q, r # posted))))"
  by pat_completeness auto
termination
  by (relation "measure (\<lambda>(c, q). length q)") (auto simp: prque_Pop_def dest!: heap_Pop_length)

declare drainRequests.simps [simp del]

definition processPendingRequests :: "core \<Rightarrow> core" where
  "processPendingRequests c =
     (case drainRequests c (c_pendingRequests c) of (q, posted) \<Rightarrow>
        c\<lparr>c_pendingRequests := q, c_out := c_out c @ map PostRequest posted\<rparr>)"

section \<open>Rounds\<close>

definition setState :: "ist_state \<Rightarrow> core \<Rightarrow> core" where
  "setState s c =
     (let c1 = c\<lparr>c_state := s\<rparr>;
          c2 = (if s = StateAcceptRequest then processPendingRequests c1 else c1)
      in processBacklog c2)"

definition stopTimer :: "core \<Rightarrow> core" where
  "stopTimer c = c\<lparr>c_futurePreprepareTimer := None, c_roundChangeTimer := None\<rparr>"

text \<open>\<^verbatim>\<open>uint64(math.Pow(2, round)) * RequestTimeout\<close> milliseconds as a signed 64-bit number of
  nanoseconds. The conversion of a power that does not fit 64 bits is left to the implementation by
  the language and is a parameter.\<close>

definition round_timeout :: "backend \<Rightarrow> nat \<Rightarrow> nat \<Rightarrow> int" where
  "round_timeout bk requestTimeout round =
     (let p = (if round < 64 then 2 ^ round else bk_pow2_overflow bk round);
          t = (p * requestTimeout) mod 2 ^ 64
      in wrap_i64 (wrap_i64 (int t) * 1000000))"

definition newRoundChangeTimer :: "backend \<Rightarrow> core \<Rightarrow> core" where
  "newRoundChangeTimer bk c =
     (stopTimer c)\<lparr>c_roundChangeTimer :=
        Some (round_timeout bk (c_requestTimeout c) (big_Uint64 (rs_round (c_current c))))\<rparr>"

definition updateRoundState :: "view \<Rightarrow> valset \<Rightarrow> bool \<Rightarrow> core \<Rightarrow> core" where
  "updateRoundState v valSet roundChange c =
     c\<lparr>c_current :=
        (if roundChange then
           (if IsHashLocked (c_current c) then
              newRoundState v valSet (rs_lockedHash (c_current c)) (rs_Preprepare (c_current c))
                (rs_pendingRequest (c_current c))
            else newRoundState v valSet 0 None (rs_pendingRequest (c_current c)))
         else newRoundState v valSet 0 None None)\<rparr>"

definition catchUpRound :: "backend \<Rightarrow> view \<Rightarrow> core \<Rightarrow> core" where
  "catchUpRound bk v c =
     (let c1 = updateRoundState v (c_valSet c) True (c\<lparr>c_waitingForRoundChange := True\<rparr>);
          c2 = c1\<lparr>c_roundChangeSet := rcs_Clear (v_Round v) (c_roundChangeSet c1)\<rparr>
      in newRoundChangeTimer bk c2)"

definition sendRoundChange :: "crypto \<Rightarrow> backend \<Rightarrow> int \<Rightarrow> core \<Rightarrow> core" where
  "sendRoundChange cr bk round c =
     (let cv = currentView c in
      if big_Cmp (v_Round cv) round \<ge> 0 then c
      else
        (let c1 = catchUpRound bk \<lparr>v_Round = round, v_Sequence = v_Sequence cv\<rparr> c;
             cv1 = currentView c1;
             rc = \<lparr>rc_Round = v_Round cv1, rc_Sequence = v_Sequence cv1, rc_Digest = 0\<rparr>
         in case EncodeToBytes (roundChange_rval rc) of
              Inl _ \<Rightarrow> c1
            | Inr payload \<Rightarrow> broadcast cr bk (new_message msgRoundChange payload) c1))"

definition sendNextRoundChange :: "crypto \<Rightarrow> backend \<Rightarrow> core \<Rightarrow> core" where
  "sendNextRoundChange cr bk c = sendRoundChange cr bk (v_Round (currentView c) + 1) c"

text \<open>The steps of \<^verbatim>\<open>startNewRound\<close> after the view and the last proposal are known.\<close>

definition enterRound :: "crypto \<Rightarrow> backend \<Rightarrow> view \<Rightarrow> bool \<Rightarrow> core \<Rightarrow> core" where
  "enterRound cr bk newView roundChange c =
     (case bk_Validators bk (c_lastProposal c) of (vid, vs) \<Rightarrow>
      let c1 = c\<lparr>c_valSet := vs, c_valSetId := vid, c_roundChangeSet := newRoundChangeSet vs\<rparr>;
          c2 = updateRoundState newView (c_valSet c1) roundChange c1;
          c3 = c2\<lparr>c_valSet := CalcProposer (c_valSet c2) (c_lastProposer c2) (big_Uint64 (v_Round newView)),
                  c_waitingForRoundChange := False\<rparr>;
          c4 = setState StateAcceptRequest c3;
          c5 = (if roundChange \<and> isProposer bk c4 then
                  (if IsHashLocked (c_current c4) then
                     (case rs_Proposal (c_current c4) of
                        Some p \<Rightarrow> sendPreprepare cr bk p c4
                      | None \<Rightarrow> c4\<lparr>c_panicked := True\<rparr>)
                   else
                     (case rs_pendingRequest (c_current c4) of
                        Some p \<Rightarrow> sendPreprepare cr bk p c4
                      | None \<Rightarrow> c4))
                else c4)
      in newRoundChangeTimer bk c5)"

definition startNewRound ::
  "crypto \<Rightarrow> backend \<Rightarrow> view \<Rightarrow> block option \<Rightarrow> address \<Rightarrow> bool \<Rightarrow> core \<Rightarrow> core" where
  "startNewRound cr bk newView lastProposal lastProposer roundChange c =
     (case lastProposal of
        Some _ \<Rightarrow> enterRound cr bk newView roundChange c
      | None \<Rightarrow>
          (case bk_LastProposal bk of
             None \<Rightarrow> c\<lparr>c_panicked := True\<rparr>
           | Some (lp, lpr) \<Rightarrow>
               if big_Cmp (block_Number lp) (v_Sequence newView) > 0 then
                 enterRound cr bk \<lparr>v_Round = 0, v_Sequence = block_Number lp + 1\<rparr> roundChange
                   (c\<lparr>c_lastProposal := lp, c_lastProposer := lpr\<rparr>)
               else enterRound cr bk newView roundChange c))"

definition core_commit :: "crypto \<Rightarrow> backend \<Rightarrow> core \<Rightarrow> core" where
  "core_commit cr bk c =
     (let c1 = setState StateCommitted c in
      case rs_Proposal (c_current c1) of
        None \<Rightarrow> c1
      | Some proposal \<Rightarrow>
          (let committedSeals = map (\<lambda>m. fixed_seal (m_CommittedSeal m)) (ms_Values (rs_Commits (c_current c1)));
               c2 = emit (CommitProposal proposal committedSeals) c1
           in if bk_Commit bk proposal committedSeals then c2
              else sendNextRoundChange cr bk (c2\<lparr>c_current := UnlockHash (c_current c2)\<rparr>)))"

section \<open>Handlers\<close>

definition acceptPreprepare :: "preprepare \<Rightarrow> core \<Rightarrow> core" where
  "acceptPreprepare pp c = c\<lparr>c_current := SetPreprepare pp (c_current c)\<rparr>"

definition handlePreprepare :: "crypto \<Rightarrow> backend \<Rightarrow> message \<Rightarrow> validator \<Rightarrow> core \<Rightarrow> core_error option \<times> core" where
  "handlePreprepare cr bk msg src c =
     (case DecodeBytes (m_Msg msg) decodePreprepare of
        Inl _ \<Rightarrow> (Some errFailedDecodePreprepare, c)
      | Inr pp \<Rightarrow>
          (case checkMessage c msgPreprepare (Some (pp_View pp)) of
             Some e \<Rightarrow> (Some e, c)
           | None \<Rightarrow>
               if \<not> IsProposer (c_valSet c) (snd src) then (Some errNotFromProposer, c)
               else
                 (case bk_Verify bk (pp_Proposal pp) of
                    VerifyFuture duration \<Rightarrow>
                      (Some (errVerify (VerifyFuture duration)),
                       c\<lparr>c_futurePreprepareTimer := Some (duration, src, msg)\<rparr>)
                  | VerifyFail \<Rightarrow> (Some (errVerify VerifyFail), sendNextRoundChange cr bk c)
                  | VerifyOk \<Rightarrow>
                      if c_state c = StateAcceptRequest then
                        if IsHashLocked (c_current c) \<and>
                           block_Hash (kec cr) (pp_Proposal pp) \<noteq> rs_lockedHash (c_current c)
                        then (None, sendNextRoundChange cr bk c)
                        else
                          (None,
                           sendPrepare cr bk (setState StatePreprepared (acceptPreprepare pp c)))
                      else (None, c))))"

definition verifyPrepare :: "crypto \<Rightarrow> subject \<Rightarrow> core \<Rightarrow> core_error option" where
  "verifyPrepare cr prepare c =
     (if Some prepare \<noteq> rs_Subject cr (c_current c) then Some errInconsistentSubject else None)"

definition verifyCommit :: "crypto \<Rightarrow> subject \<Rightarrow> core \<Rightarrow> core_error option" where
  "verifyCommit cr commit c =
     (if Some commit \<noteq> rs_Subject cr (c_current c) then Some errInconsistentSubject else None)"

definition acceptPrepare :: "crypto \<Rightarrow> message \<Rightarrow> core \<Rightarrow> core" where
  "acceptPrepare cr msg c =
     c\<lparr>c_current := (c_current c)\<lparr>rs_Prepares := snd (ms_Add cr msg (rs_Prepares (c_current c)))\<rparr>\<rparr>"

definition acceptCommit :: "crypto \<Rightarrow> message \<Rightarrow> core \<Rightarrow> core" where
  "acceptCommit cr msg c =
     c\<lparr>c_current := (c_current c)\<lparr>rs_Commits := snd (ms_Add cr msg (rs_Commits (c_current c)))\<rparr>\<rparr>"

definition handlePrepare :: "crypto \<Rightarrow> backend \<Rightarrow> message \<Rightarrow> validator \<Rightarrow> core \<Rightarrow> core_error option \<times> core" where
  "handlePrepare cr bk msg src c =
     (case DecodeBytes (m_Msg msg) decodeSubject of
        Inl _ \<Rightarrow> (Some errFailedDecodePrepare, c)
      | Inr sub \<Rightarrow>
          (case checkMessage c msgPrepare (Some (sub_View sub)) of
             Some e \<Rightarrow> (Some e, c)
           | None \<Rightarrow>
               (case verifyPrepare cr sub c of
                  Some e \<Rightarrow> (Some e, c)
                | None \<Rightarrow>
                    (let c1 = acceptPrepare cr msg c in
                     if (IsHashLocked (c_current c1) \<or>
                         int (ms_Size (rs_Prepares (c_current c1))) > 2 * vs_F (c_valSet c1)) \<and>
                        state_Cmp (c_state c1) StatePrepared < 0
                     then
                       (None,
                        sendCommit cr bk
                          (setState StatePrepared (c1\<lparr>c_current := LockHash cr (c_current c1)\<rparr>)))
                     else (None, c1)))))"

definition handleCommit :: "crypto \<Rightarrow> backend \<Rightarrow> message \<Rightarrow> validator \<Rightarrow> core \<Rightarrow> core_error option \<times> core" where
  "handleCommit cr bk msg src c =
     (case DecodeBytes (m_Msg msg) decodeSubject of
        Inl _ \<Rightarrow> (Some errFailedDecodeCommit, c)
      | Inr sub \<Rightarrow>
          (case checkMessage c msgCommit (Some (sub_View sub)) of
             Some e \<Rightarrow> (Some e, c)
           | None \<Rightarrow>
               (case verifyCommit cr sub c of
                  Some e \<Rightarrow> (Some e, c)
                | None \<Rightarrow>
                    (let c1 = acceptCommit cr msg c in
                     if int (ms_Size (rs_Commits (c_current c1))) > 2 * vs_F (c_valSet c1) \<and>
                        state_Cmp (c_state c1) StateCommitted < 0
                     then (None, core_commit cr bk (c1\<lparr>c_current := LockHash cr (c_current c1)\<rparr>))
                     else (None, c1)))))"

definition handleRoundChange :: "crypto \<Rightarrow> backend \<Rightarrow> message \<Rightarrow> validator \<Rightarrow> core \<Rightarrow> core_error option \<times> core" where
  "handleRoundChange cr bk msg src c =
     (case DecodeBytes (m_Msg msg) decodeRoundChange of
        Inl _ \<Rightarrow> (Some errInvalidMessage, c)
      | Inr rc \<Rightarrow>
          (let cv = currentView c in
           if big_Cmp (rc_Sequence rc) (v_Sequence cv) \<noteq> 0 then (Some errInvalidMessage, c)
           else if big_Cmp (rc_Round rc) (v_Round cv) < 0 then (Some errOldMessage, c)
           else
             (case rcs_Add cr (rc_Round rc) msg (c_roundChangeSet c) of
                (Inl e, rcs) \<Rightarrow> (Some (errMessageSet e), c\<lparr>c_roundChangeSet := rcs\<rparr>)
              | (Inr num, rcs) \<Rightarrow>
                  (let c1 = c\<lparr>c_roundChangeSet := rcs\<rparr> in
                   if c_waitingForRoundChange c1 \<and> int num = vs_F (c_valSet c1) + 1 then
                     (if big_Cmp (v_Round cv) (rc_Round rc) < 0
                      then (None, sendRoundChange cr bk (rc_Round rc) c1) else (None, c1))
                   else if int num = 2 * vs_F (c_valSet c1) + 1 \<and>
                           (c_waitingForRoundChange c1 \<or> big_Cmp (v_Round cv) (rc_Round rc) < 0)
                   then
                     (None,
                      startNewRound cr bk \<lparr>v_Round = rc_Round rc, v_Sequence = rc_Sequence rc\<rparr> None 0 True c1)
                   else if big_Cmp (v_Round cv) (rc_Round rc) < 0 then (Some errFutureMessage, c1)
                   else (None, c1)))))"

definition testBacklog :: "message \<Rightarrow> validator \<Rightarrow> core_error option \<times> core \<Rightarrow> core_error option \<times> core" where
  "testBacklog msg src r =
     (case r of (err, c) \<Rightarrow>
        (err, if err = Some errFutureMessage then storeBacklog msg src c else c))"

definition handleCheckedMsg :: "crypto \<Rightarrow> backend \<Rightarrow> message \<Rightarrow> validator \<Rightarrow> core \<Rightarrow> core_error option \<times> core" where
  "handleCheckedMsg cr bk msg src c =
     (if m_Code msg = msgPreprepare then testBacklog msg src (handlePreprepare cr bk msg src c)
      else if m_Code msg = msgPrepare then testBacklog msg src (handlePrepare cr bk msg src c)
      else if m_Code msg = msgCommit then testBacklog msg src (handleCommit cr bk msg src c)
      else if m_Code msg = msgRoundChange then handleRoundChange cr bk msg src c
      else (Some errInvalidMessage, c))"

definition handleMsg :: "crypto \<Rightarrow> backend \<Rightarrow> bytes \<Rightarrow> core \<Rightarrow> core_error option \<times> core" where
  "handleMsg cr bk payload c =
     (case FromPayload payload (Some (CheckValidatorSignature cr (c_valSet c))) of
        Inl e \<Rightarrow> (Some (errPayload e), c)
      | Inr msg \<Rightarrow>
          (case GetByAddress (c_valSet c) (m_Address msg) of
             (_, None) \<Rightarrow> (Some errUnauthorizedAddress, c)
           | (_, Some a) \<Rightarrow> handleCheckedMsg cr bk msg (c_valSetId c, a) c))"

definition handleRequest :: "crypto \<Rightarrow> backend \<Rightarrow> block option \<Rightarrow> core \<Rightarrow> core_error option \<times> core" where
  "handleRequest cr bk request c =
     (case checkRequestMsg c request of
        Some e \<Rightarrow> (Some e, c)
      | None \<Rightarrow>
          (let c1 = c\<lparr>c_current := (c_current c)\<lparr>rs_pendingRequest := request\<rparr>\<rparr> in
           if c_state c1 = StateAcceptRequest then (None, sendPreprepare cr bk (the request) c1)
           else (None, c1)))"

definition handleTimeoutMsg :: "crypto \<Rightarrow> backend \<Rightarrow> core \<Rightarrow> core" where
  "handleTimeoutMsg cr bk c =
     (let maxRound = (if \<not> c_waitingForRoundChange c
                      then MaxRound (vs_F (c_valSet c) + 1) (c_roundChangeSet c) else None);
          higher = (case maxRound of None \<Rightarrow> False | Some r \<Rightarrow> big_Cmp r (rs_round (c_current c)) > 0)
      in if higher then sendRoundChange cr bk (the maxRound) c
         else
           (case bk_LastProposal bk of
              Some (lp, lpr) \<Rightarrow>
                if big_Cmp (block_Number lp) (rs_sequence (c_current c)) > 0
                then startNewRound cr bk \<lparr>v_Round = 0, v_Sequence = block_Number lp + 1\<rparr> (Some lp) lpr False c
                else sendNextRoundChange cr bk c
            | None \<Rightarrow> sendNextRoundChange cr bk c))"

definition handleFinalCommitted :: "crypto \<Rightarrow> backend \<Rightarrow> block \<Rightarrow> address \<Rightarrow> core \<Rightarrow> core" where
  "handleFinalCommitted cr bk proposal proposer c =
     (if big_Cmp (block_Number proposal) (rs_sequence (c_current c)) \<ge> 0 then
        startNewRound cr bk \<lparr>v_Round = 0, v_Sequence = block_Number proposal + 1\<rparr> (Some proposal) proposer False
          (c\<lparr>c_lastProposer := proposer, c_lastProposal := proposal\<rparr>)
      else c)"

section \<open>The event loop\<close>

text \<open>\<^verbatim>\<open>New\<close> leaves the last proposal, the validator set and the round state nil until \<^verbatim>\<open>Start\<close>
  sets them; here they have the values of the argument \<open>c0\<close>, which \<open>core_Start\<close> does not read.\<close>

definition core_New :: "backend \<Rightarrow> nat \<Rightarrow> core \<Rightarrow> core" where
  "core_New bk requestTimeout c0 =
     c0\<lparr>c_requestTimeout := requestTimeout, c_address := bk_Address bk, c_state := StateAcceptRequest,
        c_lastProposer := 0, c_waitingForRoundChange := False, c_backlogs := [],
        c_pendingRequests := [], c_roundChangeTimer := None, c_futurePreprepareTimer := None,
        c_panicked := False, c_out := []\<rparr>"

datatype core_event =
    RequestEvent "block option"
  | MessageEvent bytes
  | BacklogEvent validator message
  | TimeoutEvent
  | FinalCommittedEvent block address

definition handleEvent :: "crypto \<Rightarrow> backend \<Rightarrow> core_event \<Rightarrow> core \<Rightarrow> core" where
  "handleEvent cr bk ev c =
     (case ev of
        RequestEvent p \<Rightarrow>
          (case handleRequest cr bk p c of (err, c1) \<Rightarrow>
             if err = Some errFutureMessage then storeRequestMsg (the p) c1 else c1)
      | MessageEvent payload \<Rightarrow>
          (case handleMsg cr bk payload c of (err, c1) \<Rightarrow>
             if err = None then emit (GossipPayload (c_valSet c1) payload) c1 else c1)
      | BacklogEvent src msg \<Rightarrow>
          (case handleCheckedMsg cr bk msg src c of (err, c1) \<Rightarrow>
             if err = None then
               (case Payload msg of
                  Inl _ \<Rightarrow> c1
                | Inr p \<Rightarrow> emit (GossipPayload (c_valSet c1) p) c1)
             else c1)
      | TimeoutEvent \<Rightarrow> handleTimeoutMsg cr bk c
      | FinalCommittedEvent p proposer \<Rightarrow> handleFinalCommitted cr bk p proposer c)"

text \<open>\<^verbatim>\<open>Start\<close> reads nothing of the round state it replaces.\<close>

definition core_Start :: "crypto \<Rightarrow> backend \<Rightarrow> int \<Rightarrow> address \<Rightarrow> block \<Rightarrow> core \<Rightarrow> core" where
  "core_Start cr bk lastSequence lastProposer lastProposal c =
     (case bk_Validators bk lastProposal of (vid, vs) \<Rightarrow>
        startNewRound cr bk \<lparr>v_Round = 0, v_Sequence = lastSequence + 1\<rparr> (Some lastProposal) lastProposer False
          (c\<lparr>c_lastProposer := lastProposer, c_lastProposal := lastProposal, c_valSet := vs, c_valSetId := vid\<rparr>))"

end
