(* ===== verification/Istanbul_Safety.thy ===== *)
theory Istanbul_Safety
  imports Istanbul_Voting Istanbul_Core
begin

text \<open>
  The consensus core refines the voting automaton: every event the core handles is a sequence of
  automaton steps on its abstraction. Votes and decisions are read off the effects.
\<close>

section \<open>Abstraction\<close>

definition vote_of :: "core_effect \<Rightarrow> message list" where
  "vote_of e = (case e of
     Broadcast vs m payload \<Rightarrow> if m_Code m = msgPrepare \<or> m_Code m = msgCommit then [m] else []
   | _ \<Rightarrow> [])"

definition decision_of :: "core_effect \<Rightarrow> (block \<times> bytes list) list" where
  "decision_of e = (case e of CommitProposal p seals \<Rightarrow> [(p, seals)] | _ \<Rightarrow> [])"

definition votes_of :: "core \<Rightarrow> message list" where
  "votes_of c = concat (map vote_of (c_out c))"

definition decisions_of :: "core \<Rightarrow> (block \<times> bytes list) list" where
  "decisions_of c = concat (map decision_of (c_out c))"

definition core_abs :: "core \<Rightarrow> ist_state \<times> bool \<times> round_state \<times> valset \<times> message list \<times> (block \<times> bytes list) list" where
  "core_abs c = (c_state c, c_waitingForRoundChange c, (c_current c)\<lparr>rs_pendingRequest := None\<rparr>, c_valSet c,
     votes_of c, decisions_of c)"

definition cast :: "message \<Rightarrow> nat \<times> subject \<Rightarrow> bool" where
  "cast m v \<longleftrightarrow> m_Code m = fst v \<and> EncodeToBytes (subject_rval (snd v)) = Inr (m_Msg m)"

definition sim :: "core \<Rightarrow> voting \<Rightarrow> bool" where
  "sim c q \<longleftrightarrow>
     q_view q = currentView c \<and> q_state q = c_state c \<and> q_waiting q = c_waitingForRoundChange c \<and>
     q_prop q = rs_Preprepare (c_current c) \<and> q_lock q = rs_lockedHash (c_current c) \<and>
     q_prepares q = ms_messages (rs_Prepares (c_current c)) \<and>
     q_commits q = ms_messages (rs_Commits (c_current c)) \<and>
     q_vals q = vs_validators (c_valSet c) \<and>
     vs_validators (ms_valSet (rs_Prepares (c_current c))) = vs_validators (c_valSet c) \<and>
     vs_validators (ms_valSet (rs_Commits (c_current c))) = vs_validators (c_valSet c) \<and>
     list_all2 cast (votes_of c) (q_votes q) \<and> q_decided q = decisions_of c"

lemma sim_abs:
  assumes "core_abs c' = core_abs c" "sim c q"
  shows "sim c' q"
proof -
  have eq: "(c_current c')\<lparr>rs_pendingRequest := None\<rparr> = (c_current c)\<lparr>rs_pendingRequest := None\<rparr>"
    using assms(1) by (simp add: core_abs_def)
  have "f (c_current c') = f (c_current c)"
    if "\<And>s. f (s\<lparr>rs_pendingRequest := None\<rparr>) = f s" for f :: "round_state \<Rightarrow> 'b"
    using arg_cong [OF eq, of f] that by simp
  note this [of rs_Preprepare] this [of rs_lockedHash] this [of rs_Prepares] this [of rs_Commits]
    this [of rs_round] this [of rs_sequence]
  with assms show ?thesis by (simp add: sim_def core_abs_def currentView_def)
qed

section \<open>What the helpers leave alone\<close>

lemma abs_fields [simp]:
  "core_abs (c\<lparr>c_backlogs := bl\<rparr>) = core_abs c"
  "core_abs (c\<lparr>c_pendingRequests := pr\<rparr>) = core_abs c"
  "core_abs (c\<lparr>c_roundChangeSet := rcs\<rparr>) = core_abs c"
  "core_abs (c\<lparr>c_roundChangeTimer := t\<rparr>) = core_abs c"
  "core_abs (c\<lparr>c_futurePreprepareTimer := ft\<rparr>) = core_abs c"
  "core_abs (c\<lparr>c_panicked := pa\<rparr>) = core_abs c"
  "core_abs (c\<lparr>c_lastProposer := lpr\<rparr>) = core_abs c"
  "core_abs (c\<lparr>c_lastProposal := lp\<rparr>) = core_abs c"
  "core_abs (c\<lparr>c_valSetId := n\<rparr>) = core_abs c"
  by (simp_all add: core_abs_def votes_of_def decisions_of_def)

lemma finalizeMessage_keeps:
  "finalizeMessage cr bk c msg = Some (m, payload) \<Longrightarrow> m_Code m = m_Code msg \<and> m_Msg m = m_Msg msg"
  by (auto simp: finalizeMessage_def Let_def split: option.splits if_splits sum.splits)

lemma abs_out:
  assumes "concat (map vote_of es) = []" "concat (map decision_of es) = []"
  shows "core_abs (c\<lparr>c_out := c_out c @ es\<rparr>) = core_abs c"
  using assms by (simp add: core_abs_def votes_of_def decisions_of_def)

lemma abs_gossip [simp]: "core_abs (emit (GossipPayload vs p) c) = core_abs c"
  unfolding emit_def by (rule abs_out) (simp_all add: vote_of_def decision_of_def)

lemma abs_broadcast:
  assumes "m_Code m \<noteq> msgPrepare" "m_Code m \<noteq> msgCommit"
  shows "core_abs (broadcast cr bk m c) = core_abs c"
proof (cases "finalizeMessage cr bk c m")
  case (Some r)
  then obtain m' payload where r: "finalizeMessage cr bk c m = Some (m', payload)" by (cases r) simp
  with finalizeMessage_keeps [OF r] assms show ?thesis
    unfolding broadcast_def r emit_def by (simp add: abs_out vote_of_def decision_of_def)
qed (simp add: broadcast_def)

lemma abs_sendPreprepare [simp]: "core_abs (sendPreprepare cr bk p c) = core_abs c"
  by (simp add: sendPreprepare_def abs_broadcast new_message_def split: sum.split)

lemma processBacklogs_quiet:
  "concat (map vote_of (snd (processBacklogs c l))) = [] \<and> concat (map decision_of (snd (processBacklogs c l))) = []"
  by (induction l rule: processBacklogs.induct)
    (auto simp: vote_of_def decision_of_def split: prod.splits)

lemma abs_processBacklog [simp]: "core_abs (processBacklog c) = core_abs c"
proof -
  obtain qs effs where r: "processBacklogs c (c_backlogs c) = (qs, effs)" by fastforce
  have "core_abs (processBacklog c) = core_abs (c\<lparr>c_backlogs := qs, c_out := c_out (c\<lparr>c_backlogs := qs\<rparr>) @ effs\<rparr>)"
    by (simp add: processBacklog_def r)
  also have "\<dots> = core_abs c"
    using abs_out [of effs "c\<lparr>c_backlogs := qs\<rparr>"] processBacklogs_quiet [of c "c_backlogs c"] r by simp
  finally show ?thesis .
qed

lemma abs_processPendingRequests [simp]: "core_abs (processPendingRequests c) = core_abs c"
proof -
  obtain qs ps where r: "drainRequests c (c_pendingRequests c) = (qs, ps)" by fastforce
  have "concat (map vote_of (map PostRequest ps)) = []" "concat (map decision_of (map PostRequest ps)) = []"
    by (induction ps) (auto simp: vote_of_def decision_of_def)
  then show ?thesis
    using abs_out [of "map PostRequest ps" "c\<lparr>c_pendingRequests := qs\<rparr>"]
    by (simp add: processPendingRequests_def r)
qed

lemma abs_setState [simp]: "core_abs (setState s c) = core_abs (c\<lparr>c_state := s\<rparr>)"
  by (simp add: setState_def Let_def)

lemma abs_newRoundChangeTimer [simp]: "core_abs (newRoundChangeTimer bk c) = core_abs c"
  by (simp add: newRoundChangeTimer_def stopTimer_def)

lemma abs_storeBacklog [simp]: "core_abs (storeBacklog msg src c) = core_abs c"
  by (simp add: storeBacklog_def Let_def)

lemma abs_storeRequestMsg [simp]: "core_abs (storeRequestMsg p c) = core_abs c"
  by (simp add: storeRequestMsg_def)

lemma abs_pendingRequest [simp]:
  "core_abs (c\<lparr>c_current := (c_current c)\<lparr>rs_pendingRequest := p\<rparr>\<rparr>) = core_abs c"
  by (simp add: core_abs_def votes_of_def decisions_of_def)

section \<open>Simulation of the helpers\<close>

lemma sim_setState: "sim c q \<Longrightarrow> sim (setState s c) (q\<lparr>q_state := s\<rparr>)"
  by (rule sim_abs [OF abs_setState])
    (simp add: sim_def currentView_def votes_of_def decisions_of_def)

lemma sim_broadcast:
  assumes "sim c q" "k = msgPrepare \<or> k = msgCommit" "EncodeToBytes (subject_rval s) = Inr b"
  shows "\<exists>vs. (vs = [] \<or> vs = [(k, s)]) \<and>
    sim (broadcast cr bk (new_message k b) c) (q\<lparr>q_votes := q_votes q @ vs\<rparr>)"
proof (cases "finalizeMessage cr bk c (new_message k b)")
  case None
  then have "sim (broadcast cr bk (new_message k b) c) (q\<lparr>q_votes := q_votes q @ []\<rparr>)"
    using assms(1) by (simp add: broadcast_def)
  then show ?thesis by blast
next
  case (Some r)
  then obtain m payload where r: "finalizeMessage cr bk c (new_message k b) = Some (m, payload)" by (cases r) simp
  have m: "m_Code m = k" "m_Msg m = b" using finalizeMessage_keeps [OF r] by (simp_all add: new_message_def)
  let ?c = "broadcast cr bk (new_message k b) c"
  have c: "?c = emit (Broadcast (c_valSet c) m payload) c" by (simp add: broadcast_def r)
  have "votes_of ?c = votes_of c @ [m]" "decisions_of ?c = decisions_of c"
    unfolding c using assms(2) m by (auto simp: emit_def votes_of_def decisions_of_def vote_of_def decision_of_def)
  moreover have "cast m (k, s)" using m assms(3) by (simp add: cast_def)
  ultimately have "sim ?c (q\<lparr>q_votes := q_votes q @ [(k, s)]\<rparr>)"
    using assms(1) unfolding sim_def c
    by (auto simp: emit_def currentView_def intro: list_all2_appendI)
  then show ?thesis by blast
qed

lemma sim_vote_subject:
  assumes "sim c q" "rs_Preprepare (c_current c) = Some pp"
  shows "rs_Subject cr (c_current c) = Some \<lparr>sub_View = q_view q, sub_Digest = digest cr pp\<rparr>"
  using assms by (simp add: rs_Subject_def sim_def currentView_def digest_def)

lemma sim_sendPrepare:
  assumes "sim c q" "rs_Preprepare (c_current c) = Some pp"
  shows "\<exists>vs. (vs = [] \<or> vs = [(msgPrepare, \<lparr>sub_View = q_view q, sub_Digest = digest cr pp\<rparr>)]) \<and>
    sim (sendPrepare cr bk c) (q\<lparr>q_votes := q_votes q @ vs\<rparr>)"
proof (cases "EncodeToBytes (subject_rval \<lparr>sub_View = q_view q, sub_Digest = digest cr pp\<rparr>)")
  case (Inl e)
  with assms have "sim (sendPrepare cr bk c) (q\<lparr>q_votes := q_votes q @ []\<rparr>)"
    by (simp add: sendPrepare_def sim_vote_subject)
  then show ?thesis by blast
next
  case (Inr b)
  with assms sim_broadcast [OF assms(1), of msgPrepare] show ?thesis
    by (simp add: sendPrepare_def sim_vote_subject)
qed

lemma sim_sendCommit:
  assumes "sim c q" "rs_Preprepare (c_current c) = Some pp"
  shows "\<exists>vs. (vs = [] \<or> vs = [(msgCommit, \<lparr>sub_View = q_view q, sub_Digest = digest cr pp\<rparr>)]) \<and>
    sim (sendCommit cr bk c) (q\<lparr>q_votes := q_votes q @ vs\<rparr>)"
proof (cases "EncodeToBytes (subject_rval \<lparr>sub_View = q_view q, sub_Digest = digest cr pp\<rparr>)")
  case (Inl e)
  with assms have "sim (sendCommit cr bk c) (q\<lparr>q_votes := q_votes q @ []\<rparr>)"
    by (simp add: sendCommit_def broadcastCommit_def sim_vote_subject)
  then show ?thesis by blast
next
  case (Inr b)
  with assms sim_broadcast [OF assms(1), of msgCommit] show ?thesis
    by (simp add: sendCommit_def broadcastCommit_def sim_vote_subject)
qed

section \<open>Simulation of the rounds\<close>

definition bvals :: "(backend \<Rightarrow> bool) \<Rightarrow> address list \<Rightarrow> bool" where
  "bvals B vals \<longleftrightarrow> (\<exists>bk b. B bk \<and> vals = vs_validators (snd (bk_Validators bk b)))"

definition bvalid :: "(backend \<Rightarrow> bool) \<Rightarrow> block \<Rightarrow> bool" where
  "bvalid B p \<longleftrightarrow> (\<exists>bk. B bk \<and> bk_Verify bk p = VerifyOk)"

definition bfail :: "(backend \<Rightarrow> bool) \<Rightarrow> bool" where
  "bfail B \<longleftrightarrow> (\<exists>bk p seals. B bk \<and> \<not> bk_Commit bk p seals)"

abbreviation bstep :: "crypto \<Rightarrow> (backend \<Rightarrow> bool) \<Rightarrow> voting \<Rightarrow> voting \<Rightarrow> bool" where
  "bstep cr B \<equiv> qstep cr (bvals B) (bvalid B) (bfail B)"

definition sims :: "crypto \<Rightarrow> (backend \<Rightarrow> bool) \<Rightarrow> voting \<Rightarrow> core \<Rightarrow> bool" where
  "sims cr B q c \<longleftrightarrow> (\<exists>q'. (bstep cr B)\<^sup>*\<^sup>* q q' \<and> sim c q')"

lemma sims_refl: "sim c q \<Longrightarrow> sims cr B q c"
  by (auto simp: sims_def)

lemma sims_step: "bstep cr B q q' \<Longrightarrow> sims cr B q' c \<Longrightarrow> sims cr B q c"
  unfolding sims_def by (meson converse_rtranclp_into_rtranclp)

lemma sims_abs: "core_abs c' = core_abs c \<Longrightarrow> sims cr B q c \<Longrightarrow> sims cr B q c'"
  unfolding sims_def using sim_abs by blast

lemma newRoundState_sel [simp]:
  "rs_round (newRoundState v vs h pp pr) = v_Round v" "rs_sequence (newRoundState v vs h pp pr) = v_Sequence v"
  "rs_Preprepare (newRoundState v vs h pp pr) = pp" "rs_lockedHash (newRoundState v vs h pp pr) = h"
  "rs_Prepares (newRoundState v vs h pp pr) = newMessageSet vs"
  "rs_Commits (newRoundState v vs h pp pr) = newMessageSet vs"
  "rs_pendingRequest (newRoundState v vs h pp pr) = pr"
  by (simp_all add: newRoundState_def)

lemma newMessageSet_sel [simp]: "ms_messages (newMessageSet vs) = []" "ms_valSet (newMessageSet vs) = vs"
  by (simp_all add: newMessageSet_def)

lemma sim_catchUpRound:
  assumes "sim c q" "v_Sequence v = rs_sequence (c_current c)"
  shows "sim (catchUpRound bk v c)
    (q\<lparr>q_view := (q_view q)\<lparr>v_Round := v_Round v\<rparr>, q_waiting := True, q_prop := kept q,
       q_prepares := [], q_commits := []\<rparr>)"
proof -
  have "core_abs (catchUpRound bk v c) = core_abs (updateRoundState v (c_valSet c) True (c\<lparr>c_waitingForRoundChange := True\<rparr>))"
    by (simp add: catchUpRound_def Let_def)
  then show ?thesis
    by (rule sim_abs) (use assms in \<open>auto simp: sim_def updateRoundState_def currentView_def votes_of_def
        decisions_of_def kept_def IsHashLocked_def\<close>)
qed

lemma sims_sendRoundChange:
  assumes "sim c q"
  shows "sims cr B q (sendRoundChange cr bk r c)"
proof (cases "rs_round (c_current c) < r")
  case False
  then show ?thesis using assms by (simp add: sendRoundChange_def currentView_def sims_refl)
next
  case True
  let ?v = "\<lparr>v_Round = r, v_Sequence = rs_sequence (c_current c)\<rparr>"
  let ?q = "q\<lparr>q_view := (q_view q)\<lparr>v_Round := v_Round ?v\<rparr>, q_waiting := True, q_prop := kept q,
       q_prepares := [], q_commits := []\<rparr>"
  have abs: "core_abs (sendRoundChange cr bk r c) = core_abs (catchUpRound bk ?v c)"
    using True by (simp add: sendRoundChange_def currentView_def Let_def abs_broadcast new_message_def split: sum.split)
  have sim: "sim (catchUpRound bk ?v c) ?q" by (rule sim_catchUpRound [OF assms]) simp
  have "bstep cr B q ?q"
    using True assms catch_up [of q "v_Round ?v"] by (simp add: sim_def currentView_def)
  from sims_abs [OF abs sims_step [OF this sims_refl [OF sim]]] show ?thesis .
qed

lemma abs_enterRound:
  "core_abs (enterRound cr bk v rc c) =
     core_abs ((updateRoundState v (snd (bk_Validators bk (c_lastProposal c))) rc c)
       \<lparr>c_valSet := CalcProposer (snd (bk_Validators bk (c_lastProposal c))) (c_lastProposer c) (big_Uint64 (v_Round v)),
        c_waitingForRoundChange := False, c_state := StateAcceptRequest\<rparr>)"
proof -
  obtain vid vs where vs: "bk_Validators bk (c_lastProposal c) = (vid, vs)" by fastforce
  show ?thesis unfolding enterRound_def vs Let_def
    by (simp add: updateRoundState_def split: option.split) (simp add: core_abs_def votes_of_def decisions_of_def)
qed

lemma validators_CalcProposer [simp]: "vs_validators (CalcProposer v lp r) = vs_validators v"
  by (simp add: CalcProposer_def)

lemma sims_enterRound_keep:
  assumes "sim c q" "B bk" "view_le (currentView c) v" "c_waitingForRoundChange c \<or> v \<noteq> currentView c"
  shows "sims cr B q (enterRound cr bk v True c)"
proof -
  let ?vals = "vs_validators (snd (bk_Validators bk (c_lastProposal c)))"
  let ?q = "q\<lparr>q_view := v, q_state := StateAcceptRequest, q_waiting := False, q_prop := kept q,
        q_prepares := [], q_commits := [], q_vals := ?vals\<rparr>"
  have "bvals B ?vals" using assms(2) by (auto simp: bvals_def)
  then have "bstep cr B q ?q" using assms by (intro enter) (auto simp: sim_def)
  moreover have "sim (enterRound cr bk v True c) ?q"
    by (rule sim_abs [OF abs_enterRound])
      (use assms(1) in \<open>auto simp: sim_def updateRoundState_def currentView_def votes_of_def
        decisions_of_def kept_def IsHashLocked_def\<close>)
  ultimately show ?thesis using sims_step sims_refl by blast
qed

lemma sims_enterRound_fresh:
  assumes "sim c q" "B bk" "rs_sequence (c_current c) < v_Sequence v"
  shows "sims cr B q (enterRound cr bk v False c)"
proof -
  let ?vals = "vs_validators (snd (bk_Validators bk (c_lastProposal c)))"
  let ?q = "q\<lparr>q_view := v, q_state := StateAcceptRequest, q_waiting := False, q_prop := None, q_lock := 0,
        q_prepares := [], q_commits := [], q_vals := ?vals\<rparr>"
  have "bvals B ?vals" using assms(2) by (auto simp: bvals_def)
  then have "bstep cr B q ?q" using assms by (intro fresh) (auto simp: sim_def currentView_def)
  moreover have "sim (enterRound cr bk v False c) ?q"
    by (rule sim_abs [OF abs_enterRound])
      (use assms(1) in \<open>auto simp: sim_def updateRoundState_def currentView_def votes_of_def
        decisions_of_def\<close>)
  ultimately show ?thesis using sims_step sims_refl by blast
qed

lemma sims_startNewRound_keep:
  assumes "sim c q" "B bk" "view_le (currentView c) v" "c_waitingForRoundChange c \<or> v \<noteq> currentView c"
  shows "sims cr B q (startNewRound cr bk v None a True c)"
proof (cases "bk_LastProposal bk")
  case None
  then show ?thesis using assms(1) by (auto simp: startNewRound_def intro: sims_abs [OF _ sims_refl])
next
  case (Some lpp)
  then obtain lp lpr where lpp: "bk_LastProposal bk = Some (lp, lpr)" by (cases lpp) simp
  let ?c = "c\<lparr>c_lastProposal := lp, c_lastProposer := lpr\<rparr>"
  let ?v = "\<lparr>v_Round = 0, v_Sequence = block_Number lp + 1\<rparr>"
  have sim: "sim ?c q" using assms(1) by (auto intro: sim_abs)
  have cv: "currentView ?c = currentView c" by (simp add: currentView_def)
  have seq: "v_Sequence (currentView c) \<le> v_Sequence v" using assms(3) by (auto simp: view_le_iff)
  show ?thesis
  proof (cases "v_Sequence v < block_Number lp")
    case True
    have "sims cr B q (enterRound cr bk ?v True ?c)"
      by (rule sims_enterRound_keep [where B = B and bk = bk, OF sim assms(2)])
        (use True seq in \<open>auto simp: cv view_le_iff dest: arg_cong [where f = v_Sequence]\<close>)
    then show ?thesis using True lpp by (simp add: startNewRound_def)
  next
    case False
    then show ?thesis using lpp sims_enterRound_keep [where B = B and bk = bk, OF assms] by (simp add: startNewRound_def)
  qed
qed

lemma sims_startNewRound_fresh:
  assumes "sim c q" "B bk" "rs_sequence (c_current c) < v_Sequence v"
  shows "sims cr B q (startNewRound cr bk v (Some lp) a False c)"
  using sims_enterRound_fresh [where B = B and bk = bk, OF assms] by (simp add: startNewRound_def)

section \<open>Simulation of the handlers\<close>

lemma checkMessage_None:
  assumes "checkMessage c code v = None" "sim c q"
  shows "v = Some (q_view q)" "\<not> q_waiting q" "code \<noteq> msgPreprepare \<Longrightarrow> q_state q \<noteq> StateAcceptRequest"
proof -
  obtain w where w: "v = Some w" using assms(1) by (cases v) (auto simp: checkMessage_def)
  then have "\<not> 0 < view_Cmp w (currentView c)" "\<not> view_Cmp w (currentView c) < 0"
    using assms(1) by (auto simp: checkMessage_def simp del: view_Cmp_iff split: if_splits)
  then have "view_Cmp w (currentView c) = 0" by linarith
  then show "v = Some (q_view q)" using w assms(2) by (simp add: sim_def)
  show "\<not> q_waiting q" "code \<noteq> msgPreprepare \<Longrightarrow> q_state q \<noteq> StateAcceptRequest"
    using assms w by (auto simp: checkMessage_def sim_def simp del: view_Cmp_iff split: if_splits)
qed

lemma sims_handlePreprepare:
  assumes sim: "sim c q" and bk: "B bk"
  shows "sims cr B q (snd (handlePreprepare cr bk msg src c))"
proof (cases "\<exists>pp. DecodeBytes (m_Msg msg) decodePreprepare = Inr pp \<and>
    checkMessage c msgPreprepare (Some (pp_View pp)) = None \<and> IsProposer (c_valSet c) (snd src)")
  case False
  then show ?thesis using sim
    by (auto simp: handlePreprepare_def intro: sims_refl split: sum.split option.split)
next
  case True
  then obtain pp where pp: "DecodeBytes (m_Msg msg) decodePreprepare = Inr pp"
    "checkMessage c msgPreprepare (Some (pp_View pp)) = None" "IsProposer (c_valSet c) (snd src)" by blast
  note red = handlePreprepare_def pp sum.case option.case not_not if_True if_False if_not_P
  show ?thesis
  proof (cases "bk_Verify bk (pp_Proposal pp)")
    case (VerifyFuture d)
    have "sims cr B q (c\<lparr>c_futurePreprepareTimer := Some (d, src, msg)\<rparr>)"
      by (rule sims_abs [OF _ sims_refl [OF sim]]) simp
    then show ?thesis by (simp add: red VerifyFuture)
  next
    case VerifyFail
    then show ?thesis using sims_sendRoundChange [OF sim] by (simp add: red sendNextRoundChange_def)
  next
    case VerifyOk
    show ?thesis
    proof (cases "c_state c = StateAcceptRequest")
      case False
      then show ?thesis using sim by (simp add: red VerifyOk sims_refl)
    next
      case acc: True
      show ?thesis
      proof (cases "IsHashLocked (c_current c) \<and> block_Hash (kec cr) (pp_Proposal pp) \<noteq> rs_lockedHash (c_current c)")
        case True
        then show ?thesis using sims_sendRoundChange [OF sim] by (simp add: red VerifyOk acc sendNextRoundChange_def)
      next
        case free: False
        let ?c = "setState StatePreprepared (acceptPreprepare pp c)"
        let ?q = "q\<lparr>q_state := StatePreprepared, q_prop := Some pp\<rparr>"
        have "sim (acceptPreprepare pp c) (q\<lparr>q_prop := Some pp\<rparr>)"
          using sim by (simp add: sim_def acceptPreprepare_def SetPreprepare_def currentView_def votes_of_def decisions_of_def)
        from sim_setState [OF this, of StatePreprepared] have s1: "sim ?c ?q" by (simp add: sim_def)
        then have "rs_Preprepare (c_current ?c) = Some pp" by (simp add: sim_def)
        from sim_sendPrepare [OF s1 this, of cr bk] obtain vs where
          vs: "vs = [] \<or> vs = [(msgPrepare, \<lparr>sub_View = q_view q, sub_Digest = digest cr pp\<rparr>)]"
          and s2: "sim (sendPrepare cr bk ?c) (?q\<lparr>q_votes := q_votes q @ vs\<rparr>)" by auto
        have "bvalid B (pp_Proposal pp)" using bk VerifyOk by (auto simp: bvalid_def)
        moreover have "\<not> q_waiting q" using checkMessage_None(2) [OF pp(2) sim] .
        moreover have "q_lock q = 0 \<or> digest cr pp = q_lock q"
          using free sim by (auto simp: IsHashLocked_def sim_def digest_def)
        moreover have "q_state q = StateAcceptRequest" using acc sim by (simp add: sim_def)
        ultimately have "bstep cr B q (?q\<lparr>q_votes := q_votes q @ vs\<rparr>)"
          using accept [of q "bvalid B" pp cr vs] vs by simp
        from sims_step [OF this sims_refl [OF s2]] have "sims cr B q (sendPrepare cr bk ?c)" .
        then show ?thesis using free by (simp add: red VerifyOk acc)
      qed
    qed
  qed
qed

lemma sim_addition:
  assumes "sim c q" "DecodeBytes (m_Msg msg) decodeSubject = Inr sub"
    "Some sub = rs_Subject cr (c_current c)" "m_Code msg = code"
  shows "\<exists>pp. rs_Preprepare (c_current c) = Some pp" "m_Address msg \<in> set (q_vals q) \<Longrightarrow> is_vote cr q code msg"
proof -
  obtain pp where pp: "rs_Preprepare (c_current c) = Some pp"
    using assms(3) by (cases "rs_Preprepare (c_current c)") (auto simp: rs_Subject_def)
  then show "\<exists>pp. rs_Preprepare (c_current c) = Some pp" by simp
  have "sub = \<lparr>sub_View = q_view q, sub_Digest = digest cr pp\<rparr>"
    using assms(3) sim_vote_subject [OF assms(1) pp, of cr] by simp
  moreover have "q_prop q = Some pp" using pp assms(1) by (simp add: sim_def)
  ultimately show "is_vote cr q code msg" if "m_Address msg \<in> set (q_vals q)"
    using assms(2,4) that by (simp add: is_vote_def)
qed

lemma sims_acceptPrepare:
  assumes sim: "sim c q" and dec: "DecodeBytes (m_Msg msg) decodeSubject = Inr sub"
    and chk: "checkMessage c msgPrepare (Some (sub_View sub)) = None"
    and sub: "Some sub = rs_Subject cr (c_current c)" "m_Code msg = msgPrepare"
  shows "\<exists>q'. (bstep cr B)\<^sup>*\<^sup>* q q' \<and> sim (acceptPrepare cr msg c) q' \<and>
    q_waiting q' = q_waiting q \<and> q_state q' = q_state q \<and> q_prop q' = q_prop q \<and> q_lock q' = q_lock q \<and>
    q_vals q' = q_vals q"
proof (cases "m_Address msg \<in> set (q_vals q)")
  case False
  then have "snd (ms_Add cr msg (rs_Prepares (c_current c))) = rs_Prepares (c_current c)"
    using sim ms_Add_cases [of msg "rs_Prepares (c_current c)" cr] by (auto simp: sim_def)
  then have "acceptPrepare cr msg c = c" by (simp add: acceptPrepare_def)
  then show ?thesis using sim by auto
next
  case True
  let ?q = "q\<lparr>q_prepares := AList.update (RLPHash cr (message_rval msg)) msg (q_prepares q)\<rparr>"
  have "snd (ms_Add cr msg (rs_Prepares (c_current c))) = addVerifiedMessage cr msg (rs_Prepares (c_current c))"
    using True sim ms_Add_cases [of msg "rs_Prepares (c_current c)" cr] by (auto simp: sim_def)
  then have "sim (acceptPrepare cr msg c) ?q"
    using sim by (simp add: acceptPrepare_def sim_def currentView_def addVerifiedMessage_def votes_of_def decisions_of_def)
  moreover have "bstep cr B q ?q"
    using prepare [of q cr msg] checkMessage_None(2,3) [OF chk sim] sim_addition(2) [OF sim dec sub True] by simp
  ultimately show ?thesis by (intro exI [of _ ?q]) auto
qed

lemma sims_acceptCommit:
  assumes sim: "sim c q" and dec: "DecodeBytes (m_Msg msg) decodeSubject = Inr sub"
    and chk: "checkMessage c msgCommit (Some (sub_View sub)) = None"
    and sub: "Some sub = rs_Subject cr (c_current c)" "m_Code msg = msgCommit"
  shows "\<exists>q'. (bstep cr B)\<^sup>*\<^sup>* q q' \<and> sim (acceptCommit cr msg c) q' \<and>
    q_waiting q' = q_waiting q \<and> q_state q' = q_state q \<and> q_prop q' = q_prop q \<and> q_lock q' = q_lock q \<and>
    q_vals q' = q_vals q"
proof (cases "m_Address msg \<in> set (q_vals q)")
  case False
  then have "snd (ms_Add cr msg (rs_Commits (c_current c))) = rs_Commits (c_current c)"
    using sim ms_Add_cases [of msg "rs_Commits (c_current c)" cr] by (auto simp: sim_def)
  then have "acceptCommit cr msg c = c" by (simp add: acceptCommit_def)
  then show ?thesis using sim by auto
next
  case True
  let ?q = "q\<lparr>q_commits := AList.update (RLPHash cr (message_rval msg)) msg (q_commits q)\<rparr>"
  have "snd (ms_Add cr msg (rs_Commits (c_current c))) = addVerifiedMessage cr msg (rs_Commits (c_current c))"
    using True sim ms_Add_cases [of msg "rs_Commits (c_current c)" cr] by (auto simp: sim_def)
  then have "sim (acceptCommit cr msg c) ?q"
    using sim by (simp add: acceptCommit_def sim_def currentView_def addVerifiedMessage_def votes_of_def decisions_of_def)
  moreover have "bstep cr B q ?q"
    using commit [of q cr msg] checkMessage_None(2,3) [OF chk sim] sim_addition(2) [OF sim dec sub True] by simp
  ultimately show ?thesis by (intro exI [of _ ?q]) auto
qed

lemma state_Cmp_less: "state_Cmp s t < 0 \<longleftrightarrow> state_num s < state_num t"
  by (simp add: state_Cmp_def)

lemma sims_trans: "(bstep cr B)\<^sup>*\<^sup>* q q' \<Longrightarrow> sims cr B q' c \<Longrightarrow> sims cr B q c"
  unfolding sims_def by (meson rtranclp_trans)

lemma two_thirds_F: "two_thirds (vs_validators v) n \<longleftrightarrow> n > 2 * vs_F v"
  by (simp add: two_thirds_def vs_F_def vs_Size_def)

lemma sim_LockHash:
  assumes "sim c q" "q_prop q = Some pp"
  shows "sim (c\<lparr>c_current := LockHash cr (c_current c)\<rparr>) (q\<lparr>q_lock := digest cr pp\<rparr>)"
proof -
  have "rs_Preprepare (c_current c) = Some pp" using assms by (simp add: sim_def)
  with assms show ?thesis
    by (simp add: sim_def LockHash_def currentView_def digest_def votes_of_def decisions_of_def)
qed

lemma sims_handlePrepare:
  assumes sim: "sim c q" and bk: "B bk" and code: "m_Code msg = msgPrepare"
  shows "sims cr B q (snd (handlePrepare cr bk msg src c))"
proof (cases "\<exists>sub. DecodeBytes (m_Msg msg) decodeSubject = Inr sub \<and>
    checkMessage c msgPrepare (Some (sub_View sub)) = None \<and> Some sub = rs_Subject cr (c_current c)")
  case False
  then show ?thesis using sim
    by (auto simp: handlePrepare_def verifyPrepare_def intro: sims_refl split: sum.split option.split)
next
  case True
  then obtain sub where sub: "DecodeBytes (m_Msg msg) decodeSubject = Inr sub"
    "checkMessage c msgPrepare (Some (sub_View sub)) = None" "Some sub = rs_Subject cr (c_current c)" by blast
  let ?c1 = "acceptPrepare cr msg c"
  obtain pp where pp: "q_prop q = Some pp"
    using sim_addition(1) [OF sim sub(1,3) code] sim by (auto simp: sim_def)
  have st: "\<not> q_waiting q" "q_state q \<noteq> StateAcceptRequest" using checkMessage_None(2,3) [OF sub(2) sim] by simp_all
  obtain q1 where q1: "(bstep cr B)\<^sup>*\<^sup>* q q1" "sim ?c1 q1" "\<not> q_waiting q1" "q_state q1 \<noteq> StateAcceptRequest"
    "q_prop q1 = Some pp"
    using sims_acceptPrepare [where B = B, OF sim sub code] st pp by auto
  let ?grow = "(IsHashLocked (c_current ?c1) \<or> int (ms_Size (rs_Prepares (c_current ?c1))) > 2 * vs_F (c_valSet ?c1)) \<and>
    state_Cmp (c_state ?c1) StatePrepared < 0"
  have red: "snd (handlePrepare cr bk msg src c) = (if ?grow then sendCommit cr bk
      (setState StatePrepared (?c1\<lparr>c_current := LockHash cr (c_current ?c1)\<rparr>)) else ?c1)"
    using sub by (simp add: handlePrepare_def verifyPrepare_def Let_def)
  show ?thesis
  proof (cases ?grow)
    case False
    show ?thesis unfolding red if_not_P [OF False] by (rule sims_trans [OF q1(1) sims_refl [OF q1(2)]])
  next
    case True
    let ?c2 = "setState StatePrepared (?c1\<lparr>c_current := LockHash cr (c_current ?c1)\<rparr>)"
    let ?q2 = "q1\<lparr>q_state := StatePrepared, q_lock := digest cr pp\<rparr>"
    have s2: "sim ?c2 ?q2"
      using sim_setState [OF sim_LockHash [OF q1(2,5)], of StatePrepared cr] by (simp add: sim_def)
    then have "rs_Preprepare (c_current ?c2) = Some pp" using q1(5) by (simp add: sim_def)
    from sim_sendCommit [OF s2 this, of cr bk] obtain vs where
      vs: "vs = [] \<or> vs = [(msgCommit, \<lparr>sub_View = q_view q1, sub_Digest = digest cr pp\<rparr>)]"
      and s3: "sim (sendCommit cr bk ?c2) (?q2\<lparr>q_votes := q_votes q1 @ vs\<rparr>)" by auto
    have "q_state q1 = StatePreprepared"
      using q1(2,4) True by (cases "q_state q1") (auto simp: sim_def state_Cmp_less)
    moreover have "q_lock q1 \<noteq> 0 \<or> two_thirds (q_vals q1) (int (length (q_prepares q1)))"
      using q1(2) True by (auto simp: sim_def two_thirds_F IsHashLocked_def ms_Size_def)
    ultimately have "bstep cr B q1 (?q2\<lparr>q_votes := q_votes q1 @ vs\<rparr>)"
      using lock [of q1 pp vs cr] q1(3,5) vs by simp
    from sims_trans [OF q1(1) sims_step [OF this sims_refl [OF s3]]] show ?thesis
      unfolding red if_P [OF True] .
  qed
qed

lemma ms_Values_seals: "map (\<lambda>m. f (m_CommittedSeal m)) (ms_Values ms) = map (\<lambda>(h, m). f (m_CommittedSeal m)) (ms_messages ms)"
  by (simp add: ms_Values_def case_prod_beta comp_def)

lemma sims_failed:
  assumes "sim c q" "bfail B" "\<not> q_waiting q" "q_state q = StateCommitted"
  shows "sims cr B q (sendNextRoundChange cr bk (c\<lparr>c_current := UnlockHash (c_current c)\<rparr>))"
proof -
  let ?r = "rs_round (c_current c) + 1"
  let ?v = "\<lparr>v_Round = ?r, v_Sequence = rs_sequence (c_current c)\<rparr>"
  let ?c = "c\<lparr>c_current := UnlockHash (c_current c)\<rparr>"
  let ?c1 = "updateRoundState ?v (c_valSet ?c) True (?c\<lparr>c_waitingForRoundChange := True\<rparr>)"
  let ?q = "q\<lparr>q_view := (q_view q)\<lparr>v_Round := ?r\<rparr>, q_waiting := True, q_prop := None, q_lock := 0,
        q_prepares := [], q_commits := []\<rparr>"
  have "core_abs (sendNextRoundChange cr bk ?c) = core_abs ?c1"
    by (simp add: sendNextRoundChange_def sendRoundChange_def currentView_def UnlockHash_def Let_def
        abs_broadcast new_message_def catchUpRound_def split: sum.split)
  moreover have "sim ?c1 ?q"
    using assms(1) by (simp add: sim_def updateRoundState_def UnlockHash_def IsHashLocked_def
        currentView_def votes_of_def decisions_of_def)
  ultimately have "sim (sendNextRoundChange cr bk ?c) ?q" by (rule sim_abs)
  moreover have "bstep cr B q ?q"
    using fail [of "bfail B" q ?r] assms by (simp add: sim_def currentView_def)
  ultimately show ?thesis using sims_step sims_refl by blast
qed

text \<open>\<^verbatim>\<open>commit\<close> after the lock is a decision; a backend that refuses the block is a failed decision.\<close>

lemma sims_core_commit:
  assumes sim: "sim c q" and bk: "B bk" and pp: "q_prop q = Some pp" and st: "\<not> q_waiting q"
    "q_state q = StatePreprepared \<or> q_state q = StatePrepared"
    and quorum: "two_thirds (q_vals q) (int (length (q_commits q)))"
  shows "sims cr B q (core_commit cr bk (c\<lparr>c_current := LockHash cr (c_current c)\<rparr>))"
proof -
  let ?c1 = "setState StateCommitted (c\<lparr>c_current := LockHash cr (c_current c)\<rparr>)"
  let ?seals = "map (\<lambda>m. fixed_seal (m_CommittedSeal m)) (ms_Values (rs_Commits (c_current ?c1)))"
  let ?c2 = "emit (CommitProposal (pp_Proposal pp) ?seals) ?c1"
  let ?q1 = "q\<lparr>q_state := StateCommitted, q_lock := digest cr pp\<rparr>"
  let ?q2 = "?q1\<lparr>q_decided := q_decided q @ [(pp_Proposal pp, ?seals)]\<rparr>"
  have s1: "sim ?c1 ?q1"
    using sim_setState [OF sim_LockHash [OF sim pp], of StateCommitted cr] by (simp add: sim_def)
  then have c1: "rs_Preprepare (c_current ?c1) = Some pp" "rs_Commits (c_current ?c1) = rs_Commits (c_current ?c1)"
    "ms_messages (rs_Commits (c_current ?c1)) = q_commits q" using pp by (simp_all add: sim_def)
  have s2: "sim ?c2 ?q2"
    using s1 by (simp add: sim_def emit_def currentView_def votes_of_def vote_of_def decisions_of_def decision_of_def)
  have step: "bstep cr B q ?q2"
    using decide [of q pp ?seals cr] st pp quorum by (simp add: ms_Values_seals c1(3))
  have propo: "rs_Proposal (c_current ?c1) = Some (pp_Proposal pp)" by (simp add: rs_Proposal_def c1(1))
  show ?thesis
  proof (cases "bk_Commit bk (pp_Proposal pp) ?seals")
    case True
    then show ?thesis using sims_step [OF step sims_refl [OF s2]] by (simp add: core_commit_def propo Let_def)
  next
    case False
    have "bfail B" using bk False by (auto simp: bfail_def)
    then have "sims cr B ?q2 (sendNextRoundChange cr bk (?c2\<lparr>c_current := UnlockHash (c_current ?c2)\<rparr>))"
      using sims_failed [OF s2] st by simp
    from sims_step [OF step this]
    have "sims cr B q (sendNextRoundChange cr bk (?c2\<lparr>c_current := UnlockHash (c_current ?c2)\<rparr>))" .
    then show ?thesis using False by (simp add: core_commit_def propo Let_def)
  qed
qed

lemma sims_handleCommit:
  assumes sim: "sim c q" and bk: "B bk" and code: "m_Code msg = msgCommit"
  shows "sims cr B q (snd (handleCommit cr bk msg src c))"
proof (cases "\<exists>sub. DecodeBytes (m_Msg msg) decodeSubject = Inr sub \<and>
    checkMessage c msgCommit (Some (sub_View sub)) = None \<and> Some sub = rs_Subject cr (c_current c)")
  case False
  then show ?thesis using sim
    by (auto simp: handleCommit_def verifyCommit_def intro: sims_refl split: sum.split option.split)
next
  case True
  then obtain sub where sub: "DecodeBytes (m_Msg msg) decodeSubject = Inr sub"
    "checkMessage c msgCommit (Some (sub_View sub)) = None" "Some sub = rs_Subject cr (c_current c)" by blast
  let ?c1 = "acceptCommit cr msg c"
  obtain pp where pp: "q_prop q = Some pp"
    using sim_addition(1) [OF sim sub(1,3) code] sim by (auto simp: sim_def)
  have st: "\<not> q_waiting q" "q_state q \<noteq> StateAcceptRequest" using checkMessage_None(2,3) [OF sub(2) sim] by simp_all
  obtain q1 where q1: "(bstep cr B)\<^sup>*\<^sup>* q q1" "sim ?c1 q1" "\<not> q_waiting q1" "q_state q1 \<noteq> StateAcceptRequest"
    "q_prop q1 = Some pp"
    using sims_acceptCommit [where B = B, OF sim sub code] st pp by auto
  let ?grow = "int (ms_Size (rs_Commits (c_current ?c1))) > 2 * vs_F (c_valSet ?c1) \<and>
    state_Cmp (c_state ?c1) StateCommitted < 0"
  have red: "snd (handleCommit cr bk msg src c) =
      (if ?grow then core_commit cr bk (?c1\<lparr>c_current := LockHash cr (c_current ?c1)\<rparr>) else ?c1)"
    using sub by (simp add: handleCommit_def verifyCommit_def Let_def)
  show ?thesis
  proof (cases ?grow)
    case False
    show ?thesis unfolding red if_not_P [OF False] by (rule sims_trans [OF q1(1) sims_refl [OF q1(2)]])
  next
    case True
    have "q_state q1 = StatePreprepared \<or> q_state q1 = StatePrepared"
      using q1(2,4) True by (cases "q_state q1") (auto simp: sim_def state_Cmp_less)
    moreover have "two_thirds (q_vals q1) (int (length (q_commits q1)))"
      using q1(2) True by (auto simp: sim_def two_thirds_F ms_Size_def)
    ultimately have "sims cr B q1 (core_commit cr bk (?c1\<lparr>c_current := LockHash cr (c_current ?c1)\<rparr>))"
      using sims_core_commit [where B = B and bk = bk, OF q1(2) bk q1(5,3)] by blast
    then show ?thesis unfolding red if_P [OF True] by (rule sims_trans [OF q1(1)])
  qed
qed

lemma sims_handleRoundChange:
  assumes sim: "sim c q" and bk: "B bk"
  shows "sims cr B q (snd (handleRoundChange cr bk msg src c))"
proof (cases "\<exists>rc. DecodeBytes (m_Msg msg) decodeRoundChange = Inr rc \<and>
    rc_Sequence rc = rs_sequence (c_current c) \<and> rs_round (c_current c) \<le> rc_Round rc")
  case False
  then show ?thesis using sim
    by (auto simp: handleRoundChange_def currentView_def Let_def intro: sims_refl split: sum.split)
next
  case True
  then obtain rc where rc: "DecodeBytes (m_Msg msg) decodeRoundChange = Inr rc"
    "rc_Sequence rc = rs_sequence (c_current c)" "rs_round (c_current c) \<le> rc_Round rc" by blast
  obtain res rcs where add: "rcs_Add cr (rc_Round rc) msg (c_roundChangeSet c) = (res, rcs)" by fastforce
  let ?c = "c\<lparr>c_roundChangeSet := rcs\<rparr>"
  let ?v = "\<lparr>v_Round = rc_Round rc, v_Sequence = rc_Sequence rc\<rparr>"
  have sim1: "sim ?c q" by (rule sim_abs [OF _ sim]) simp
  have stay: "sims cr B q ?c" by (rule sims_refl [OF sim1])
  have up: "sims cr B q (sendRoundChange cr bk (rc_Round rc) ?c)" by (rule sims_sendRoundChange [OF sim1])
  have start: "sims cr B q (startNewRound cr bk ?v None 0 True ?c)"
    if "c_waitingForRoundChange c \<or> rs_round (c_current c) < rc_Round rc"
    by (rule sims_startNewRound_keep [where B = B and bk = bk, OF sim1 bk])
      (use that rc in \<open>auto simp: currentView_def view_le_iff\<close>)
  show ?thesis
    using rc up stay start
    by (auto simp: handleRoundChange_def currentView_def add Let_def split: sum.split)
qed

lemma sims_handleCheckedMsg:
  assumes "sim c q" "B bk"
  shows "sims cr B q (snd (handleCheckedMsg cr bk msg src c))"
proof -
  have tb: "sims cr B q (snd r) \<Longrightarrow> sims cr B q (snd (testBacklog msg src r))" for r
    by (cases r) (auto simp: testBacklog_def intro: sims_abs [where c = "snd r"])
  show ?thesis
    unfolding handleCheckedMsg_def
    using tb [OF sims_handlePreprepare [where B = B and bk = bk, OF assms]]
      tb [OF sims_handlePrepare [where B = B and bk = bk, OF assms]]
      tb [OF sims_handleCommit [where B = B and bk = bk, OF assms]]
      sims_handleRoundChange [where B = B and bk = bk, OF assms] sims_refl [OF assms(1)]
    by simp
qed

lemma sims_handleMsg:
  assumes "sim c q" "B bk"
  shows "sims cr B q (snd (handleMsg cr bk payload c))"
  using sims_handleCheckedMsg [where B = B and bk = bk, OF assms] sims_refl [OF assms(1)]
  by (auto simp: handleMsg_def split: sum.split option.split prod.split)

lemma sims_handleRequest:
  assumes "sim c q"
  shows "sims cr B q (snd (handleRequest cr bk request c))"
  by (rule sims_abs [OF _ sims_refl [OF assms]]) (auto simp: handleRequest_def Let_def split: option.split)

lemma sims_handleTimeoutMsg:
  assumes "sim c q" "B bk"
  shows "sims cr B q (handleTimeoutMsg cr bk c)"
  using sims_sendRoundChange [OF assms(1)] sims_startNewRound_fresh [where B = B and bk = bk, OF assms]
  by (auto simp: handleTimeoutMsg_def Let_def sendNextRoundChange_def split: option.split)

lemma sims_handleFinalCommitted:
  assumes "sim c q" "B bk"
  shows "sims cr B q (handleFinalCommitted cr bk p proposer c)"
proof -
  let ?c = "c\<lparr>c_lastProposer := proposer, c_lastProposal := p\<rparr>"
  have "sim ?c q" by (rule sim_abs [OF _ assms(1)]) simp
  from sims_startNewRound_fresh [where B = B and bk = bk, OF this assms(2)] sims_refl [OF assms(1)]
  show ?thesis by (auto simp: handleFinalCommitted_def)
qed

lemma sims_handleEvent:
  assumes "sim c q" "B bk"
  shows "sims cr B q (handleEvent cr bk ev c)"
proof (cases ev)
  case (RequestEvent p)
  obtain err c1 where r: "handleRequest cr bk p c = (err, c1)" by fastforce
  have "sims cr B q c1" using sims_handleRequest [OF assms(1), of cr B bk p] r by simp
  then show ?thesis by (auto simp: handleEvent_def RequestEvent r intro: sims_abs [where c = c1])
next
  case (MessageEvent payload)
  obtain err c1 where r: "handleMsg cr bk payload c = (err, c1)" by fastforce
  have "sims cr B q c1" using sims_handleMsg [where B = B and bk = bk, OF assms, of cr payload] r by simp
  then show ?thesis by (auto simp: handleEvent_def MessageEvent r intro: sims_abs [where c = c1])
next
  case (BacklogEvent src msg)
  obtain err c1 where r: "handleCheckedMsg cr bk msg src c = (err, c1)" by fastforce
  have "sims cr B q c1" using sims_handleCheckedMsg [where B = B and bk = bk, OF assms, of cr msg src] r by simp
  then show ?thesis
    by (auto simp: handleEvent_def BacklogEvent r intro: sims_abs [where c = c1] split: sum.split)
next
  case TimeoutEvent
  then show ?thesis using sims_handleTimeoutMsg [where B = B and bk = bk, OF assms] by (simp add: handleEvent_def)
next
  case (FinalCommittedEvent p a)
  then show ?thesis using sims_handleFinalCommitted [where B = B and bk = bk, OF assms] by (simp add: handleEvent_def)
qed

section \<open>Runs\<close>

text \<open>A core that was created and started, and then handles any events in any order, with any
  answers of a backend in \<open>B\<close>.\<close>

inductive core_run :: "crypto \<Rightarrow> (backend \<Rightarrow> bool) \<Rightarrow> core \<Rightarrow> bool" for cr B where
  started: "B bk \<Longrightarrow> core_run cr B (core_Start cr bk n a p (core_New bk0 t c0))"
| handled: "core_run cr B c \<Longrightarrow> \<not> c_panicked c \<Longrightarrow> B bk \<Longrightarrow> core_run cr B (handleEvent cr bk ev c)"

definition start_voting :: "view \<Rightarrow> address list \<Rightarrow> voting" where
  "start_voting v vals =
     \<lparr>q_view = v, q_state = StateAcceptRequest, q_waiting = False, q_prop = None, q_lock = 0,
      q_prepares = [], q_commits = [], q_vals = vals, q_votes = [], q_decided = []\<rparr>"

lemma sim_core_Start:
  "sim (core_Start cr bk n a p (core_New bk0 t c0))
     (start_voting \<lparr>v_Round = 0, v_Sequence = n + 1\<rparr> (vs_validators (snd (bk_Validators bk p))))"
proof -
  obtain vid vs where vs: "bk_Validators bk p = (vid, vs)" by fastforce
  show ?thesis unfolding core_Start_def vs startNewRound_def
    by simp (rule sim_abs [OF abs_enterRound], simp add: vs sim_def start_voting_def updateRoundState_def
        currentView_def core_New_def votes_of_def decisions_of_def)
qed

lemma qinv_start: "Vals vals \<Longrightarrow> qinv cr Vals Valid (start_voting v vals)"
  by (simp add: qinv_def start_voting_def lock_ok_def prop_ok_def tally_ok_def decided_ok_def votes_ok_def)

lemma core_run_sim:
  "core_run cr B c \<Longrightarrow> \<exists>v vals q. bvals B vals \<and> (bstep cr B)\<^sup>*\<^sup>* (start_voting v vals) q \<and> sim c q"
proof (induction rule: core_run.induct)
  case (started bk n a p bk0 t c0)
  have "bvals B (vs_validators (snd (bk_Validators bk p)))" using started by (auto simp: bvals_def)
  with sim_core_Start show ?case by blast
next
  case (handled c bk ev)
  from handled(4) obtain v vals q where "bvals B vals" "(bstep cr B)\<^sup>*\<^sup>* (start_voting v vals) q" "sim c q" by blast
  with sims_handleEvent [where B = B and bk = bk, OF this(3) handled(3), of cr ev] show ?case
    unfolding sims_def by (meson rtranclp_trans)
qed

lemma core_run_qinv: "core_run cr B c \<Longrightarrow> \<exists>q. qinv cr (bvals B) (bvalid B) q \<and> sim c q"
  using core_run_sim qinv_steps qinv_start by blast

section \<open>Frames of the concrete operations\<close>

lemma broadcast_frame [simp]:
  "c_current (broadcast cr bk m c) = c_current c" "c_panicked (broadcast cr bk m c) = c_panicked c"
  "c_requestTimeout (broadcast cr bk m c) = c_requestTimeout c"
  "c_roundChangeTimer (broadcast cr bk m c) = c_roundChangeTimer c"
  "c_state (broadcast cr bk m c) = c_state c" "c_valSet (broadcast cr bk m c) = c_valSet c"
  "c_waitingForRoundChange (broadcast cr bk m c) = c_waitingForRoundChange c"
  by (auto simp: broadcast_def emit_def split: option.split)

lemma sendPreprepare_frame [simp]:
  "c_current (sendPreprepare cr bk p c) = c_current c" "c_panicked (sendPreprepare cr bk p c) = c_panicked c"
  "c_requestTimeout (sendPreprepare cr bk p c) = c_requestTimeout c"
  by (auto simp: sendPreprepare_def split: sum.split)

lemma sendPrepare_frame [simp]:
  "c_current (sendPrepare cr bk c) = c_current c" "c_state (sendPrepare cr bk c) = c_state c"
  "c_waitingForRoundChange (sendPrepare cr bk c) = c_waitingForRoundChange c"
  "c_valSet (sendPrepare cr bk c) = c_valSet c"
  "c_panicked (sendPrepare cr bk c) \<longleftrightarrow> c_panicked c \<or> rs_Preprepare (c_current c) = None"
  by (auto simp: sendPrepare_def rs_Subject_def split: sum.split option.split)

lemma sendCommit_frame [simp]:
  "c_current (sendCommit cr bk c) = c_current c"
  "c_panicked (sendCommit cr bk c) \<longleftrightarrow> c_panicked c \<or> rs_Preprepare (c_current c) = None"
  by (auto simp: sendCommit_def broadcastCommit_def rs_Subject_def split: sum.split option.split)

lemma setState_frame [simp]:
  "c_current (setState s c) = c_current c" "c_panicked (setState s c) = c_panicked c"
  "c_requestTimeout (setState s c) = c_requestTimeout c" "c_state (setState s c) = s"
  "c_waitingForRoundChange (setState s c) = c_waitingForRoundChange c" "c_valSet (setState s c) = c_valSet c"
  by (auto simp: setState_def processBacklog_def processPendingRequests_def Let_def split: prod.split)

lemma newRoundChangeTimer_frame [simp]:
  "c_current (newRoundChangeTimer bk c) = c_current c" "c_panicked (newRoundChangeTimer bk c) = c_panicked c"
  "c_requestTimeout (newRoundChangeTimer bk c) = c_requestTimeout c"
  "c_roundChangeTimer (newRoundChangeTimer bk c) =
     Some (round_timeout bk (c_requestTimeout c) (big_Uint64 (rs_round (c_current c))))"
  by (simp_all add: newRoundChangeTimer_def stopTimer_def)

lemma updateRoundState_frame [simp]:
  "c_panicked (updateRoundState v vs rc c) = c_panicked c"
  "c_requestTimeout (updateRoundState v vs rc c) = c_requestTimeout c"
  "rs_round (c_current (updateRoundState v vs rc c)) = v_Round v"
  "rs_sequence (c_current (updateRoundState v vs rc c)) = v_Sequence v"
  by (simp_all add: updateRoundState_def)

lemma catchUpRound_frame [simp]:
  "c_panicked (catchUpRound bk v c) = c_panicked c" "c_requestTimeout (catchUpRound bk v c) = c_requestTimeout c"
  "rs_round (c_current (catchUpRound bk v c)) = v_Round v"
  "rs_sequence (c_current (catchUpRound bk v c)) = v_Sequence v"
  "c_roundChangeTimer (catchUpRound bk v c) = Some (round_timeout bk (c_requestTimeout c) (big_Uint64 (v_Round v)))"
  by (simp_all add: catchUpRound_def Let_def)

lemma sendRoundChange_frame:
  "c_panicked (sendRoundChange cr bk r c) = c_panicked c"
  "rs_round (c_current c) < r \<Longrightarrow> currentView (sendRoundChange cr bk r c) =
     \<lparr>v_Round = r, v_Sequence = rs_sequence (c_current c)\<rparr>"
  "rs_round (c_current c) < r \<Longrightarrow> c_roundChangeTimer (sendRoundChange cr bk r c) =
     Some (round_timeout bk (c_requestTimeout c) (big_Uint64 r))"
  by (auto simp: sendRoundChange_def currentView_def Let_def split: sum.split)

lemma sendNextRoundChange_frame:
  "c_panicked (sendNextRoundChange cr bk c) = c_panicked c"
  "currentView (sendNextRoundChange cr bk c) =
     \<lparr>v_Round = rs_round (c_current c) + 1, v_Sequence = rs_sequence (c_current c)\<rparr>"
  "c_roundChangeTimer (sendNextRoundChange cr bk c) =
     Some (round_timeout bk (c_requestTimeout c) (big_Uint64 (rs_round (c_current c) + 1)))"
  by (simp_all add: sendNextRoundChange_def sendRoundChange_frame currentView_def [of c])

lemma enterRound_frame:
  "currentView (enterRound cr bk v rc c) = v"
  "c_roundChangeTimer (enterRound cr bk v rc c) =
     Some (round_timeout bk (c_requestTimeout c) (big_Uint64 (v_Round v)))"
  by (auto simp: enterRound_def Let_def currentView_def split: prod.split option.split)

end
