(* ===== verification/Istanbul_Theorems.thy ===== *)
theory Istanbul_Theorems
  imports Istanbul_Safety
begin

text \<open>
  What the consensus core guarantees: refinement of the voting automaton, certified decisions, no
  equivocation, one commit vote per height, progress of timeouts, freedom from nil dereferences,
  and the range in which the round timer doubles.
\<close>

section \<open>No nil dereference\<close>

definition locked_proposal :: "core \<Rightarrow> bool" where
  "locked_proposal c \<longleftrightarrow> (IsHashLocked (c_current c) \<longrightarrow> rs_Preprepare (c_current c) \<noteq> None)"

lemma enterRound_panic:
  assumes "locked_proposal c"
  shows "c_panicked (enterRound cr bk v rc c) = c_panicked c"
proof (cases rc)
  case False
  then show ?thesis by (auto simp: enterRound_def Let_def split: prod.split)
next
  case True
  obtain vid vs where vs: "bk_Validators bk (c_lastProposal c) = (vid, vs)" by fastforce
  let ?c2 = "updateRoundState v vs True (c\<lparr>c_valSet := vs, c_valSetId := vid, c_roundChangeSet := newRoundChangeSet vs\<rparr>)"
  have "IsHashLocked (c_current ?c2) \<longrightarrow> (\<exists>p. rs_Proposal (c_current ?c2) = Some p)"
    using assms by (auto simp: updateRoundState_def locked_proposal_def IsHashLocked_def rs_Proposal_def)
  then show ?thesis using True by (auto simp: enterRound_def vs Let_def split: option.split)
qed

lemma startNewRound_panic:
  assumes "locked_proposal c" "lp \<noteq> None \<or> bk_LastProposal bk \<noteq> None"
  shows "c_panicked (startNewRound cr bk v lp a rc c) = c_panicked c"
  using assms enterRound_panic [of c] enterRound_panic [of "c\<lparr>c_lastProposal := p, c_lastProposer := q\<rparr>" for p q]
  by (auto simp: startNewRound_def locked_proposal_def split: option.split)

lemma verified_has_proposal: "Some sub = rs_Subject cr s \<Longrightarrow> rs_Preprepare s \<noteq> None"
  by (cases "rs_Preprepare s") (simp_all add: rs_Subject_def)

lemma handlePreprepare_panic: "c_panicked (snd (handlePreprepare cr bk msg src c)) = c_panicked c"
  by (auto simp: handlePreprepare_def sendNextRoundChange_frame acceptPreprepare_def SetPreprepare_def
      split: sum.split option.split verify_result.split)

lemma accept_frame [simp]:
  "c_panicked (acceptPrepare cr msg c) = c_panicked c" "c_panicked (acceptCommit cr msg c) = c_panicked c"
  "rs_Preprepare (c_current (acceptPrepare cr msg c)) = rs_Preprepare (c_current c)"
  "rs_Preprepare (c_current (acceptCommit cr msg c)) = rs_Preprepare (c_current c)"
  "rs_Preprepare (LockHash cr s) = rs_Preprepare s"
  by (auto simp: acceptPrepare_def acceptCommit_def LockHash_def split: option.split)

lemma handlePrepare_panic: "c_panicked (snd (handlePrepare cr bk msg src c)) = c_panicked c"
  by (auto simp: handlePrepare_def verifyPrepare_def Let_def dest: verified_has_proposal
      split: sum.split option.split)

lemma core_commit_panic: "c_panicked (core_commit cr bk c) = c_panicked c"
  by (auto simp: core_commit_def Let_def sendNextRoundChange_frame emit_def split: option.split)

lemma handleCommit_panic: "c_panicked (snd (handleCommit cr bk msg src c)) = c_panicked c"
  by (auto simp: handleCommit_def verifyCommit_def Let_def core_commit_panic split: sum.split option.split)

lemma handleRoundChange_panic:
  assumes "locked_proposal c" "bk_LastProposal bk \<noteq> None"
  shows "c_panicked (snd (handleRoundChange cr bk msg src c)) = c_panicked c"
  using assms startNewRound_panic [of "c\<lparr>c_roundChangeSet := rcs\<rparr>" for rcs]
  by (auto simp: handleRoundChange_def Let_def sendRoundChange_frame locked_proposal_def
      split: sum.split prod.split)

lemma handleCheckedMsg_panic:
  assumes "locked_proposal c" "bk_LastProposal bk \<noteq> None"
  shows "c_panicked (snd (handleCheckedMsg cr bk msg src c)) = c_panicked c"
proof -
  have tb: "c_panicked (snd (testBacklog msg src r)) = c_panicked (snd r)" for r
    by (cases r) (simp add: testBacklog_def storeBacklog_def Let_def)
  show ?thesis
    unfolding handleCheckedMsg_def using assms
    by (simp add: tb handlePreprepare_panic handlePrepare_panic handleCommit_panic handleRoundChange_panic)
qed

lemma handleEvent_panic:
  assumes "locked_proposal c" "bk_LastProposal bk \<noteq> None"
  shows "c_panicked (handleEvent cr bk ev c) = c_panicked c"
proof (cases ev)
  case (RequestEvent p)
  then show ?thesis
    by (auto simp: handleEvent_def handleRequest_def storeRequestMsg_def Let_def split: option.split)
next
  case (MessageEvent payload)
  obtain err c1 where r: "handleMsg cr bk payload c = (err, c1)" by fastforce
  have "c_panicked (snd (handleMsg cr bk payload c)) = c_panicked c"
    using handleCheckedMsg_panic [OF assms] by (simp add: handleMsg_def split: sum.split prod.split option.split)
  then show ?thesis by (simp add: handleEvent_def MessageEvent r emit_def)
next
  case (BacklogEvent src msg)
  obtain err c1 where r: "handleCheckedMsg cr bk msg src c = (err, c1)" by fastforce
  then show ?thesis using handleCheckedMsg_panic [OF assms, of cr msg src]
    by (auto simp: handleEvent_def BacklogEvent emit_def split: sum.split)
next
  case TimeoutEvent
  then show ?thesis using assms
    by (auto simp: handleEvent_def handleTimeoutMsg_def Let_def sendRoundChange_frame
        sendNextRoundChange_frame startNewRound_panic split: option.split)
next
  case (FinalCommittedEvent p a)
  then show ?thesis using assms startNewRound_panic [of "c\<lparr>c_lastProposer := a, c_lastProposal := p\<rparr>" "Some p"]
    by (auto simp: handleEvent_def handleFinalCommitted_def locked_proposal_def)
qed

lemma core_run_locked: "core_run cr B c \<Longrightarrow> locked_proposal c"
proof -
  assume "core_run cr B c"
  then obtain q where "lock_ok cr q" and sim: "sim c q" using core_run_qinv unfolding qinv_def by metis
  then have "q_lock q \<noteq> 0 \<longrightarrow> q_prop q \<noteq> None" by (auto simp: lock_ok_def)
  then show ?thesis using sim by (simp add: sim_def locked_proposal_def IsHashLocked_def)
qed

lemma core_run_panic:
  assumes "core_run cr B c" "\<And>bk. B bk \<Longrightarrow> bk_LastProposal bk \<noteq> None"
  shows "\<not> c_panicked c"
  using assms(1)
proof (induction rule: core_run.induct)
  case (started bk n a p bk0 t c0)
  then show ?case by (auto simp: core_Start_def startNewRound_def enterRound_def updateRoundState_def
      core_New_def Let_def IsHashLocked_def split: prod.split)
next
  case (handled c bk ev)
  then show ?case using handleEvent_panic [OF core_run_locked [OF handled(1)] assms(2)] by simp
qed

section \<open>A run of a single validator\<close>

text \<open>The concrete run the witnesses use: a network of one validator accepts a block, prepares and
  commits it.\<close>

definition flat_crypto :: crypto where
  "flat_crypto = \<lparr>kec = (\<lambda>b. 7), ecrecover = (\<lambda>h s. None)\<rparr>"

definition one_block :: block where
  "one_block = \<lparr>b_header = zero_header, b_uncles = [], b_transactions = []\<rparr>"

definition one_set :: valset where
  "one_set = \<lparr>vs_validators = [1], vs_proposer = Some 1, vs_selector = RoundRobin\<rparr>"

definition one_backend :: backend where
  "one_backend = \<lparr>bk_Address = 1, bk_Validators = (\<lambda>b. (0, one_set)), bk_Verify = (\<lambda>b. VerifyOk),
     bk_Sign = (\<lambda>b. Some []), bk_Commit = (\<lambda>b s. True), bk_LastProposal = Some (one_block, 1),
     bk_pow2_overflow = (\<lambda>n. 0)\<rparr>"

definition one_view :: view where
  "one_view = \<lparr>v_Round = 0, v_Sequence = 1\<rparr>"

definition one_subject :: subject where
  "one_subject = \<lparr>sub_View = one_view, sub_Digest = 7\<rparr>"

definition one_preprepare :: preprepare where
  "one_preprepare = \<lparr>pp_View = one_view, pp_Proposal = one_block\<rparr>"

definition one_msg :: "nat \<Rightarrow> rval \<Rightarrow> message" where
  "one_msg code v = \<lparr>m_Code = code, m_Msg = enc_spec v, m_Address = 1, m_Signature = [], m_CommittedSeal = []\<rparr>"

definition one_core :: core where
  "one_core = core_Start flat_crypto one_backend 0 1 one_block
     (core_New one_backend 10000
        \<lparr>c_requestTimeout = 0, c_address = 0, c_state = StateAcceptRequest, c_lastProposer = 0,
         c_lastProposal = one_block, c_valSet = one_set, c_valSetId = 0, c_waitingForRoundChange = False,
         c_backlogs = [], c_current = newRoundState one_view one_set 0 None None,
         c_roundChangeSet = newRoundChangeSet one_set, c_pendingRequests = [], c_roundChangeTimer = None,
         c_futurePreprepareTimer = None, c_panicked = False, c_out = []\<rparr>)"

definition one_accepted :: core where
  "one_accepted = handleEvent flat_crypto one_backend
     (BacklogEvent (0, 1) (one_msg msgPreprepare (preprepare_rval one_preprepare))) one_core"

definition one_prepared :: core where
  "one_prepared = handleEvent flat_crypto one_backend
     (BacklogEvent (0, 1) (one_msg msgPrepare (subject_rval one_subject))) one_accepted"

definition one_committed :: core where
  "one_committed = handleEvent flat_crypto one_backend
     (BacklogEvent (0, 1) (one_msg msgCommit (subject_rval one_subject))) one_prepared"

lemma one_hash: "block_Hash (kec flat_crypto) b = 7"
  by (simp add: block_Hash_def header_Hash_def rlpHash_def flat_crypto_def split: option.split)

lemma one_decodes:
  "DecodeBytes (enc_spec (preprepare_rval one_preprepare)) decodePreprepare = Inr one_preprepare"
  "DecodeBytes (enc_spec (subject_rval one_subject)) decodeSubject = Inr one_subject"
proof -
  have vl: "length (enc_spec (view_rval one_view)) = 3" by code_simp
  then have vok: "view_ok one_view" by (simp add: view_ok_def) (simp add: one_view_def)
  have "length (enc_spec (subject_rval one_subject)) = 37" by code_simp
  with vok have "subject_ok one_subject" by (simp add: subject_ok_def) (simp add: one_subject_def)
  then show "DecodeBytes (enc_spec (subject_rval one_subject)) decodeSubject = Inr one_subject"
    by (intro DecodeBytes_reads reads_Subject)
  have hl: "length (enc_spec (header_rval zero_header)) \<le> 2 ^ 40"
    by (rule header_length) (simp_all add: zero_header_def)
  have bl: "length (enc_spec (block_rval one_block)) \<le> 2 ^ 41"
    using hl length_puthead_le [of "length (enc_spec (header_rval zero_header)) + 2" "0xC0" "0xF7"]
    unfolding enc_block one_block_def by (simp add: enc_list_def puthead_def [of _ _ 0])
  then have bok: "block_ok one_block" using zero_header_ok by (simp add: block_ok_def one_block_def)
  have "length (enc_spec (preprepare_rval one_preprepare)) < 2 ^ 64"
    using bl length_puthead_le [of "3 + length (enc_spec (block_rval one_block))" "0xC0" "0xF7"] vl
    unfolding enc_preprepare one_preprepare_def by (simp add: enc_list_def)
  with bok vok have "preprepare_ok one_preprepare"
    by (simp add: preprepare_ok_def) (simp add: one_preprepare_def)
  then show "DecodeBytes (enc_spec (preprepare_rval one_preprepare)) decodePreprepare = Inr one_preprepare"
    by (intro DecodeBytes_reads reads_Preprepare)
qed

abbreviation one_only :: "backend \<Rightarrow> bool" where
  "one_only bk \<equiv> bk = one_backend"

lemma one_proposer: "CalcProposer one_set 1 r = one_set"
  by (simp add: CalcProposer_def one_set_def roundRobinProposer_def GetByIndex_def vs_Size_def)

lemma one_core_fields:
  "c_current one_core = newRoundState one_view one_set 0 None None" "c_state one_core = StateAcceptRequest"
  "c_valSet one_core = one_set" "\<not> c_waitingForRoundChange one_core" "\<not> c_panicked one_core"
proof -
  have "v_Round one_view = 0" by (simp add: one_view_def)
  then show "c_current one_core = newRoundState one_view one_set 0 None None" "c_state one_core = StateAcceptRequest"
    "c_valSet one_core = one_set" "\<not> c_waitingForRoundChange one_core" "\<not> c_panicked one_core"
    using one_proposer
    by (simp_all add: one_core_def core_Start_def core_New_def startNewRound_def enterRound_def one_backend_def Let_def
        updateRoundState_def newRoundChangeTimer_def stopTimer_def one_view_def big_Uint64_def)
qed

lemma one_accepted_fields:
  "c_current one_accepted = newRoundState one_view one_set 0 (Some one_preprepare) None"
  "c_state one_accepted = StatePreprepared"
  "c_valSet one_accepted = one_set" "\<not> c_waitingForRoundChange one_accepted" "\<not> c_panicked one_accepted"
proof -
  have chk: "checkMessage one_core msgPreprepare (Some (pp_View one_preprepare)) = None"
    by (simp add: checkMessage_def currentView_def one_core_fields one_preprepare_def)
  have proposer: "IsProposer one_set 1"
    by (simp add: IsProposer_def one_set_def snd_GetByAddress)
  let ?c = "acceptPreprepare one_preprepare one_core"
  have c: "c_current ?c = newRoundState one_view one_set 0 (Some one_preprepare) None" "c_valSet ?c = one_set"
    "\<not> c_waitingForRoundChange ?c" "\<not> c_panicked ?c"
    by (simp_all add: acceptPreprepare_def SetPreprepare_def one_core_fields newRoundState_def)
  have hc: "handleCheckedMsg flat_crypto one_backend (one_msg msgPreprepare (preprepare_rval one_preprepare)) (0, 1) one_core =
      (None, sendPrepare flat_crypto one_backend (setState StatePreprepared ?c))"
    using chk proposer by (simp add: handleCheckedMsg_def testBacklog_def handlePreprepare_def one_msg_def one_decodes
        one_backend_def one_core_fields IsHashLocked_def)
  show "c_current one_accepted = newRoundState one_view one_set 0 (Some one_preprepare) None"
    "c_state one_accepted = StatePreprepared"
    "c_valSet one_accepted = one_set" "\<not> c_waitingForRoundChange one_accepted" "\<not> c_panicked one_accepted"
    unfolding one_accepted_def handleEvent_def
    by (simp_all add: hc c emit_def split: sum.split)
qed

lemma one_msg_sel: "m_Code (one_msg k v) = k" "m_Msg (one_msg k v) = enc_spec v" "m_CommittedSeal (one_msg k v) = []"
  by (simp_all add: one_msg_def)

lemma one_checks:
  assumes "c_valSet c = one_set" "\<not> c_waitingForRoundChange c" "c_state c \<noteq> StateAcceptRequest"
    "rs_round (c_current c) = 0" "rs_sequence (c_current c) = 1" "rs_Preprepare (c_current c) = Some one_preprepare"
  shows "checkMessage c k (Some (sub_View one_subject)) = None" "rs_Subject flat_crypto (c_current c) = Some one_subject"
  using assms by (simp_all add: checkMessage_def currentView_def one_subject_def one_view_def rs_Subject_def one_hash)

lemma one_ms_Add:
  "ms_Add flat_crypto (one_msg k v) (newMessageSet one_set) =
     (None, (newMessageSet one_set)\<lparr>ms_messages := [(7, one_msg k v)]\<rparr>)"
  using ms_Add_cases [of "one_msg k v" "newMessageSet one_set" flat_crypto]
  by (auto simp: one_msg_def one_set_def addVerifiedMessage_def RLPHash_def rlpHash_def flat_crypto_def)

lemma one_F: "vs_F one_set = 0"
  by (simp add: vs_F_def vs_Size_def one_set_def)

lemma one_prepared_fields:
  "rs_Preprepare (c_current one_prepared) = Some one_preprepare" "c_state one_prepared = StatePrepared"
  "rs_round (c_current one_prepared) = 0" "rs_sequence (c_current one_prepared) = 1"
  "rs_Commits (c_current one_prepared) = newMessageSet one_set"
  "c_valSet one_prepared = one_set" "\<not> c_waitingForRoundChange one_prepared" "\<not> c_panicked one_prepared"
proof -
  let ?m = "one_msg msgPrepare (subject_rval one_subject)"
  let ?c = "acceptPrepare flat_crypto ?m one_accepted"
  let ?c1 = "?c\<lparr>c_current := LockHash flat_crypto (c_current ?c)\<rparr>"
  have chk: "checkMessage one_accepted msgPrepare (Some (sub_View one_subject)) = None"
    "rs_Subject flat_crypto (c_current one_accepted) = Some one_subject"
    by (rule one_checks; simp add: one_accepted_fields one_view_def)+
  have c: "rs_Prepares (c_current ?c) = (newMessageSet one_set)\<lparr>ms_messages := [(7, ?m)]\<rparr>"
    "rs_Preprepare (c_current ?c) = Some one_preprepare" "rs_Commits (c_current ?c) = newMessageSet one_set"
    "rs_round (c_current ?c) = 0" "rs_sequence (c_current ?c) = 1"
    "c_state ?c = StatePreprepared" "c_valSet ?c = one_set" "\<not> c_waitingForRoundChange ?c" "\<not> c_panicked ?c"
    by (simp_all add: acceptPrepare_def one_accepted_fields one_ms_Add one_view_def del: One_nat_def)
  have hc: "handleCheckedMsg flat_crypto one_backend ?m (0, 1) one_accepted =
      (None, sendCommit flat_crypto one_backend (setState StatePrepared ?c1))"
    using chk by (simp add: handleCheckedMsg_def testBacklog_def handlePrepare_def verifyPrepare_def one_msg_sel
        one_decodes Let_def c one_F ms_Size_def state_Cmp_def del: One_nat_def)
  have sc: "c_state (sendCommit cr bk x) = c_state x" "c_valSet (sendCommit cr bk x) = c_valSet x"
    "c_waitingForRoundChange (sendCommit cr bk x) = c_waitingForRoundChange x" for cr bk x
    by (auto simp: sendCommit_def broadcastCommit_def split: option.split sum.split)
  show "rs_Preprepare (c_current one_prepared) = Some one_preprepare" "c_state one_prepared = StatePrepared"
    "rs_round (c_current one_prepared) = 0" "rs_sequence (c_current one_prepared) = 1"
    "rs_Commits (c_current one_prepared) = newMessageSet one_set"
    "c_valSet one_prepared = one_set" "\<not> c_waitingForRoundChange one_prepared" "\<not> c_panicked one_prepared"
    unfolding one_prepared_def handleEvent_def
    by (simp_all add: hc c sc emit_def LockHash_def one_accepted_fields del: One_nat_def split: sum.split)
qed

lemma one_run: "core_run flat_crypto one_only one_core" "core_run flat_crypto one_only one_prepared"
  "core_run flat_crypto one_only one_committed"
proof -
  show core: "core_run flat_crypto one_only one_core" unfolding one_core_def by (rule started) simp
  then have "core_run flat_crypto one_only one_accepted"
    unfolding one_accepted_def by (rule handled) (simp_all add: one_core_fields)
  then show prep: "core_run flat_crypto one_only one_prepared"
    unfolding one_prepared_def by (rule handled) (simp_all add: one_accepted_fields)
  show "core_run flat_crypto one_only one_committed"
    unfolding one_committed_def by (rule handled [OF prep]) (simp_all add: one_prepared_fields)
qed

lemma one_decision: "CommitProposal one_block [replicate 65 0] \<in> set (c_out one_committed)"
proof -
  let ?m = "one_msg msgCommit (subject_rval one_subject)"
  let ?c = "acceptCommit flat_crypto ?m one_prepared"
  let ?c1 = "?c\<lparr>c_current := LockHash flat_crypto (c_current ?c)\<rparr>"
  have chk: "checkMessage one_prepared msgCommit (Some (sub_View one_subject)) = None"
    "rs_Subject flat_crypto (c_current one_prepared) = Some one_subject"
    by (rule one_checks; simp add: one_prepared_fields)+
  have c: "rs_Commits (c_current ?c) = (newMessageSet one_set)\<lparr>ms_messages := [(7, ?m)]\<rparr>"
    "rs_Preprepare (c_current ?c) = Some one_preprepare" "c_state ?c = StatePrepared" "c_valSet ?c = one_set"
    by (simp_all add: acceptCommit_def one_prepared_fields one_ms_Add del: One_nat_def)
  have hc: "handleCheckedMsg flat_crypto one_backend ?m (0, 1) one_prepared =
      (None, core_commit flat_crypto one_backend ?c1)"
    using chk by (simp add: handleCheckedMsg_def testBacklog_def handleCommit_def verifyCommit_def one_msg_sel
        one_decodes Let_def c one_F ms_Size_def state_Cmp_def del: One_nat_def)
  have "CommitProposal one_block [replicate 65 0] \<in> set (c_out (core_commit flat_crypto one_backend ?c1))"
    by (simp add: core_commit_def Let_def rs_Proposal_def LockHash_def c one_prepared_fields one_preprepare_def ms_Values_def
        one_msg_sel fixed_seal_def IstanbulExtraSeal_def emit_def one_backend_def del: One_nat_def)
  then show ?thesis unfolding one_committed_def handleEvent_def
    by (simp add: hc emit_def split: sum.split)
qed

section \<open>Backlogs\<close>

text \<open>A message that waits in a backlog and whose time has passed.\<close>

definition is_future :: "core \<Rightarrow> message \<Rightarrow> bool" where
  "is_future c m \<longleftrightarrow> (\<exists>v. msg_view m = Some v \<and> checkMessage c (m_Code m) (Some v) = Some errFutureMessage)"

definition is_current :: "core \<Rightarrow> message \<Rightarrow> bool" where
  "is_current c m \<longleftrightarrow> (\<exists>v. msg_view m = Some v \<and> checkMessage c (m_Code m) (Some v) = None)"

lemma drainBacklog_cases:
  assumes "prque_ok q"
  shows "q = [] \<and> drainBacklog c q = ([], []) \<or>
    (\<exists>m p r. prque_Pop q = Some ((m, p), r) \<and> prque_ok r \<and> mset q = add_mset (m, p) (mset r) \<and>
       (\<forall>(e, s) \<in> set q. s \<le> p) \<and>
       (is_future c m \<and> drainBacklog c q = (prque_Push m p r, []) \<or>
        is_current c m \<and> drainBacklog c q = (fst (drainBacklog c r), m # snd (drainBacklog c r)) \<or>
        \<not> is_future c m \<and> \<not> is_current c m \<and> drainBacklog c q = drainBacklog c r))"
proof (cases "q = []")
  case True
  then show ?thesis by (simp add: drainBacklog.simps [of c "[]"] prque_Pop_def heap_Pop_def)
next
  case False
  then obtain m p r where pop: "prque_Pop q = Some ((m, p), r)"
    using prque_Pop_exists [OF assms] by (auto simp: prque_Empty_def)
  note ok = prque_Pop_ok [OF assms pop]
  have "is_future c m \<and> drainBacklog c q = (prque_Push m p r, []) \<or>
        is_current c m \<and> drainBacklog c q = (fst (drainBacklog c r), m # snd (drainBacklog c r)) \<or>
        \<not> is_future c m \<and> \<not> is_current c m \<and> drainBacklog c q = drainBacklog c r"
  proof (cases "msg_view m")
    case None
    then show ?thesis by (simp add: drainBacklog.simps [of c q] pop is_future_def is_current_def)
  next
    case (Some v)
    then show ?thesis
      by (cases "checkMessage c (m_Code m) (Some v)")
        (simp_all add: drainBacklog.simps [of c q] pop is_future_def is_current_def case_prod_beta)
  qed
  then show ?thesis using pop ok by (intro disjI2 exI [of _ m] exI [of _ p] exI [of _ r]) simp
qed

lemma drainBacklog_ok:
  "prque_ok q \<Longrightarrow> drainBacklog c q = (rest, posted) \<Longrightarrow>
     prque_ok rest \<and> (\<forall>m \<in> set posted. is_current c m) \<and>
     (rest \<noteq> [] \<longrightarrow> (\<exists>m p. (m, p) \<in> set rest \<and> is_future c m \<and> (\<forall>(e, s) \<in> set rest. s \<le> p))) \<and>
     (\<forall>(m, p) \<in> set q. (m, p) \<in> set rest \<or> m \<in> set posted \<or> \<not> is_future c m \<and> \<not> is_current c m)"
proof (induction "length q" arbitrary: q rest posted rule: less_induct)
  case less
  from drainBacklog_cases [OF less(2), of c] show ?case
  proof (elim disjE exE conjE)
    assume "q = []" "drainBacklog c q = ([], [])"
    with less show ?thesis by auto
  next
    fix m p r
    assume r: "prque_ok r" "mset q = add_mset (m, p) (mset r)" and max: "\<forall>(e, s) \<in> set q. s \<le> p"
      and fut: "is_future c m" "drainBacklog c q = (prque_Push m p r, [])"
    have rest: "rest = prque_Push m p r" "posted = []" using fut(2) less(3) by simp_all
    have ms: "mset rest = mset q" using mset_prque_Push [OF r(1), of m p] r(2) rest by simp
    then have sq: "set rest = set q" by (metis set_mset_mset)
    have "(m, p) \<in> set q" using r(2) by (metis set_mset_mset union_single_eq_member)
    with sq fut(1) max show ?thesis using prque_Push_ok [OF r(1), of m p] rest by auto
  next
    fix m p r
    assume r: "prque_ok r" "mset q = add_mset (m, p) (mset r)"
      and cur: "is_current c m" "drainBacklog c q = (fst (drainBacklog c r), m # snd (drainBacklog c r))"
    have len: "length r < length q" using arg_cong [OF r(2), of size] by simp
    have sq: "set q = insert (m, p) (set r)" using arg_cong [OF r(2), of set_mset] by simp
    from less(1) [OF len r(1), of rest "tl posted"] cur less(3) sq show ?thesis by auto
  next
    fix m p r
    assume r: "prque_ok r" "mset q = add_mset (m, p) (mset r)"
      and old: "\<not> is_future c m" "\<not> is_current c m" "drainBacklog c q = drainBacklog c r"
    have len: "length r < length q" using arg_cong [OF r(2), of size] by simp
    have sq: "set q = insert (m, p) (set r)" using arg_cong [OF r(2), of set_mset] by simp
    from less(1) [OF len r(1), of rest posted] old less(3) sq show ?thesis by auto
  qed
qed

section \<open>Counting messages\<close>

lemma ms_Add_many:
  assumes "\<forall>m \<in> set msgs. m_Address m \<in> members (ms_valSet ms)"
    "distinct (map fst (ms_messages ms) @ map (\<lambda>m. RLPHash cr (message_rval m)) msgs)"
  shows "ms_Size (fold (\<lambda>m s. snd (ms_Add cr m s)) msgs ms) = ms_Size ms + length msgs"
  using assms
proof (induction msgs arbitrary: ms)
  case (Cons m msgs)
  let ?ms = "addVerifiedMessage cr m ms"
  have add: "snd (ms_Add cr m ms) = ?ms" using Cons(2) ms_Add_cases [of m ms cr] by auto
  have new: "RLPHash cr (message_rval m) \<notin> fst ` set (ms_messages ms)" using Cons(3) by auto
  then have "map fst (ms_messages ?ms) = map fst (ms_messages ms) @ [RLPHash cr (message_rval m)]"
    by (simp add: addVerifiedMessage_def update_keys)
  moreover have "ms_valSet ?ms = ms_valSet ms" by (simp add: addVerifiedMessage_def)
  moreover have "ms_Size ?ms = Suc (ms_Size ms)"
    using new by (simp add: addVerifiedMessage_def ms_Size_def length_alist_update)
  ultimately show ?case using Cons(1) [of ?ms] Cons(2,3) by (simp add: add)
qed simp

section \<open>Properties\<close>

text \<open>C1. Refinement: every event the consensus core handles is a sequence of steps of the voting
  automaton on its abstraction, with the validator sets, valid proposals and failing commits that the
  backend answers.\<close>

theorem handleEvent_refines_voting:
  assumes "sim c q" "B bk"
  shows "\<exists>q'. (qstep cr (bvals B) (bvalid B) (bfail B))\<^sup>*\<^sup>* q q' \<and> sim (handleEvent cr bk ev c) q'"
  using sims_handleEvent [where B = B and bk = bk, OF assms] by (simp add: sims_def)

theorem handleEvent_refines_voting_witness:
  "\<exists>q'. (qstep flat_crypto (bvals one_only) (bvalid one_only) (bfail one_only))\<^sup>*\<^sup>*
      (start_voting one_view [1]) q' \<and> sim (handleEvent flat_crypto one_backend TimeoutEvent one_core) q'"
proof (rule handleEvent_refines_voting)
  show "sim one_core (start_voting one_view [1])"
    using sim_core_Start [of flat_crypto one_backend 0 1 one_block] unfolding one_core_def
    by (simp add: one_backend_def one_set_def one_view_def)
qed simp

text \<open>C2. A committed block is certified: whatever the events and their order, when the core hands a
  block to the backend, the backend has verified that block, and the seals are those of distinct
  COMMIT messages, more than twice the fault bound, from members of one validator set, all for the
  hash of the block in one view.\<close>

theorem decisions_are_certified:
  assumes "core_run cr B c" "CommitProposal p seals \<in> set (c_out c)"
  shows "(\<exists>bk. B bk \<and> bk_Verify bk p = VerifyOk) \<and>
    (\<exists>bk b v (msgs :: message list). B bk \<and> distinct msgs \<and>
       int (length msgs) > 2 * vs_F (snd (bk_Validators bk b)) \<and>
       seals = map (\<lambda>m. fixed_seal (m_CommittedSeal m)) msgs \<and>
       (\<forall>m \<in> set msgs. m_Code m = msgCommit \<and> m_Address m \<in> members (snd (bk_Validators bk b)) \<and>
          DecodeBytes (m_Msg m) decodeSubject = Inr \<lparr>sub_View = v, sub_Digest = block_Hash (kec cr) p\<rparr>))"
proof -
  obtain q where q: "qinv cr (bvals B) (bvalid B) q" "sim c q" using core_run_qinv [OF assms(1)] by blast
  have "(p, seals) \<in> set (decisions_of c)"
    using assms(2) by (force simp: decisions_of_def decision_of_def)
  then have "(p, seals) \<in> set (q_decided q)" using q(2) by (simp add: sim_def)
  then have "bvalid B p" and cert: "certified cr (bvals B) p seals"
    using q(1) by (auto simp: qinv_def decided_ok_def)
  then show ?thesis unfolding certified_def bvals_def bvalid_def
    by (auto simp: two_thirds_F) blast
qed

theorem decisions_are_certified_witness:
  "CommitProposal one_block [replicate 65 0] \<in> set (c_out one_committed) \<and>
   (\<exists>bk. bk = one_backend \<and> bk_Verify bk one_block = VerifyOk)"
  using decisions_are_certified [OF one_run(3) one_decision] one_decision by blast

text \<open>C4. No equivocation: the PREPARE and COMMIT messages a core has broadcast carry subjects of
  which no two have the same view and different digests, and the same vote is never cast twice.\<close>

theorem votes_never_equivocate:
  assumes "core_run cr B c"
  shows "\<exists>subs. list_all2 (\<lambda>m s. EncodeToBytes (subject_rval s) = Inr (m_Msg m)) (votes_of c) subs \<and>
    distinct (zip (map m_Code (votes_of c)) subs) \<and>
    (\<forall>s \<in> set subs. \<forall>s' \<in> set subs. sub_View s = sub_View s' \<longrightarrow> s = s')"
proof -
  obtain q where q: "votes_ok cr q" "sim c q" using core_run_qinv [OF assms] by (auto simp: qinv_def)
  have cast: "list_all2 cast (votes_of c) (q_votes q)" using q(2) by (simp add: sim_def)
  let ?subs = "map snd (q_votes q)"
  have "list_all2 (\<lambda>m s. EncodeToBytes (subject_rval s) = Inr (m_Msg m)) (votes_of c) ?subs"
    using cast by (auto simp: list_all2_map2 cast_def elim: list_all2_mono)
  moreover have "map m_Code (votes_of c) = map fst (q_votes q)"
    using cast by (auto simp: list_all2_conv_all_nth cast_def intro: nth_equalityI)
  then have "zip (map m_Code (votes_of c)) ?subs = q_votes q" by (simp add: zip_map_fst_snd)
  moreover have "\<forall>s \<in> set ?subs. \<forall>s' \<in> set ?subs. sub_View s = sub_View s' \<longrightarrow> s = s'"
    using q(1) by (force simp: votes_ok_def)
  ultimately show ?thesis using q(1) by (intro exI [of _ ?subs]) (simp add: votes_ok_def)
qed

theorem votes_never_equivocate_witness:
  "\<exists>subs. list_all2 (\<lambda>m s. EncodeToBytes (subject_rval s) = Inr (m_Msg m)) (votes_of one_prepared) subs \<and>
     distinct (zip (map m_Code (votes_of one_prepared)) subs)"
  using votes_never_equivocate [OF one_run(2)] by blast

text \<open>C5. The lock holds a height together: if no block hashes to zero and the backend never refuses a
  decided block, all COMMIT messages a core broadcasts for one sequence number, in whatever rounds,
  carry the same digest.\<close>

theorem one_commit_digest_per_height:
  assumes "core_run cr B c" "\<And>b. block_Hash (kec cr) b \<noteq> 0" "\<And>bk p seals. B bk \<Longrightarrow> bk_Commit bk p seals"
  shows "\<exists>subs. list_all2 (\<lambda>m s. EncodeToBytes (subject_rval s) = Inr (m_Msg m)) (votes_of c) subs \<and>
    (\<forall>(k, s) \<in> set (zip (map m_Code (votes_of c)) subs). \<forall>(k', s') \<in> set (zip (map m_Code (votes_of c)) subs).
       k = msgCommit \<and> k' = msgCommit \<and> v_Sequence (sub_View s) = v_Sequence (sub_View s') \<longrightarrow>
       sub_Digest s = sub_Digest s')"
proof -
  have nofail: "bfail B = False" using assms(3) by (auto simp: bfail_def)
  obtain v vals q where run: "bvals B vals" "(bstep cr B)\<^sup>*\<^sup>* (start_voting v vals) q" and sim: "sim c q"
    using core_run_sim [OF assms(1)] by blast
  have "heights_ok cr (start_voting v vals)" by (simp add: heights_ok_def start_voting_def)
  from heights_ok_steps [OF run(2) [unfolded nofail] this] qinv_start [where Vals = "bvals B", OF run(1)] assms(2)
  have "heights_ok cr q" by (simp add: digest_def)
  moreover have cast: "list_all2 cast (votes_of c) (q_votes q)" using sim by (simp add: sim_def)
  let ?subs = "map snd (q_votes q)"
  have "list_all2 (\<lambda>m s. EncodeToBytes (subject_rval s) = Inr (m_Msg m)) (votes_of c) ?subs"
    using cast by (auto simp: list_all2_map2 cast_def elim: list_all2_mono)
  moreover have "map m_Code (votes_of c) = map fst (q_votes q)"
    using cast by (auto simp: list_all2_conv_all_nth cast_def intro: nth_equalityI)
  then have "zip (map m_Code (votes_of c)) ?subs = q_votes q" by (simp add: zip_map_fst_snd)
  ultimately show ?thesis by (intro exI [of _ ?subs]) (auto simp: heights_ok_def)
qed

theorem one_commit_digest_per_height_witness:
  "\<exists>subs. list_all2 (\<lambda>m s. EncodeToBytes (subject_rval s) = Inr (m_Msg m)) (votes_of one_prepared) subs"
  using one_commit_digest_per_height [OF one_run(2)] one_hash by (simp add: one_backend_def) blast

text \<open>C24. A timeout makes progress: it moves the core to a strictly later view and arms the round timer
  with the timeout of the new round.\<close>

theorem timeout_makes_progress:
  "view_le (currentView c) (currentView (handleTimeoutMsg cr bk c)) \<and>
   currentView (handleTimeoutMsg cr bk c) \<noteq> currentView c \<and>
   c_roundChangeTimer (handleTimeoutMsg cr bk c) =
     Some (round_timeout bk (c_requestTimeout c) (big_Uint64 (v_Round (currentView (handleTimeoutMsg cr bk c)))))"
proof -
  have up: "?thesis" if "handleTimeoutMsg cr bk c = sendRoundChange cr bk r c" "rs_round (c_current c) < r" for r
    using that by (simp add: sendRoundChange_frame view_le_iff currentView_def [of c])
  have nxt: "?thesis" if "handleTimeoutMsg cr bk c = sendNextRoundChange cr bk c"
    using that by (simp add: sendNextRoundChange_frame view_le_iff currentView_def [of c])
  have fresh: "?thesis" if "handleTimeoutMsg cr bk c = enterRound cr bk v False c" "rs_sequence (c_current c) < v_Sequence v" for v
    using that by (simp add: enterRound_frame view_le_iff) (auto simp: currentView_def)
  let ?r = "if \<not> c_waitingForRoundChange c then MaxRound (vs_F (c_valSet c) + 1) (c_roundChangeSet c) else None"
  let ?higher = "case ?r of None \<Rightarrow> False | Some r \<Rightarrow> big_Cmp r (rs_round (c_current c)) > 0"
  show ?thesis
  proof (cases ?higher)
    case True
    then have "handleTimeoutMsg cr bk c = sendRoundChange cr bk (the ?r) c"
      unfolding handleTimeoutMsg_def Let_def by (simp only: if_True)
    moreover have "rs_round (c_current c) < the ?r" using True by (auto split: option.splits if_splits)
    ultimately show ?thesis by (rule up)
  next
    case False
    then have red: "handleTimeoutMsg cr bk c = (case bk_LastProposal bk of
        Some (lp, lpr) \<Rightarrow>
          if big_Cmp (block_Number lp) (rs_sequence (c_current c)) > 0
          then startNewRound cr bk \<lparr>v_Round = 0, v_Sequence = block_Number lp + 1\<rparr> (Some lp) lpr False c
          else sendNextRoundChange cr bk c
      | None \<Rightarrow> sendNextRoundChange cr bk c)"
      unfolding handleTimeoutMsg_def Let_def by (simp only: if_False)
    show ?thesis
    proof (cases "\<exists>lp lpr. bk_LastProposal bk = Some (lp, lpr) \<and> rs_sequence (c_current c) < block_Number lp")
      case True
      then obtain lp lpr where "bk_LastProposal bk = Some (lp, lpr)" "rs_sequence (c_current c) < block_Number lp" by blast
      then show ?thesis using red fresh [of "\<lparr>v_Round = 0, v_Sequence = block_Number lp + 1\<rparr>"]
        by (simp add: startNewRound_def)
    next
      case False
      then have "handleTimeoutMsg cr bk c = sendNextRoundChange cr bk c"
        unfolding red by (auto split: option.split)
      then show ?thesis by (rule nxt)
    qed
  qed
qed

text \<open>C23. No nil dereference: as long as the backend has a last proposal, a started core never encodes a
  nil subject, never proposes from a lock without a proposal and never reads a nil proposal.\<close>

theorem core_never_panics:
  assumes "core_run cr B c" "\<And>bk. B bk \<Longrightarrow> bk_LastProposal bk \<noteq> None"
  shows "\<not> c_panicked c"
  using core_run_panic [OF assms] .

theorem core_never_panics_witness: "\<not> c_panicked one_committed"
  by (rule core_never_panics [OF one_run(3)]) (simp add: one_backend_def)

text \<open>C33. The round timer: while the timeout in nanoseconds fits a signed 64-bit number it is the request
  timeout times two to the round; with the default request timeout of ten seconds it is negative in
  round 30, so the timer fires at once.\<close>

theorem round_timeout_range:
  assumes "round < 64" "2 ^ round * requestTimeout * 1000000 < 2 ^ 63"
  shows "round_timeout bk requestTimeout round = 2 ^ round * int requestTimeout * 1000000 \<and>
    round_timeout bk 10000 30 < 0"
proof
  define t where "t = 2 ^ round * requestTimeout"
  have "t * 1000000 < 2 ^ 63" using assms(2) by (simp add: t_def)
  then have w: "wrap_i64 (int t) = int t" "wrap_i64 (int t * 1000000) = int t * 1000000" "t mod 2 ^ 64 = t"
    by (simp_all add: wrap_i64_def)
  have "round_timeout bk requestTimeout round = wrap_i64 (wrap_i64 (int (t mod 2 ^ 64)) * 1000000)"
    using assms(1) by (simp only: round_timeout_def Let_def t_def if_True)
  also have "\<dots> = int t * 1000000" by (simp only: w)
  finally show "round_timeout bk requestTimeout round = 2 ^ round * int requestTimeout * 1000000"
    by (simp add: t_def)
  show "round_timeout bk 10000 30 < 0"
    by (simp add: round_timeout_def Let_def wrap_i64_def)
qed

theorem round_timeout_range_witness:
  "round_timeout one_backend 10000 29 = 5368709120000000000 \<and> round_timeout one_backend 10000 30 < 0"
  using round_timeout_range [of 29 10000 one_backend] by simp

text \<open>C39. A stale lock: when a quorum of round changes arrives at a locked core whose backend is already
  ahead, the core moves to the next height and keeps the lock and the proposal of the old height.\<close>

theorem catch_up_keeps_stale_lock:
  assumes "bk_LastProposal bk = Some (lp, lpr)" "v_Sequence v < block_Number lp" "IsHashLocked (c_current c)"
  shows "currentView (startNewRound cr bk v None a True c) = \<lparr>v_Round = 0, v_Sequence = block_Number lp + 1\<rparr> \<and>
    rs_lockedHash (c_current (startNewRound cr bk v None a True c)) = rs_lockedHash (c_current c) \<and>
    rs_Preprepare (c_current (startNewRound cr bk v None a True c)) = rs_Preprepare (c_current c)"
proof -
  let ?c = "c\<lparr>c_lastProposal := lp, c_lastProposer := lpr\<rparr>"
  let ?v = "\<lparr>v_Round = 0, v_Sequence = block_Number lp + 1\<rparr>"
  have red: "startNewRound cr bk v None a True c = enterRound cr bk ?v True ?c"
    using assms(1,2) by (simp add: startNewRound_def)
  have "(c_current (enterRound cr bk ?v True ?c))\<lparr>rs_pendingRequest := None\<rparr> =
      (c_current (updateRoundState ?v (snd (bk_Validators bk lp)) True ?c))\<lparr>rs_pendingRequest := None\<rparr>"
    using abs_enterRound [of cr bk ?v True ?c] by (simp add: core_abs_def)
  from arg_cong [OF this, of rs_lockedHash] arg_cong [OF this, of rs_Preprepare]
  show ?thesis unfolding red using assms(3) by (simp add: enterRound_frame updateRoundState_def)
qed

theorem catch_up_keeps_stale_lock_witness:
  "rs_lockedHash (c_current (startNewRound flat_crypto one_backend \<lparr>v_Round = 1, v_Sequence = - 1\<rparr> None 0 True
     (one_core\<lparr>c_current := newRoundState one_view one_set 7 (Some one_preprepare) None\<rparr>))) = 7"
  using catch_up_keeps_stale_lock [of one_backend one_block 1 "\<lparr>v_Round = 1, v_Sequence = - 1\<rparr>"
      "one_core\<lparr>c_current := newRoundState one_view one_set 7 (Some one_preprepare) None\<rparr>" flat_crypto 0]
  by (simp add: one_backend_def one_block_def zero_header_def IsHashLocked_def)

text \<open>C38. A message set counts messages, not validators: any number of messages with different hashes that
  all name the same member are all counted, so one member can make up a quorum.\<close>

theorem message_set_counts_messages:
  assumes "a \<in> members v" "\<forall>m \<in> set msgs. m_Address m = a"
    "distinct (map (\<lambda>m. RLPHash cr (message_rval m)) msgs)"
  shows "ms_Size (fold (\<lambda>m s. snd (ms_Add cr m s)) msgs (newMessageSet v)) = length msgs"
  using ms_Add_many [of msgs "newMessageSet v" cr] assms by (simp add: ms_Size_def [of "newMessageSet v"])

theorem message_set_counts_messages_witness:
  "ms_Size (fold (\<lambda>m s. snd (ms_Add \<lparr>kec = (\<lambda>b. of_nat (length b)), ecrecover = (\<lambda>h s. None)\<rparr> m s))
     [\<lparr>m_Code = 2, m_Msg = [], m_Address = 1, m_Signature = [], m_CommittedSeal = []\<rparr>,
      \<lparr>m_Code = 2, m_Msg = [], m_Address = 1, m_Signature = [6, 6], m_CommittedSeal = []\<rparr>] (newMessageSet one_set)) = 2"
proof -
  let ?m = "\<lambda>sig. \<lparr>m_Code = 2, m_Msg = [], m_Address = 1, m_Signature = sig, m_CommittedSeal = []\<rparr>"
  let ?cr = "\<lparr>kec = (\<lambda>b. of_nat (length b)), ecrecover = (\<lambda>h s. None)\<rparr>"
  have "length (case EncodeToBytes (message_rval (?m [])) of Inr b \<Rightarrow> b | Inl e \<Rightarrow> []) = 26"
    "length (case EncodeToBytes (message_rval (?m [6, 6])) of Inr b \<Rightarrow> b | Inl e \<Rightarrow> []) = 28"
    by code_simp+
  then have "RLPHash ?cr (message_rval (?m [])) \<noteq> RLPHash ?cr (message_rval (?m [6, 6]))"
    by (simp add: RLPHash_def rlpHash_def)
  then show ?thesis using message_set_counts_messages [of 1 one_set "[?m [], ?m [6, 6]]" ?cr]
    by (simp add: one_set_def)
qed

text \<open>Processing a backlog: every message of the queue is posted, kept, or dropped because it is old or
  has no view; only current messages are posted; and a queue that is not empty afterwards is still a
  heap and holds a future message of the highest priority, which stopped the processing.\<close>

theorem drainBacklog_posts_current_messages:
  assumes "prque_ok q" "drainBacklog c q = (rest, posted)"
  shows "prque_ok rest \<and>
    (\<forall>m \<in> set posted. \<exists>v. msg_view m = Some v \<and> checkMessage c (m_Code m) (Some v) = None) \<and>
    (rest \<noteq> [] \<longrightarrow> (\<exists>m p v. (m, p) \<in> set rest \<and> msg_view m = Some v \<and>
       checkMessage c (m_Code m) (Some v) = Some errFutureMessage \<and> (\<forall>(e, s) \<in> set rest. s \<le> p))) \<and>
    (\<forall>(m, p) \<in> set q. (m, p) \<in> set rest \<or> m \<in> set posted \<or> msg_view m = None \<or>
       checkMessage c (m_Code m) (msg_view m) = Some errOldMessage)"
proof -
  note ok = drainBacklog_ok [OF assms]
  have old: "msg_view m = None \<or> checkMessage c (m_Code m) (msg_view m) = Some errOldMessage"
    if "\<not> is_future c m" "\<not> is_current c m" for m
    using that by (cases "msg_view m") (auto simp: is_future_def is_current_def checkMessage_def split: if_splits)
  have "\<forall>(m, p) \<in> set q. (m, p) \<in> set rest \<or> m \<in> set posted \<or> msg_view m = None \<or>
       checkMessage c (m_Code m) (msg_view m) = Some errOldMessage"
    using ok old by fastforce
  then show ?thesis using ok unfolding is_future_def is_current_def by blast
qed

theorem drainBacklog_posts_current_messages_witness:
  "drainBacklog one_prepared [(one_msg msgCommit (subject_rval one_subject), 0)] =
     ([], [one_msg msgCommit (subject_rval one_subject)]) \<and>
   (\<exists>v. msg_view (one_msg msgCommit (subject_rval one_subject)) = Some v)"
proof -
  let ?m = "one_msg msgCommit (subject_rval one_subject)"
  have "msg_view ?m = Some (sub_View one_subject)" by (simp add: msg_view_def one_msg_sel one_decodes)
  moreover have "checkMessage one_prepared msgCommit (Some (sub_View one_subject)) = None"
    by (rule one_checks) (simp_all add: one_prepared_fields)
  moreover have "heap_Pop prque_key [(?m, 0)] = Some ((?m, 0), [])"
    by (simp add: heap_Pop_def swap_def heap_down.simps)
  moreover have "heap_Pop prque_key ([] :: message prque) = None" by (simp add: heap_Pop_def)
  ultimately have d: "drainBacklog one_prepared [(?m, 0)] = ([], [?m])"
    by (simp add: drainBacklog.simps [of _ "[(?m, 0)]"] drainBacklog.simps [of _ "[]"] prque_Pop_def one_msg_sel)
  have "prque_ok [(?m, 0)]" by (simp add: heap_from_def)
  from drainBacklog_posts_current_messages [OF this d] d show ?thesis by auto
qed

end
