(* ===== verification/Istanbul_Snapshot.thy ===== *)
theory Istanbul_Snapshot
  imports Validator_Set
begin

text \<open>
  Snapshots of the validator voting (\<^verbatim>\<open>src/consensus/istanbul/backend/snapshot.go\<close>): votes, their
  cached tally, and the application of headers. The tally is a map; the signer of a header comes from
  its extra-data, as in \<^verbatim>\<open>ecrecover\<close> of \<^verbatim>\<open>engine.go\<close>, whose cache of recent addresses returns what
  an earlier call computed for the same header hash and is left out. The JSON storage is not modelled.
\<close>

section \<open>Signers of headers\<close>

datatype engine_error =
    errInvalidProposal
  | errInvalidSignature
  | errUnknownBlock
  | errUnauthorized
  | errInvalidDifficulty
  | errInvalidExtraDataFormat
  | errInvalidMixDigest
  | errInvalidNonce
  | errInvalidUncleHash
  | errInvalidTimestamp
  | errInvalidVotingChain
  | errInvalidVote
  | errInvalidCommittedSeals
  | errEmptyCommittedSeals
  | ErrFutureBlock
  | ErrUnknownAncestor
  | errExtra extra_error
  | errRecover istanbul_error
  | errEncode rlp_encode_error
  | errDatabase
  | errUnmarshal
  | errSign
  | errInsert
  | errDecodeFailed
  | ErrStartedEngine
  | ErrStoppedEngine

text \<open>\<^verbatim>\<open>rlp.Encode\<close> of a nil header writes an empty list.\<close>

definition sigHash :: "crypto \<Rightarrow> header \<Rightarrow> hash" where
  "sigHash cr h =
     (case IstanbulFilteredHeader h False of
        Some h' \<Rightarrow> rlpHash (kec cr) (header_rval h')
      | None \<Rightarrow> rlpHash (kec cr) RNilStruct)"

definition header_ecrecover :: "crypto \<Rightarrow> header \<Rightarrow> engine_error + address" where
  "header_ecrecover cr h =
     (case ExtractIstanbulExtra h of
        Inl e \<Rightarrow> Inl (errExtra e)
      | Inr x \<Rightarrow>
          (case GetSignatureAddress cr (hash_bytes (sigHash cr h)) (ie_Seal x) of
             Inl e \<Rightarrow> Inl (errRecover e)
           | Inr a \<Rightarrow> Inr a))"

section \<open>Snapshots\<close>

record vote =
  vt_Validator :: address
  vt_Block :: nat
  vt_Address :: address
  vt_Authorize :: bool

record tally =
  ta_Authorize :: bool
  ta_Votes :: int

record snapshot =
  sn_Epoch :: nat
  sn_Number :: nat
  sn_Hash :: hash
  sn_Votes :: "vote list"
  sn_Tally :: "address \<rightharpoonup> tally"
  sn_ValSet :: valset

definition newSnapshot :: "nat \<Rightarrow> nat \<Rightarrow> hash \<Rightarrow> valset \<Rightarrow> snapshot" where
  "newSnapshot epoch number hash valSet =
     \<lparr>sn_Epoch = epoch, sn_Number = number, sn_Hash = hash, sn_Votes = [], sn_Tally = Map.empty,
      sn_ValSet = valSet\<rparr>"

definition snapshot_copy :: "crypto \<Rightarrow> snapshot \<Rightarrow> snapshot" where
  "snapshot_copy cr s = s\<lparr>sn_ValSet := vs_Copy cr (sn_ValSet s)\<rparr>"

definition checkVote :: "address \<Rightarrow> bool \<Rightarrow> snapshot \<Rightarrow> bool" where
  "checkVote addr authorize s =
     (let validator = snd (GetByAddress (sn_ValSet s) addr)
      in (validator \<noteq> None \<and> \<not> authorize) \<or> (validator = None \<and> authorize))"

definition snapshot_cast :: "address \<Rightarrow> bool \<Rightarrow> snapshot \<Rightarrow> bool \<times> snapshot" where
  "snapshot_cast addr authorize s =
     (if \<not> checkVote addr authorize s then (False, s)
      else
        (True, s\<lparr>sn_Tally := (sn_Tally s)(addr \<mapsto>
           (case sn_Tally s addr of
              Some old \<Rightarrow> old\<lparr>ta_Votes := ta_Votes old + 1\<rparr>
            | None \<Rightarrow> \<lparr>ta_Authorize = authorize, ta_Votes = 1\<rparr>))\<rparr>))"

definition snapshot_uncast :: "address \<Rightarrow> bool \<Rightarrow> snapshot \<Rightarrow> bool \<times> snapshot" where
  "snapshot_uncast addr authorize s =
     (case sn_Tally s addr of
        None \<Rightarrow> (False, s)
      | Some t \<Rightarrow>
          if ta_Authorize t \<noteq> authorize then (False, s)
          else if ta_Votes t > 1 then
            (True, s\<lparr>sn_Tally := (sn_Tally s)(addr \<mapsto> t\<lparr>ta_Votes := ta_Votes t - 1\<rparr>)\<rparr>)
          else (True, s\<lparr>sn_Tally := (sn_Tally s)(addr := None)\<rparr>))"

text \<open>The first vote of the validator about the account is taken back; there is at most one.\<close>

fun discard_vote :: "address \<Rightarrow> address \<Rightarrow> vote list \<Rightarrow> vote list \<Rightarrow> snapshot \<Rightarrow> snapshot" where
  "discard_vote validator coinbase before [] s = s"
| "discard_vote validator coinbase before (v # vs) s =
     (if vt_Validator v = validator \<and> vt_Address v = coinbase
      then (snd (snapshot_uncast (vt_Address v) (vt_Authorize v) s))\<lparr>sn_Votes := before @ vs\<rparr>
      else discard_vote validator coinbase (before @ [v]) vs s)"

text \<open>The loop over the votes of a validator that lost its authorization.\<close>

fun discard_votes_by :: "address \<Rightarrow> vote list \<Rightarrow> vote list \<Rightarrow> snapshot \<Rightarrow> snapshot" where
  "discard_votes_by validator before [] s = s\<lparr>sn_Votes := before\<rparr>"
| "discard_votes_by validator before (v # vs) s =
     (if vt_Validator v = validator
      then discard_votes_by validator before vs (snd (snapshot_uncast (vt_Address v) (vt_Authorize v) s))
      else discard_votes_by validator (before @ [v]) vs s)"

definition discard_votes_about :: "address \<Rightarrow> snapshot \<Rightarrow> snapshot" where
  "discard_votes_about a s = s\<lparr>sn_Votes := filter (\<lambda>v. vt_Address v \<noteq> a) (sn_Votes s)\<rparr>"

definition nonceAuthVote :: bytes where
  "nonceAuthVote = replicate 8 0xFF"

definition nonceDropVote :: bytes where
  "nonceDropVote = replicate 8 0"

text \<open>The steps of the loop body of \<^verbatim>\<open>apply\<close>. A vote that passed changes the validator set.\<close>

definition pass_vote :: "crypto \<Rightarrow> address \<Rightarrow> snapshot \<Rightarrow> snapshot" where
  "pass_vote cr coinbase s =
     (case sn_Tally s coinbase of
        None \<Rightarrow> s
      | Some t \<Rightarrow>
          if ta_Votes t > int (vs_Size (sn_ValSet s) div 2) then
            (let s1 = (if ta_Authorize t
                       then s\<lparr>sn_ValSet := snd (AddValidator cr coinbase (sn_ValSet s))\<rparr>
                       else
                         (let s' = s\<lparr>sn_ValSet := snd (RemoveValidator coinbase (sn_ValSet s))\<rparr>
                          in discard_votes_by coinbase [] (sn_Votes s') s'));
                 s2 = discard_votes_about coinbase s1
             in s2\<lparr>sn_Tally := (sn_Tally s2)(coinbase := None)\<rparr>)
          else s)"

definition count_vote :: "crypto \<Rightarrow> address \<Rightarrow> header \<Rightarrow> bool \<Rightarrow> snapshot \<Rightarrow> snapshot" where
  "count_vote cr validator h authorize s =
     (case snapshot_cast (h_Coinbase h) authorize s of (counted, s1) \<Rightarrow>
        pass_vote cr (h_Coinbase h)
          (if counted
           then s1\<lparr>sn_Votes := sn_Votes s1 @
                   [\<lparr>vt_Validator = validator, vt_Block = big_Uint64 (h_Number h), vt_Address = h_Coinbase h,
                     vt_Authorize = authorize\<rparr>]\<rparr>
           else s1))"

definition apply_header :: "crypto \<Rightarrow> header \<Rightarrow> snapshot \<Rightarrow> engine_error + snapshot" where
  "apply_header cr h s =
     (let s0 = (if big_Uint64 (h_Number h) mod sn_Epoch s = 0
                then s\<lparr>sn_Votes := [], sn_Tally := Map.empty\<rparr> else s)
      in case header_ecrecover cr h of
           Inl e \<Rightarrow> Inl e
         | Inr validator \<Rightarrow>
             if snd (GetByAddress (sn_ValSet s0) validator) = None then Inl errUnauthorized
             else
               (let s1 = discard_vote validator (h_Coinbase h) [] (sn_Votes s0) s0
                in if h_Nonce h = nonceAuthVote then Inr (count_vote cr validator h True s1)
                   else if h_Nonce h = nonceDropVote then Inr (count_vote cr validator h False s1)
                   else Inl errInvalidVote))"

fun apply_headers :: "crypto \<Rightarrow> header list \<Rightarrow> snapshot \<Rightarrow> engine_error + snapshot" where
  "apply_headers cr [] s = Inr s"
| "apply_headers cr (h # hs) s =
     (case apply_header cr h s of Inl e \<Rightarrow> Inl e | Inr s1 \<Rightarrow> apply_headers cr hs s1)"

fun contiguous :: "header list \<Rightarrow> bool" where
  "contiguous (h # h' # hs) \<longleftrightarrow>
     big_Uint64 (h_Number h') = (big_Uint64 (h_Number h) + 1) mod 2 ^ 64 \<and> contiguous (h' # hs)"
| "contiguous _ \<longleftrightarrow> True"

text \<open>An epoch of zero divides by zero.\<close>

definition snapshot_apply :: "crypto \<Rightarrow> header list \<Rightarrow> snapshot \<Rightarrow> (engine_error, snapshot) outcome" where
  "snapshot_apply cr headers s =
     (if headers = [] then Ok s
      else if \<not> contiguous headers then Fail errInvalidVotingChain
      else if big_Uint64 (h_Number (hd headers)) \<noteq> (sn_Number s + 1) mod 2 ^ 64 then Fail errInvalidVotingChain
      else if sn_Epoch s = 0 then Panic
      else
        (case apply_headers cr headers (snapshot_copy cr s) of
           Inl e \<Rightarrow> Fail e
         | Inr snap \<Rightarrow>
             Ok (snap\<lparr>sn_Number := (sn_Number snap + length headers) mod 2 ^ 64,
                     sn_Hash := header_Hash (kec cr) (last headers)\<rparr>)))"

text \<open>\<^verbatim>\<open>validators\<close> sorts the addresses in place, comparing every pair of positions.\<close>

definition compare_swap :: "nat \<Rightarrow> nat \<Rightarrow> address list \<Rightarrow> address list" where
  "compare_swap i j xs =
     (if addr_bytes (xs ! i) > addr_bytes (xs ! j) then xs[i := xs ! j, j := xs ! i] else xs)"

definition sort_from :: "nat \<Rightarrow> address list \<Rightarrow> address list" where
  "sort_from i xs = fold (compare_swap i) [Suc i..<length xs] xs"

definition snapshot_validators :: "snapshot \<Rightarrow> address list" where
  "snapshot_validators s =
     (let xs = vs_validators (sn_ValSet s) in fold sort_from [0..<length xs] xs)"

section \<open>The tally counts the votes\<close>

abbreviation votes_about :: "address \<Rightarrow> vote list \<Rightarrow> vote list" where
  "votes_about a l \<equiv> filter (\<lambda>v. vt_Address v = a) l"

text \<open>For a vote list and a member set: an account has a tally exactly when there are votes about it,
  the tally counts them, and they all ask for the change that would be one.\<close>

definition about_ok :: "address set \<Rightarrow> vote list \<Rightarrow> (address \<rightharpoonup> tally) \<Rightarrow> address \<Rightarrow> bool" where
  "about_ok M l T a \<longleftrightarrow>
     (case T a of
        None \<Rightarrow> votes_about a l = []
      | Some t \<Rightarrow> ta_Votes t = int (length (votes_about a l)) \<and> votes_about a l \<noteq> [] \<and>
          (ta_Authorize t \<longleftrightarrow> a \<notin> M) \<and> (\<forall>v \<in> set (votes_about a l). vt_Authorize v \<longleftrightarrow> a \<notin> M))"

definition tallied :: "address set \<Rightarrow> vote list \<Rightarrow> (address \<rightharpoonup> tally) \<Rightarrow> bool" where
  "tallied M l T \<longleftrightarrow> (\<forall>a. about_ok M l T a)"

definition snap_ok :: "crypto \<Rightarrow> snapshot \<Rightarrow> bool" where
  "snap_ok cr s \<longleftrightarrow> valset_ok cr (sn_ValSet s) \<and>
     tallied (members (sn_ValSet s)) (sn_Votes s) (sn_Tally s) \<and>
     distinct (map (\<lambda>v. (vt_Validator v, vt_Address v)) (sn_Votes s)) \<and>
     (\<forall>v \<in> set (sn_Votes s). vt_Validator v \<in> members (sn_ValSet s))"

lemma tallied_None: "tallied M l T \<Longrightarrow> T a = None \<longleftrightarrow> votes_about a l = []"
  unfolding tallied_def about_ok_def by (cases "T a") (fastforce dest: spec [of _ a])+

lemma tallied_Some:
  "tallied M l T \<Longrightarrow> T a = Some t \<Longrightarrow> ta_Votes t = int (length (votes_about a l)) \<and> (ta_Authorize t \<longleftrightarrow> a \<notin> M) \<and>
     (\<forall>v \<in> set (votes_about a l). vt_Authorize v \<longleftrightarrow> a \<notin> M)"
  unfolding tallied_def about_ok_def by (fastforce dest: spec [of _ a])

lemma about_ok_cong:
  assumes "about_ok M l T a" "votes_about a l' = votes_about a l" "T' a = T a" "a \<in> M' \<longleftrightarrow> a \<in> M"
  shows "about_ok M' l' T' a"
  using assms by (simp add: about_ok_def split: option.splits)

lemma talliedI:
  assumes "tallied M l T" "\<And>a. a \<noteq> c \<Longrightarrow> votes_about a l' = votes_about a l"
    "\<And>a. a \<noteq> c \<Longrightarrow> T' a = T a" "\<And>a. a \<noteq> c \<Longrightarrow> a \<in> M' \<longleftrightarrow> a \<in> M" "about_ok M' l' T' c"
  shows "tallied M' l' T'"
  unfolding tallied_def
proof
  fix a
  have "about_ok M l T a" using assms(1) by (simp add: tallied_def)
  from about_ok_cong [OF this] assms(2-5) show "about_ok M' l' T' a" by (cases "a = c") auto
qed

lemma snapshot_uncast_frame [simp]:
  "sn_Votes (snd (snapshot_uncast a b s)) = sn_Votes s" "sn_ValSet (snd (snapshot_uncast a b s)) = sn_ValSet s"
  "sn_Epoch (snd (snapshot_uncast a b s)) = sn_Epoch s"
  by (auto simp: snapshot_uncast_def split: option.split)

lemma tallied_uncast:
  assumes "tallied M (l1 @ v # l2) (sn_Tally s)"
  shows "tallied M (l1 @ l2) (sn_Tally (snd (snapshot_uncast (vt_Address v) (vt_Authorize v) s)))"
proof -
  let ?a = "vt_Address v"
  have "votes_about ?a (l1 @ v # l2) \<noteq> []" by simp
  then obtain t where t: "sn_Tally s ?a = Some t" using tallied_None [OF assms, of ?a] by (cases "sn_Tally s ?a") auto
  note some = tallied_Some [OF assms t]
  have auth: "ta_Authorize t = vt_Authorize v" using some by auto
  define L where "L = votes_about ?a (l1 @ l2)"
  have n: "ta_Votes t = 1 + int (length L)" using some by (simp add: L_def)
  let ?T = "if L = [] then (sn_Tally s)(?a := None) else (sn_Tally s)(?a \<mapsto> t\<lparr>ta_Votes := ta_Votes t - 1\<rparr>)"
  have T: "sn_Tally (snd (snapshot_uncast ?a (vt_Authorize v) s)) = ?T"
    using auth n by (cases L) (simp_all add: snapshot_uncast_def t)
  have M: "ta_Authorize t \<longleftrightarrow> ?a \<notin> M" "\<forall>u \<in> set L. vt_Authorize u \<longleftrightarrow> ?a \<notin> M"
    using some by (auto simp: L_def)
  show ?thesis unfolding T
  proof (rule talliedI [OF assms, where c = ?a])
    show "about_ok M (l1 @ l2) ?T ?a" using M n unfolding about_ok_def L_def [symmetric] by simp
  qed auto
qed

definition vote_on :: "address \<Rightarrow> address \<Rightarrow> vote \<Rightarrow> bool" where
  "vote_on w c v \<longleftrightarrow> (vt_Validator v, vt_Address v) = (w, c)"

lemma vote_on_cong: "vote_on w c v \<Longrightarrow> vote_on w c u \<longleftrightarrow> (vt_Validator u, vt_Address u) = (vt_Validator v, vt_Address v)"
  by (simp add: vote_on_def)

lemma discard_vote_ok:
  assumes "tallied M (before @ l) (sn_Tally s)" "sn_Votes s = before @ l" "\<forall>v \<in> set before. \<not> vote_on w c v"
    "distinct (map (\<lambda>v. (vt_Validator v, vt_Address v)) (before @ l))"
  shows "tallied M (sn_Votes (discard_vote w c before l s)) (sn_Tally (discard_vote w c before l s)) \<and>
    sn_Votes (discard_vote w c before l s) = filter (\<lambda>v. \<not> vote_on w c v) (before @ l) \<and>
    sn_ValSet (discard_vote w c before l s) = sn_ValSet s \<and> sn_Epoch (discard_vote w c before l s) = sn_Epoch s"
  using assms
proof (induction l arbitrary: before)
  case Nil
  then have "filter (\<lambda>v. \<not> vote_on w c v) before = before" by (simp add: filter_id_conv)
  with Nil show ?case by simp
next
  case (Cons v l)
  have step: "discard_vote w c before (v # l) s = (if vote_on w c v
      then (snd (snapshot_uncast (vt_Address v) (vt_Authorize v) s))\<lparr>sn_Votes := before @ l\<rparr>
      else discard_vote w c (before @ [v]) l s)" by (simp add: vote_on_def)
  show ?case
  proof (cases "vote_on w c v")
    case True
    have "(vt_Validator v, vt_Address v) \<notin> set (map (\<lambda>v. (vt_Validator v, vt_Address v)) l)"
      using Cons.prems(4) by simp
    then have "\<forall>u \<in> set l. \<not> vote_on w c u" by (auto simp: vote_on_cong [OF True] image_iff)
    then have "filter (\<lambda>v. \<not> vote_on w c v) (before @ v # l) = before @ l"
      using Cons.prems(3) True by (simp add: filter_id_conv)
    then show ?thesis using tallied_uncast [OF Cons.prems(1)] True unfolding step by simp
  next
    case False
    then have "\<forall>u \<in> set (before @ [v]). \<not> vote_on w c u" using Cons.prems(3) by simp
    moreover have eq: "before @ v # l = (before @ [v]) @ l" by simp
    ultimately show ?thesis
      using Cons.IH [of "before @ [v]"] Cons.prems(1,2,4) unfolding step if_not_P [OF False] eq by blast
  qed
qed

lemma discard_votes_by_ok:
  assumes "tallied M (before @ l) (sn_Tally s)"
  shows "tallied M (before @ filter (\<lambda>v. vt_Validator v \<noteq> w) l) (sn_Tally (discard_votes_by w before l s)) \<and>
    sn_Votes (discard_votes_by w before l s) = before @ filter (\<lambda>v. vt_Validator v \<noteq> w) l \<and>
    sn_ValSet (discard_votes_by w before l s) = sn_ValSet s \<and> sn_Epoch (discard_votes_by w before l s) = sn_Epoch s"
  using assms
proof (induction l arbitrary: before s)
  case (Cons v l)
  show ?case
  proof (cases "vt_Validator v = w")
    case True
    from Cons.IH [OF tallied_uncast [OF Cons.prems]] True show ?thesis by simp
  next
    case False
    then show ?thesis using Cons.IH [of "before @ [v]" s] Cons.prems by simp
  qed
qed simp

lemma tallied_change:
  assumes "tallied M l T" "\<And>a. a \<noteq> c \<Longrightarrow> a \<in> M' \<longleftrightarrow> a \<in> M"
  shows "tallied M' (filter (\<lambda>v. vt_Address v \<noteq> c) l) (T(c := None))"
proof (rule talliedI [OF assms(1), where c = c])
  show "about_ok M' (filter (\<lambda>v. vt_Address v \<noteq> c) l) (T(c := None)) c"
    by (auto simp: about_ok_def filter_empty_conv)
  show "votes_about a (filter (\<lambda>v. vt_Address v \<noteq> c) l) = votes_about a l" if "a \<noteq> c" for a
    using that by (induction l) auto
qed (use assms(2) in auto)

lemma tallied_cast:
  assumes "tallied M l (sn_Tally s)" "checkVote a auth s" "members (sn_ValSet s) = M" "vt_Address v = a" "vt_Authorize v = auth"
  shows "tallied M (l @ [v]) (sn_Tally (snd (snapshot_cast a auth s)))"
proof (rule talliedI [OF assms(1), where c = a])
  have auth: "auth \<longleftrightarrow> a \<notin> M" using assms(2,3) by (auto simp: checkVote_def snd_GetByAddress Let_def split: if_splits)
  show "about_ok M (l @ [v]) (sn_Tally (snd (snapshot_cast a auth s))) a"
  proof (cases "sn_Tally s a")
    case None
    then have "votes_about a l = []" using tallied_None [OF assms(1)] by blast
    then show ?thesis using assms(2,4,5) auth None by (simp add: about_ok_def snapshot_cast_def)
  next
    case (Some t)
    then show ?thesis using tallied_Some [OF assms(1) Some] assms(2,4,5) auth
      by (auto simp: about_ok_def snapshot_cast_def)
  qed
qed (use assms(2,4) in \<open>auto simp: snapshot_cast_def\<close>)

section \<open>Headers keep the tally right\<close>

abbreviation vote_keys :: "vote list \<Rightarrow> (address \<times> address) list" where
  "vote_keys l \<equiv> map (\<lambda>v. (vt_Validator v, vt_Address v)) l"

lemma distinct_vote_keys_filter: "distinct (vote_keys l) \<Longrightarrow> distinct (vote_keys (filter P l))"
  by (induction l) auto

text \<open>The change that a passed vote makes to the member set.\<close>

definition toggle :: "address \<Rightarrow> address set \<Rightarrow> address set" where
  "toggle c M = (if c \<in> M then M - {c} else insert c M)"

lemma pass_vote_cases:
  assumes "snap_ok cr s"
  shows "pass_vote cr c s = s \<or>
    (int (length (votes_about c (sn_Votes s))) > int (vs_Size (sn_ValSet s) div 2) \<and>
     snap_ok cr (pass_vote cr c s) \<and> sn_Epoch (pass_vote cr c s) = sn_Epoch s \<and>
     members (sn_ValSet (pass_vote cr c s)) = toggle c (members (sn_ValSet s)))"
proof (cases "\<exists>t. sn_Tally s c = Some t \<and> ta_Votes t > int (vs_Size (sn_ValSet s) div 2)")
  case False
  then have "pass_vote cr c s = s" by (auto simp: pass_vote_def split: option.split)
  then show ?thesis ..
next
  case True
  then obtain t where t: "sn_Tally s c = Some t" and big: "ta_Votes t > int (vs_Size (sn_ValSet s) div 2)" by blast
  let ?M = "members (sn_ValSet s)" and ?l = "sn_Votes s"
  have ok: "valset_ok cr (sn_ValSet s)" "tallied ?M ?l (sn_Tally s)" "distinct (vote_keys ?l)"
    "\<forall>v \<in> set ?l. vt_Validator v \<in> ?M" using assms by (auto simp: snap_ok_def)
  note some = tallied_Some [OF ok(2) t]
  have pass: "int (length (votes_about c ?l)) > int (vs_Size (sn_ValSet s) div 2)" using some big by simp
  show ?thesis
  proof (cases "ta_Authorize t")
    case True
    let ?vs = "snd (AddValidator cr c (sn_ValSet s))"
    have c: "c \<notin> ?M" using True some by simp
    have r: "pass_vote cr c s = s\<lparr>sn_ValSet := ?vs, sn_Votes := filter (\<lambda>v. vt_Address v \<noteq> c) ?l,
        sn_Tally := (sn_Tally s)(c := None)\<rparr>"
      using t big True by (simp add: pass_vote_def discard_votes_about_def Let_def)
    have m: "members ?vs = insert c ?M" by (rule members_AddValidator)
    have "tallied (members ?vs) (filter (\<lambda>v. vt_Address v \<noteq> c) ?l) ((sn_Tally s)(c := None))"
      by (rule tallied_change [OF ok(2)]) (simp add: m)
    then have "snap_ok cr (pass_vote cr c s)" unfolding r snap_ok_def
      using ok AddValidator_ok [OF ok(1)] m by (simp add: distinct_vote_keys_filter)
    then show ?thesis using pass m c unfolding r by (simp add: toggle_def)
  next
    case False
    let ?vs = "snd (RemoveValidator c (sn_ValSet s))"
    let ?s = "s\<lparr>sn_ValSet := ?vs\<rparr>"
    let ?d = "discard_votes_by c [] ?l ?s"
    have c: "c \<in> ?M" using False some by simp
    have m: "members ?vs = ?M - {c}" using members_RemoveValidator [OF ok(1)] by blast
    have d: "tallied ?M (filter (\<lambda>v. vt_Validator v \<noteq> c) ?l) (sn_Tally ?d)"
      "sn_Votes ?d = filter (\<lambda>v. vt_Validator v \<noteq> c) ?l" "sn_ValSet ?d = ?vs" "sn_Epoch ?d = sn_Epoch s"
      using discard_votes_by_ok [of ?M "[]" ?l ?s c] ok(2) by simp_all
    let ?l' = "filter (\<lambda>v. vt_Address v \<noteq> c) (filter (\<lambda>v. vt_Validator v \<noteq> c) ?l)"
    have r: "pass_vote cr c s = ?d\<lparr>sn_Votes := ?l', sn_Tally := (sn_Tally ?d)(c := None)\<rparr>"
      using t big False d(2) by (simp add: pass_vote_def discard_votes_about_def Let_def)
    have "tallied (members ?vs) ?l' ((sn_Tally ?d)(c := None))"
      by (rule tallied_change [OF d(1)]) (simp add: m)
    then have "snap_ok cr (pass_vote cr c s)" unfolding r snap_ok_def
      using ok(3,4) RemoveValidator_ok [OF ok(1)] m d(3) by (simp add: distinct_vote_keys_filter)
    then show ?thesis using pass m c d(3,4) unfolding r by (simp add: toggle_def)
  qed
qed

lemma voters_card:
  assumes "distinct (vote_keys l)"
  shows "card (vt_Validator ` set (votes_about c l)) = length (votes_about c l)"
proof -
  have "distinct (map vt_Validator (votes_about c l))"
    using assms by (induction l) (auto simp: image_iff)
  then show ?thesis by (metis distinct_card length_map set_map)
qed

text \<open>A change of the member set is backed by a majority: the signer and members whose votes for this
  change are in the snapshot.\<close>

definition majority_for :: "address \<Rightarrow> address \<Rightarrow> snapshot \<Rightarrow> bool" where
  "majority_for w c s \<longleftrightarrow>
     (\<exists>voters \<subseteq> members (sn_ValSet s). 2 * card voters > vs_Size (sn_ValSet s) \<and>
        (\<forall>x \<in> voters. x = w \<or> (\<exists>v \<in> set (sn_Votes s). vt_Validator v = x \<and> vt_Address v = c \<and>
           (vt_Authorize v \<longleftrightarrow> c \<notin> members (sn_ValSet s)))))"

lemma count_vote_cases:
  assumes "snap_ok cr s" "w \<in> members (sn_ValSet s)" "\<forall>v \<in> set (sn_Votes s). \<not> vote_on w (h_Coinbase h) v"
  shows "snap_ok cr (count_vote cr w h auth s) \<and> sn_Epoch (count_vote cr w h auth s) = sn_Epoch s \<and>
    (members (sn_ValSet (count_vote cr w h auth s)) = members (sn_ValSet s) \<or>
     members (sn_ValSet (count_vote cr w h auth s)) = toggle (h_Coinbase h) (members (sn_ValSet s)) \<and>
     majority_for w (h_Coinbase h) s)"
proof -
  let ?c = "h_Coinbase h" and ?M = "members (sn_ValSet s)" and ?l = "sn_Votes s"
  let ?v = "\<lparr>vt_Validator = w, vt_Block = big_Uint64 (h_Number h), vt_Address = ?c, vt_Authorize = auth\<rparr>"
  let ?l' = "if checkVote ?c auth s then ?l @ [?v] else ?l"
  define s2 where "s2 = (if checkVote ?c auth s
    then (snd (snapshot_cast ?c auth s))\<lparr>sn_Votes := ?l @ [?v]\<rparr> else s)"
  have r: "count_vote cr w h auth s = pass_vote cr ?c s2"
    and s2: "sn_Votes s2 = ?l'" "sn_ValSet s2 = sn_ValSet s" "sn_Epoch s2 = sn_Epoch s"
      "sn_Tally s2 = sn_Tally (snd (snapshot_cast ?c auth s))"
    by (simp_all add: s2_def count_vote_def snapshot_cast_def)
  have new: "(w, ?c) \<notin> set (vote_keys ?l)" using assms(3) by (auto simp: vote_on_def)
  have ok: "tallied ?M ?l (sn_Tally s)" "distinct (vote_keys ?l)" "\<forall>v \<in> set ?l. vt_Validator v \<in> ?M"
    using assms(1) by (auto simp: snap_ok_def)
  have t2: "tallied ?M ?l' (sn_Tally s2)"
    using tallied_cast [OF ok(1), of ?c auth ?v] ok(1) s2(4) by (simp add: snapshot_cast_def)
  have ok2: "snap_ok cr s2" using assms(1,2) t2 s2(1,2) new unfolding snap_ok_def by simp
  have maj: "majority_for w ?c s" if big: "int (length (votes_about ?c (sn_Votes s2))) > int (vs_Size (sn_ValSet s2) div 2)"
  proof -
    let ?V = "vt_Validator ` set (votes_about ?c ?l')"
    have k: "distinct (vote_keys ?l')" "\<forall>v \<in> set ?l'. vt_Validator v \<in> ?M"
      using ok2 unfolding snap_ok_def s2(1,2) by simp_all
    have "sn_Tally s2 ?c \<noteq> None" using big tallied_None [OF t2, of ?c] unfolding s2(1) by auto
    then have "\<forall>v \<in> set (votes_about ?c ?l'). vt_Authorize v \<longleftrightarrow> ?c \<notin> ?M"
      using tallied_Some [OF t2] by blast
    then have "\<forall>x \<in> ?V. x = w \<or> (\<exists>v \<in> set ?l. vt_Validator v = x \<and> vt_Address v = ?c \<and> (vt_Authorize v \<longleftrightarrow> ?c \<notin> ?M))"
      by (auto split: if_splits)
    moreover have "2 * card ?V > vs_Size (sn_ValSet s)" using big unfolding voters_card [OF k(1)] s2(1,2) by linarith
    moreover have "?V \<subseteq> ?M" using k(2) by auto
    ultimately show ?thesis unfolding majority_for_def by blast
  qed
  show ?thesis using pass_vote_cases [OF ok2, of ?c] ok2 maj s2(2,3) unfolding r by metis
qed

lemma apply_header_cases:
  assumes "snap_ok cr s" "apply_header cr h s = Inr s'"
  shows "\<exists>w. header_ecrecover cr h = Inr w \<and> w \<in> members (sn_ValSet s) \<and> snap_ok cr s' \<and> sn_Epoch s' = sn_Epoch s \<and>
    (members (sn_ValSet s') = members (sn_ValSet s) \<or>
     members (sn_ValSet s') = toggle (h_Coinbase h) (members (sn_ValSet s)) \<and> majority_for w (h_Coinbase h) s)"
proof -
  define s0 where "s0 = (if big_Uint64 (h_Number h) mod sn_Epoch s = 0
    then s\<lparr>sn_Votes := [], sn_Tally := Map.empty\<rparr> else s)"
  have s0: "snap_ok cr s0" "sn_ValSet s0 = sn_ValSet s" "sn_Epoch s0 = sn_Epoch s" "set (sn_Votes s0) \<subseteq> set (sn_Votes s)"
    using assms(1) by (auto simp: s0_def snap_ok_def tallied_def about_ok_def)
  note ap = assms(2) [unfolded apply_header_def Let_def, folded s0_def]
  obtain w where w: "header_ecrecover cr h = Inr w"
    using ap by (auto split: sum.splits)
  then have mem: "w \<in> members (sn_ValSet s)"
    using ap s0(2) by (auto simp: snd_GetByAddress split: if_splits)
  let ?s1 = "discard_vote w (h_Coinbase h) [] (sn_Votes s0) s0"
  have "tallied (members (sn_ValSet s0)) ([] @ sn_Votes s0) (sn_Tally s0)" "distinct (vote_keys ([] @ sn_Votes s0))"
    using s0(1) by (simp_all add: snap_ok_def)
  with discard_vote_ok [of "members (sn_ValSet s0)" "[]" "sn_Votes s0" s0 w "h_Coinbase h"] s0(2,3)
  have s1: "tallied (members (sn_ValSet s)) (sn_Votes ?s1) (sn_Tally ?s1)"
    "sn_Votes ?s1 = filter (\<lambda>v. \<not> vote_on w (h_Coinbase h) v) (sn_Votes s0)"
    "sn_ValSet ?s1 = sn_ValSet s" "sn_Epoch ?s1 = sn_Epoch s" by auto
  have ok1: "snap_ok cr ?s1"
    using s0(1) s1(1) unfolding snap_ok_def s1(2,3) s0(2) by (simp add: distinct_vote_keys_filter)
  have "\<exists>auth. s' = count_vote cr w h auth ?s1"
    using ap w by (auto split: if_splits)
  then obtain auth where r: "s' = count_vote cr w h auth ?s1" by blast
  have sub: "majority_for w (h_Coinbase h) ?s1 \<Longrightarrow> majority_for w (h_Coinbase h) s"
    using s0(4) unfolding majority_for_def s1(2,3) by (auto 0 4)
  have "w \<in> members (sn_ValSet ?s1)" "\<forall>v \<in> set (sn_Votes ?s1). \<not> vote_on w (h_Coinbase h) v"
    using mem unfolding s1(2,3) by simp_all
  from count_vote_cases [OF ok1 this, of auth] show ?thesis
    using w mem sub unfolding r s1(3,4) by blast
qed

lemma apply_headers_ok:
  "snap_ok cr s \<Longrightarrow> apply_headers cr hs s = Inr s' \<Longrightarrow> snap_ok cr s' \<and> sn_Epoch s' = sn_Epoch s"
proof (induction hs arbitrary: s)
  case (Cons h hs)
  then obtain s1 where s1: "apply_header cr h s = Inr s1" "apply_headers cr hs s1 = Inr s'"
    by (auto split: sum.splits)
  have "snap_ok cr s1" "sn_Epoch s1 = sn_Epoch s" using apply_header_cases [OF Cons.prems(1) s1(1)] by blast+
  with Cons.IH [OF this(1) s1(2)] show ?case by simp
qed simp

section \<open>Sorting the validators\<close>

lemma length_compare_swap [simp]: "length (compare_swap i j xs) = length xs"
  by (simp add: compare_swap_def)

lemma compare_swap_nth:
  assumes "i < j" "j < length xs"
  shows "mset (compare_swap i j xs) = mset xs" "k \<noteq> i \<Longrightarrow> k \<noteq> j \<Longrightarrow> compare_swap i j xs ! k = xs ! k"
    "addr_bytes (compare_swap i j xs ! i) \<le> addr_bytes (compare_swap i j xs ! j)"
    "addr_bytes (compare_swap i j xs ! i) \<le> addr_bytes (xs ! i)"
  using assms by (auto simp: compare_swap_def mset_swap not_less)

lemma sort_from_partial:
  assumes "Suc i \<le> m" "m \<le> length xs"
  shows "length (fold (compare_swap i) [Suc i..<m] xs) = length xs \<and>
    mset (fold (compare_swap i) [Suc i..<m] xs) = mset xs \<and>
    (\<forall>k < i. fold (compare_swap i) [Suc i..<m] xs ! k = xs ! k) \<and>
    (\<forall>j. i < j \<and> j < m \<longrightarrow> addr_bytes (fold (compare_swap i) [Suc i..<m] xs ! i) \<le>
       addr_bytes (fold (compare_swap i) [Suc i..<m] xs ! j))"
  using assms
proof (induction m)
  case (Suc m)
  show ?case
  proof (cases "Suc i \<le> m")
    case False
    then have "m = i" using Suc.prems(1) by simp
    then show ?thesis by auto
  next
    case True
    let ?ys = "fold (compare_swap i) [Suc i..<m] xs" and ?zs = "fold (compare_swap i) [Suc i..<Suc m] xs"
    have z: "?zs = compare_swap i m ?ys" using True by simp
    have ih: "length ?ys = length xs" "mset ?ys = mset xs" "\<forall>k < i. ?ys ! k = xs ! k"
      "\<forall>j. i < j \<and> j < m \<longrightarrow> addr_bytes (?ys ! i) \<le> addr_bytes (?ys ! j)"
      using Suc.IH [OF True] Suc.prems(2) by auto
    have lt: "i < m" "m < length ?ys" using True Suc.prems(2) ih(1) by auto
    note cs = compare_swap_nth [OF lt]
    have "addr_bytes (?zs ! i) \<le> addr_bytes (?zs ! j)" if "i < j" "j < Suc m" for j
    proof (cases "j = m")
      case True
      then show ?thesis unfolding z using cs(3) by simp
    next
      case False
      then have j: "?zs ! j = ?ys ! j" "addr_bytes (?ys ! i) \<le> addr_bytes (?ys ! j)"
        unfolding z using cs(2) [of j] ih(4) that by auto
      have "addr_bytes (?zs ! i) \<le> addr_bytes (?ys ! i)" unfolding z by (rule cs(4))
      from order_trans [OF this j(2)] show ?thesis unfolding j(1) .
    qed
    moreover have "?zs ! k = xs ! k" if "k < i" for k
      using cs(2) [of k] ih(3) lt that unfolding z by simp
    moreover have "length ?zs = length xs" "mset ?zs = mset xs"
      using cs(1) ih(1,2) unfolding z by simp_all
    ultimately show ?thesis by blast
  qed
qed simp

lemma sort_from_ok:
  assumes "i < length xs"
  shows "length (sort_from i xs) = length xs" "mset (sort_from i xs) = mset xs"
    "\<forall>k < i. sort_from i xs ! k = xs ! k"
    "\<forall>j. i < j \<and> j < length xs \<longrightarrow> addr_bytes (sort_from i xs ! i) \<le> addr_bytes (sort_from i xs ! j)"
    "set (drop i (sort_from i xs)) = set (drop i xs)"
proof -
  have p: "length (sort_from i xs) = length xs \<and> mset (sort_from i xs) = mset xs \<and>
    (\<forall>k < i. sort_from i xs ! k = xs ! k) \<and>
    (\<forall>j. i < j \<and> j < length xs \<longrightarrow> addr_bytes (sort_from i xs ! i) \<le> addr_bytes (sort_from i xs ! j))"
    unfolding sort_from_def by (rule sort_from_partial) (use assms in auto)
  then show "length (sort_from i xs) = length xs" "mset (sort_from i xs) = mset xs"
    "\<forall>k < i. sort_from i xs ! k = xs ! k"
    "\<forall>j. i < j \<and> j < length xs \<longrightarrow> addr_bytes (sort_from i xs ! i) \<le> addr_bytes (sort_from i xs ! j)" by blast+
  have "take i (sort_from i xs) = take i xs" using p assms by (intro nth_equalityI) auto
  moreover have "mset (take i ys @ drop i ys) = mset ys" for ys :: "address list" by simp
  ultimately have "mset (drop i (sort_from i xs)) = mset (drop i xs)"
    using p by (metis add_left_imp_eq mset_append)
  then show "set (drop i (sort_from i xs)) = set (drop i xs)" by (metis set_mset_mset)
qed

lemma sort_prefix:
  assumes "m \<le> length xs"
  shows "length (fold sort_from [0..<m] xs) = length xs \<and> mset (fold sort_from [0..<m] xs) = mset xs \<and>
    (\<forall>a b. a < m \<and> a < b \<and> b < length xs \<longrightarrow>
       addr_bytes (fold sort_from [0..<m] xs ! a) \<le> addr_bytes (fold sort_from [0..<m] xs ! b))"
  using assms
proof (induction m)
  case (Suc m)
  let ?ys = "fold sort_from [0..<m] xs" and ?zs = "fold sort_from [0..<Suc m] xs"
  have z: "?zs = sort_from m ?ys" by simp
  have ih: "length ?ys = length xs" "mset ?ys = mset xs"
    "\<And>a b. a < m \<Longrightarrow> a < b \<Longrightarrow> b < length xs \<Longrightarrow> addr_bytes (?ys ! a) \<le> addr_bytes (?ys ! b)"
    using Suc by auto
  have lt: "m < length ?ys" using Suc.prems ih(1) by simp
  note sf = sort_from_ok [OF lt]
  have "addr_bytes (?zs ! a) \<le> addr_bytes (?zs ! b)" if ab: "a < Suc m" "a < b" "b < length xs" for a b
  proof (cases "a = m")
    case True
    then show ?thesis unfolding z using sf(4) ab ih(1) by auto
  next
    case False
    then have a: "a < m" "?zs ! a = ?ys ! a" unfolding z using ab sf(3) by auto
    show ?thesis
    proof (cases "b < m")
      case True
      then show ?thesis using a ih(3) [OF a(1) ab(2,3)] sf(3) unfolding z by simp
    next
      case False
      have "?zs ! b = drop m ?zs ! (b - m)" "b - m < length (drop m ?zs)"
        using False ab(3) sf(1) ih(1) unfolding z by simp_all
      then have "?zs ! b \<in> set (drop m ?zs)" using nth_mem by metis
      then have "?zs ! b \<in> set (drop m ?ys)" using sf(5) unfolding z by simp
      then obtain k where "k < length (drop m ?ys)" "drop m ?ys ! k = ?zs ! b" by (auto simp: in_set_conv_nth)
      then have "?ys ! (m + k) = ?zs ! b" "m + k < length xs" using ih(1) lt by simp_all
      then show ?thesis using ih(3) [of a "m + k"] a by simp
    qed
  qed
  then show ?case using sf(1,2) ih(1,2) unfolding z by simp
qed simp

section \<open>Properties\<close>

definition lone_snapshot :: snapshot where
  "lone_snapshot = newSnapshot 30000 299 0 (newDefaultSet toy_crypto [0] RoundRobin)"

lemma lone_snapshot_ok: "snap_ok toy_crypto lone_snapshot" "members (sn_ValSet lone_snapshot) = {0}"
proof -
  have "valset_ok toy_crypto (newDefaultSet toy_crypto [0] RoundRobin)" by (rule newDefaultSet_ok) simp
  then show "snap_ok toy_crypto lone_snapshot" "members (sn_ValSet lone_snapshot) = {0}"
    by (simp_all add: snap_ok_def lone_snapshot_def newSnapshot_def tallied_def about_ok_def)
qed

lemma zero_header_signer: "header_ecrecover toy_crypto zero_header = Inr 0"
proof -
  have "DecodeBytes [0xC3, 0xC0, 0x80, 0xC0] decodeIstanbulExtra =
    Inr \<lparr>ie_Validators = [], ie_Seal = [], ie_CommittedSeal = []\<rparr>" by code_simp
  then have "ExtractIstanbulExtra zero_header = Inr \<lparr>ie_Validators = [], ie_Seal = [], ie_CommittedSeal = []\<rparr>"
    by (simp add: ExtractIstanbulExtra_def IstanbulExtraVanity_def zero_header_def)
  moreover have "PubkeyToAddress toy_crypto [0] = 0" by code_simp
  ultimately show ?thesis by (simp add: header_ecrecover_def GetSignatureAddress_def toy_crypto_def)
qed

lemma lone_validator_leaves:
  "\<exists>s'. apply_header toy_crypto zero_header lone_snapshot = Inr s' \<and> members (sn_ValSet s') = {}"
proof -
  define v where "v = newDefaultSet toy_crypto [0] RoundRobin"
  have ok: "valset_ok toy_crypto v" and m: "members v = {0}"
    unfolding v_def by (rule newDefaultSet_ok) simp_all
  have v: "vs_validators v = [0]"
    unfolding v_def newDefaultSet_def Let_def by (simp add: insort_key_def)
  have g: "GetByAddress v 0 = (0, Some 0)" using v by (simp add: GetByAddress_def)
  have n: "big_Uint64 (h_Number zero_header) mod 30000 = 300" "h_Coinbase zero_header = 0"
    "h_Nonce zero_header = nonceDropVote" "nonceDropVote \<noteq> nonceAuthVote"
    by (simp_all add: zero_header_def big_Uint64_def nonceDropVote_def nonceAuthVote_def)
  show ?thesis
    unfolding apply_header_def lone_snapshot_def newSnapshot_def count_vote_def v_def [symmetric] zero_header_signer n
    by (simp add: Let_def g n snapshot_cast_def checkVote_def pass_vote_def vs_Size_def v
        discard_votes_about_def RemoveValidator_def remove_nth_def)
qed

text \<open>C22. Applying headers keeps the snapshot consistent: the validator set stays sorted and free of
  duplicates, the cached tally counts exactly the pending votes about each account, every vote asks
  for a real change, no validator votes twice on an account, and only current validators have votes.\<close>

theorem snapshot_apply_keeps_tally:
  assumes "snap_ok cr s" "snapshot_apply cr headers s = Ok s'"
  shows "snap_ok cr s'"
proof (cases "headers = []")
  case True
  then show ?thesis using assms by (simp add: snapshot_apply_def)
next
  case False
  then obtain snap where snap: "apply_headers cr headers (snapshot_copy cr s) = Inr snap"
    and s': "s' = snap\<lparr>sn_Number := (sn_Number snap + length headers) mod 2 ^ 64,
                     sn_Hash := header_Hash (kec cr) (last headers)\<rparr>"
    using assms(2) by (auto simp: snapshot_apply_def split: if_splits sum.splits)
  have "snap_ok cr (snapshot_copy cr s)"
    using assms(1) vs_Copy_ok [of cr "sn_ValSet s"] by (simp add: snap_ok_def snapshot_copy_def vs_Copy_def)
  from apply_headers_ok [OF this snap] show ?thesis unfolding s' by (simp add: snap_ok_def)
qed

theorem snapshot_apply_keeps_tally_witness:
  "\<exists>s'. snapshot_apply toy_crypto [zero_header] lone_snapshot = Ok s' \<and> snap_ok toy_crypto s'"
proof -
  have copy: "snapshot_copy toy_crypto lone_snapshot = lone_snapshot"
    by (simp add: snapshot_copy_def lone_snapshot_def newSnapshot_def vs_Copy_def newDefaultSet_def Let_def)
  have n: "big_Uint64 (h_Number zero_header) = 300" "sn_Number lone_snapshot = 299" "sn_Epoch lone_snapshot = 30000"
    by (simp_all add: zero_header_def big_Uint64_def lone_snapshot_def newSnapshot_def)
  from lone_validator_leaves have "\<exists>s'. snapshot_apply toy_crypto [zero_header] lone_snapshot = Ok s'"
    by (auto simp: snapshot_apply_def copy n)
  with snapshot_apply_keeps_tally [OF lone_snapshot_ok(1)] show ?thesis by blast
qed

text \<open>C6. The validator set changes only by majority: a header that changes the members adds or removes
  exactly its coinbase, is signed by a member, and more than half of the members, the signer and
  members with pending votes for this change, are behind it.\<close>

theorem members_change_by_majority:
  assumes "snap_ok cr s" "apply_header cr h s = Inr s'" "members (sn_ValSet s') \<noteq> members (sn_ValSet s)"
  shows "\<exists>w voters. header_ecrecover cr h = Inr w \<and> voters \<subseteq> members (sn_ValSet s) \<and>
    2 * card voters > vs_Size (sn_ValSet s) \<and>
    (\<forall>x \<in> voters. x = w \<or> (\<exists>v \<in> set (sn_Votes s). vt_Validator v = x \<and> vt_Address v = h_Coinbase h \<and>
       (vt_Authorize v \<longleftrightarrow> h_Coinbase h \<notin> members (sn_ValSet s)))) \<and>
    members (sn_ValSet s') = (if h_Coinbase h \<in> members (sn_ValSet s) then members (sn_ValSet s) - {h_Coinbase h}
      else insert (h_Coinbase h) (members (sn_ValSet s)))"
  using apply_header_cases [OF assms(1,2)] assms(3) unfolding majority_for_def toggle_def by blast

theorem members_change_by_majority_witness:
  "\<exists>w voters. header_ecrecover toy_crypto zero_header = Inr w \<and> voters \<subseteq> members (sn_ValSet lone_snapshot) \<and>
     2 * card voters > vs_Size (sn_ValSet lone_snapshot)"
proof -
  from lone_validator_leaves obtain s' where s': "apply_header toy_crypto zero_header lone_snapshot = Inr s'"
    and m: "members (sn_ValSet s') \<noteq> members (sn_ValSet lone_snapshot)" using lone_snapshot_ok(2) by auto
  from members_change_by_majority [OF lone_snapshot_ok(1) s' m] show ?thesis by blast
qed

text \<open>The list of validators that goes into a header is the sorted list of the members.\<close>

theorem snapshot_validators_sorted:
  "snapshot_validators s = sort_key addr_bytes (vs_validators (sn_ValSet s))"
proof -
  let ?xs = "vs_validators (sn_ValSet s)"
  have p: "length (snapshot_validators s) = length ?xs" "mset (snapshot_validators s) = mset ?xs"
    "\<And>a b. a < b \<Longrightarrow> b < length ?xs \<Longrightarrow> addr_bytes (snapshot_validators s ! a) \<le> addr_bytes (snapshot_validators s ! b)"
    using sort_prefix [of "length ?xs" ?xs] unfolding snapshot_validators_def Let_def
    by (simp_all only: order_refl simp_thms)
  have "sorted (map addr_bytes (snapshot_validators s))"
    unfolding sorted_iff_nth_mono_less using p(1,3) by simp
  moreover have "inj_on addr_bytes (set ?xs)" by (auto simp: inj_on_def)
  ultimately show ?thesis using sort_key_inj_key_eq [OF p(2) [symmetric]] by metis
qed

end
