(* ===== verification/Istanbul_Engine.thy ===== *)
theory Istanbul_Engine
  imports Istanbul_Types Istanbul_Snapshot "HOL-Library.AList"
begin

text \<open>
  The consensus engine (\<^verbatim>\<open>src/consensus/istanbul/backend/\<close>): header verification, the lookup of
  voting snapshots through the memory cache and the database, block preparation and sealing, the
  interface the core calls, the message gossip and the RPC interface.

  \<^item> An operation takes the engine's state and returns its outcome and the new state. The monadic
    operations \<open>eret\<close>, \<open>efail\<close> and \<open>ebind\<close> are Go's early return on error.
  \<^item> The record \<open>engine_env\<close> holds what the engine gets from outside: the chain it reads, the clock,
    signing, the writes to the database that succeed, the chain inserter, and the insertions of the
    ARC caches (a third-party package), which may evict other entries.
  \<^item> Channels and goroutines: what is posted, sent or broadcast is the result list of
    \<open>engine_effect\<close>s; \<open>e_commitCh\<close> is the content of the commit channel.
  \<^item> Locks, logging and metrics are left out. A header's number, time and difficulty are integers,
    never nil.
\<close>

section \<open>State and environment\<close>

record istanbul_config =
  cf_RequestTimeout :: nat
  cf_BlockPeriod :: nat
  cf_BlockPauseTime :: nat
  cf_ProposerPolicy :: proposer_policy
  cf_Epoch :: nat

definition DefaultConfig :: istanbul_config where
  "DefaultConfig = \<lparr>cf_RequestTimeout = 10000, cf_BlockPeriod = 1, cf_BlockPauseTime = 2,
     cf_ProposerPolicy = RoundRobin, cf_Epoch = 30000\<rparr>"

text \<open>The JSON form of a snapshot. The validator set is a pointer to a struct without exported fields
  behind an interface: \<^verbatim>\<open>json.Marshal\<close> writes it as an object without members.\<close>

datatype json_validators = JObject "(string \<times> bytes) list"

record snapshot_json =
  sj_Epoch :: nat
  sj_Number :: nat
  sj_Hash :: hash
  sj_Votes :: "vote list"
  sj_Tally :: "address \<rightharpoonup> tally"
  sj_validators :: json_validators

record engine =
  e_config :: istanbul_config
  e_address :: address
  e_db :: "hash \<rightharpoonup> snapshot_json"
  e_commitCh :: "block list"
  e_proposedBlockHash :: hash
  e_coreStarted :: bool
  e_candidates :: "(address \<times> bool) list"
  e_recents :: "hash \<rightharpoonup> snapshot"
  e_recentMessages :: "address \<rightharpoonup> (hash \<rightharpoonup> bool)"
  e_knownMessages :: "hash \<rightharpoonup> bool"

record chain_reader =
  ch_GetHeader :: "hash \<Rightarrow> nat \<Rightarrow> header option"
  ch_GetHeaderByNumber :: "nat \<Rightarrow> header option"
  ch_GetHeaderByHash :: "hash \<Rightarrow> header option"
  ch_CurrentHeader :: header

datatype insert_result = Inserted | KnownBlock | InsertFailed

record engine_env =
  en_crypto :: crypto
  en_chain :: chain_reader
  en_now :: int
  en_sign :: "hash \<Rightarrow> bytes option"
  en_put_ok :: "hash \<Rightarrow> bool"
  en_inserter :: "block \<Rightarrow> insert_result"
  en_peers :: "(address list \<Rightarrow> address list) option"
  en_recents_add :: "hash \<Rightarrow> snapshot \<Rightarrow> (hash \<rightharpoonup> snapshot) \<Rightarrow> (hash \<rightharpoonup> snapshot)"
  en_known_add :: "hash \<Rightarrow> (hash \<rightharpoonup> bool) \<Rightarrow> (hash \<rightharpoonup> bool)"
  en_peer_add :: "address \<Rightarrow> (hash \<rightharpoonup> bool) \<Rightarrow> (address \<rightharpoonup> (hash \<rightharpoonup> bool)) \<Rightarrow> (address \<rightharpoonup> (hash \<rightharpoonup> bool))"

type_synonym 'a engine_op = "engine \<Rightarrow> (engine_error, 'a) outcome \<times> engine"

definition eret :: "'a \<Rightarrow> 'a engine_op" where
  "eret x e = (Ok x, e)"

definition efail :: "engine_error \<Rightarrow> 'a engine_op" where
  "efail er e = (Fail er, e)"

definition epanic :: "'a engine_op" where
  "epanic e = (Panic, e)"

definition ebind :: "'a engine_op \<Rightarrow> ('a \<Rightarrow> 'b engine_op) \<Rightarrow> 'b engine_op" where
  "ebind m f e =
     (case m e of
        (Ok x, e1) \<Rightarrow> f x e1
      | (Fail er, e1) \<Rightarrow> (Fail er, e1)
      | (Panic, e1) \<Rightarrow> (Panic, e1))"

definition echeck :: "engine_error option \<Rightarrow> unit engine_op" where
  "echeck er = (case er of None \<Rightarrow> eret () | Some x \<Rightarrow> efail x)"

definition elift :: "('e \<Rightarrow> engine_error) \<Rightarrow> 'e + 'a \<Rightarrow> 'a engine_op" where
  "elift f r = (case r of Inl x \<Rightarrow> efail (f x) | Inr a \<Rightarrow> eret a)"

definition new_backend :: "istanbul_config \<Rightarrow> address \<Rightarrow> (hash \<rightharpoonup> snapshot_json) \<Rightarrow> engine" where
  "new_backend config address db =
     \<lparr>e_config = config, e_address = address, e_db = db, e_commitCh = [], e_proposedBlockHash = 0,
      e_coreStarted = False, e_candidates = [], e_recents = Map.empty, e_recentMessages = Map.empty,
      e_knownMessages = Map.empty\<rparr>"

section \<open>Snapshots of the voting\<close>

definition checkpointInterval :: nat where
  "checkpointInterval = 1024"

definition snapshot_store :: "engine_env \<Rightarrow> snapshot \<Rightarrow> unit engine_op" where
  "snapshot_store env s e =
     (let blob = \<lparr>sj_Epoch = sn_Epoch s, sj_Number = sn_Number s, sj_Hash = sn_Hash s, sj_Votes = sn_Votes s,
                  sj_Tally = sn_Tally s, sj_validators = JObject []\<rparr>
      in if en_put_ok env (sn_Hash s) then (Ok (), e\<lparr>e_db := (e_db e)(sn_Hash s \<mapsto> blob)\<rparr>)
         else (Fail errDatabase, e))"

text \<open>\<^verbatim>\<open>json.Unmarshal\<close> has no concrete type for a JSON object that goes into the interface field
  \<^verbatim>\<open>ValSet\<close>: it reports an error.\<close>

fun json_valset :: "json_validators \<Rightarrow> engine_error + valset" where
  "json_valset (JObject ms) = Inl errUnmarshal"

definition loadSnapshot :: "nat \<Rightarrow> (hash \<rightharpoonup> snapshot_json) \<Rightarrow> hash \<Rightarrow> engine_error + snapshot" where
  "loadSnapshot epoch db hash =
     (case db hash of
        None \<Rightarrow> Inl errDatabase
      | Some blob \<Rightarrow>
          (case json_valset (sj_validators blob) of
             Inl er \<Rightarrow> Inl er
           | Inr vs \<Rightarrow> Inr \<lparr>sn_Epoch = epoch, sn_Number = sj_Number blob, sn_Hash = sj_Hash blob,
                           sn_Votes = sj_Votes blob, sn_Tally = sj_Tally blob, sn_ValSet = vs\<rparr>))"

definition defaultDifficulty :: int where
  "defaultDifficulty = 1"

definition emptyNonce :: bytes where
  "emptyNonce = replicate 8 0"

text \<open>The checks of \<^verbatim>\<open>verifyHeader\<close> before \<^verbatim>\<open>verifyCascadingFields\<close>.\<close>

definition verify_standalone :: "engine_env \<Rightarrow> header \<Rightarrow> engine_error option" where
  "verify_standalone env h =
     (if h_Time h > en_now env then Some ErrFutureBlock
      else if (case ExtractIstanbulExtra h of Inl _ \<Rightarrow> True | Inr _ \<Rightarrow> False) then Some errInvalidExtraDataFormat
      else if h_Nonce h \<noteq> emptyNonce \<and> h_Nonce h \<noteq> nonceAuthVote \<and> h_Nonce h \<noteq> nonceDropVote then Some errInvalidNonce
      else if h_MixDigest h \<noteq> IstanbulDigest then Some errInvalidMixDigest
      else if h_UncleHash h \<noteq> CalcUncleHash (kec (en_crypto env)) [] then Some errInvalidUncleHash
      else if h_Difficulty h \<noteq> defaultDifficulty then Some errInvalidDifficulty
      else None)"

text \<open>The snapshot of block zero. The chain returns a header with number zero for it, so that
  \<^verbatim>\<open>VerifyHeader\<close> ends after the standalone checks.\<close>

definition genesis_snapshot :: "engine_env \<Rightarrow> snapshot engine_op" where
  "genesis_snapshot env e =
     (case ch_GetHeaderByNumber (en_chain env) 0 of
        None \<Rightarrow> epanic e
      | Some genesis \<Rightarrow>
          ebind (echeck (verify_standalone env genesis)) (\<lambda>_.
          ebind (elift errExtra (ExtractIstanbulExtra genesis)) (\<lambda>extra e1.
            let snap = newSnapshot (cf_Epoch (e_config e1)) 0 (header_Hash (kec (en_crypto env)) genesis)
                         (NewSet (en_crypto env) (ie_Validators extra) (cf_ProposerPolicy (e_config e1)))
            in ebind (snapshot_store env snap) (\<lambda>_. eret snap) e1)) e)"

text \<open>The loop of \<^verbatim>\<open>snapshot\<close> that walks back to a known snapshot and gathers the headers on the way.\<close>

fun snapshot_walk :: "engine_env \<Rightarrow> nat \<Rightarrow> hash \<Rightarrow> header list \<Rightarrow> header list \<Rightarrow> (snapshot \<times> header list) engine_op"
where
  "snapshot_walk env number hash parents headers e =
     (case e_recents e hash of
        Some s \<Rightarrow> eret (s, headers) e
      | None \<Rightarrow>
          (case (if number mod checkpointInterval = 0 then loadSnapshot (cf_Epoch (e_config e)) (e_db e) hash
                 else Inl errDatabase) of
             Inr s \<Rightarrow> eret (s, headers) e
           | Inl _ \<Rightarrow>
               if number = 0 then ebind (genesis_snapshot env) (\<lambda>s. eret (s, headers)) e
               else
                 (case (if parents \<noteq> [] then
                          (let header = last parents
                           in if header_Hash (kec (en_crypto env)) header \<noteq> hash \<or>
                                 big_Uint64 (h_Number header) \<noteq> number
                              then None else Some header)
                        else ch_GetHeader (en_chain env) hash number) of
                    None \<Rightarrow> efail ErrUnknownAncestor e
                  | Some header \<Rightarrow>
                      snapshot_walk env (number - 1) (h_ParentHash header) (butlast parents) (headers @ [header]) e)))"

declare snapshot_walk.simps [simp del]

definition backend_snapshot :: "engine_env \<Rightarrow> nat \<Rightarrow> hash \<Rightarrow> header list \<Rightarrow> snapshot engine_op" where
  "backend_snapshot env number hash parents =
     ebind (snapshot_walk env number hash parents []) (\<lambda>(snap, headers) e.
       case snapshot_apply (en_crypto env) (rev headers) snap of
         Fail er \<Rightarrow> (Fail er, e)
       | Panic \<Rightarrow> (Panic, e)
       | Ok snap1 \<Rightarrow>
           let e1 = e\<lparr>e_recents := en_recents_add env (sn_Hash snap1) snap1 (e_recents e)\<rparr>
           in if sn_Number snap1 mod checkpointInterval = 0 \<and> headers \<noteq> []
              then ebind (snapshot_store env snap1) (\<lambda>_. eret snap1) e1
              else eret snap1 e1)"

section \<open>Header verification\<close>

definition Author :: "engine_env \<Rightarrow> header \<Rightarrow> engine_error + address" where
  "Author env h = header_ecrecover (en_crypto env) h"

text \<open>\<^verbatim>\<open>number-1\<close> on a 64 bit number.\<close>

definition pred_number :: "header \<Rightarrow> nat" where
  "pred_number h = (big_Uint64 (h_Number h) + 2 ^ 64 - 1) mod 2 ^ 64"

definition verifySigner :: "engine_env \<Rightarrow> header \<Rightarrow> header list \<Rightarrow> unit engine_op" where
  "verifySigner env h parents =
     (if big_Uint64 (h_Number h) = 0 then efail errUnknownBlock
      else
        ebind (backend_snapshot env (pred_number h) (h_ParentHash h) parents) (\<lambda>snap.
        ebind (elift id (header_ecrecover (en_crypto env) h)) (\<lambda>signer.
          if snd (GetByAddress (sn_ValSet snap) signer) = None then efail errUnauthorized else eret ())))"

text \<open>The loop over the seals: every recovered signer leaves the copied set, so that it counts once.\<close>

fun check_seals :: "crypto \<Rightarrow> bytes \<Rightarrow> bytes list \<Rightarrow> valset \<Rightarrow> int \<Rightarrow> engine_error + int" where
  "check_seals cr proposalSeal [] validators validSeal = Inr validSeal"
| "check_seals cr proposalSeal (seal # seals) validators validSeal =
     (case GetSignatureAddress cr proposalSeal seal of
        Inl _ \<Rightarrow> Inl errInvalidSignature
      | Inr addr \<Rightarrow>
          (case RemoveValidator addr validators of
             (True, validators1) \<Rightarrow> check_seals cr proposalSeal seals validators1 (validSeal + 1)
           | (False, _) \<Rightarrow> Inl errInvalidCommittedSeals))"

definition verifyCommittedSeals :: "engine_env \<Rightarrow> header \<Rightarrow> header list \<Rightarrow> unit engine_op" where
  "verifyCommittedSeals env h parents =
     (if big_Uint64 (h_Number h) = 0 then eret ()
      else
        ebind (backend_snapshot env (pred_number h) (h_ParentHash h) parents) (\<lambda>snap.
        ebind (elift errExtra (ExtractIstanbulExtra h)) (\<lambda>extra.
          if ie_CommittedSeal extra = [] then efail errEmptyCommittedSeals
          else
            ebind (elift id (check_seals (en_crypto env)
                     (PrepareCommittedSeal (header_Hash (kec (en_crypto env)) h)) (ie_CommittedSeal extra)
                     (vs_Copy (en_crypto env) (sn_ValSet snap)) 0)) (\<lambda>validSeal.
            if validSeal \<le> 2 * vs_F (sn_ValSet snap) then efail errInvalidCommittedSeals else eret ()))))"

text \<open>The bytes of the validators of the snapshot are computed and never compared with the extra-data.\<close>

definition verifyCascadingFields :: "engine_env \<Rightarrow> header \<Rightarrow> header list \<Rightarrow> unit engine_op" where
  "verifyCascadingFields env h parents =
     (if big_Uint64 (h_Number h) = 0 then eret ()
      else
        (case (if parents \<noteq> [] then Some (last parents)
               else ch_GetHeader (en_chain env) (h_ParentHash h) (pred_number h)) of
           None \<Rightarrow> efail ErrUnknownAncestor
         | Some par \<Rightarrow>
             if big_Uint64 (h_Number par) \<noteq> pred_number h \<or>
                header_Hash (kec (en_crypto env)) par \<noteq> h_ParentHash h then efail ErrUnknownAncestor
             else (\<lambda>e.
               if (big_Uint64 (h_Time par) + cf_BlockPeriod (e_config e)) mod 2 ^ 64 > big_Uint64 (h_Time h)
               then efail errInvalidTimestamp e
               else
                 ebind (backend_snapshot env (pred_number h) (h_ParentHash h) parents) (\<lambda>snap.
                 ebind (verifySigner env h parents) (\<lambda>_. verifyCommittedSeals env h parents)) e)))"

definition verifyHeader :: "engine_env \<Rightarrow> header \<Rightarrow> header list \<Rightarrow> unit engine_op" where
  "verifyHeader env h parents =
     ebind (echeck (verify_standalone env h)) (\<lambda>_. verifyCascadingFields env h parents)"

definition VerifyHeader :: "engine_env \<Rightarrow> header \<Rightarrow> unit engine_op" where
  "VerifyHeader env h = verifyHeader env h []"

text \<open>\<^verbatim>\<open>VerifyHeaders\<close> without an abort: the result of header \<open>i\<close>, with the headers before it as parents.\<close>

fun verify_headers_from :: "engine_env \<Rightarrow> header list \<Rightarrow> header list \<Rightarrow> engine \<Rightarrow> (engine_error, unit) outcome list \<times> engine"
where
  "verify_headers_from env before [] e = ([], e)"
| "verify_headers_from env before (h # hs) e =
     (case verifyHeader env h before e of (r, e1) \<Rightarrow>
        (case verify_headers_from env (before @ [h]) hs e1 of (rs, e2) \<Rightarrow> (r # rs, e2)))"

definition VerifyHeaders :: "engine_env \<Rightarrow> header list \<Rightarrow> engine \<Rightarrow> (engine_error, unit) outcome list \<times> engine" where
  "VerifyHeaders env headers = verify_headers_from env [] headers"

definition VerifyUncles :: "block \<Rightarrow> engine_error option" where
  "VerifyUncles b = (if b_uncles b \<noteq> [] then Some errInvalidUncleHash else None)"

definition VerifySeal :: "engine_env \<Rightarrow> header \<Rightarrow> unit engine_op" where
  "VerifySeal env h =
     (if big_Uint64 (h_Number h) = 0 then efail errUnknownBlock
      else if h_Difficulty h \<noteq> defaultDifficulty then efail errInvalidDifficulty
      else verifySigner env h [])"

section \<open>Building and sealing blocks\<close>

definition prepareExtra :: "header \<Rightarrow> address list \<Rightarrow> rlp_encode_error + bytes" where
  "prepareExtra h vals =
     (let extra = (if length (h_Extra h) < IstanbulExtraVanity
                   then h_Extra h @ replicate (IstanbulExtraVanity - length (h_Extra h)) 0 else h_Extra h);
          ist = \<lparr>ie_Validators = vals, ie_Seal = [], ie_CommittedSeal = []\<rparr>
      in case EncodeToBytes (extra_rval ist) of
           Inl er \<Rightarrow> Inl er
         | Inr payload \<Rightarrow> Inr (take IstanbulExtraVanity extra @ payload))"

definition writeSeal :: "header \<Rightarrow> bytes \<Rightarrow> engine_error + header" where
  "writeSeal h seal =
     (if length seal mod IstanbulExtraSeal \<noteq> 0 then Inl errInvalidSignature
      else
        (case ExtractIstanbulExtra h of
           Inl er \<Rightarrow> Inl (errExtra er)
         | Inr extra \<Rightarrow>
             (case EncodeToBytes (extra_rval (extra\<lparr>ie_Seal := seal\<rparr>)) of
                Inl er \<Rightarrow> Inl (errEncode er)
              | Inr payload \<Rightarrow> Inr (h\<lparr>h_Extra := take IstanbulExtraVanity (h_Extra h) @ payload\<rparr>))))"

definition writeCommittedSeals :: "header \<Rightarrow> bytes list \<Rightarrow> engine_error + header" where
  "writeCommittedSeals h committedSeals =
     (if committedSeals = [] then Inl errInvalidCommittedSeals
      else if \<not> list_all (\<lambda>seal. length seal = IstanbulExtraSeal) committedSeals then Inl errInvalidCommittedSeals
      else
        (case ExtractIstanbulExtra h of
           Inl er \<Rightarrow> Inl (errExtra er)
         | Inr extra \<Rightarrow>
             (case EncodeToBytes (extra_rval (extra\<lparr>ie_CommittedSeal := committedSeals\<rparr>)) of
                Inl er \<Rightarrow> Inl (errEncode er)
              | Inr payload \<Rightarrow> Inr (h\<lparr>h_Extra := take IstanbulExtraVanity (h_Extra h) @ payload\<rparr>))))"

text \<open>\<^verbatim>\<open>rand.Intn\<close> is the argument \<open>pick\<close>; the iteration order of the candidate map is that of the
  list \<open>e_candidates\<close>. The header after an error is not used by the caller.\<close>

definition vote_candidates :: "snapshot \<Rightarrow> (address \<times> bool) list \<Rightarrow> (address \<times> bool) list" where
  "vote_candidates snap candidates = filter (\<lambda>(a, authorize). checkVote a authorize snap) candidates"

definition cast_candidate :: "(nat \<Rightarrow> nat) \<Rightarrow> (address \<times> bool) list \<Rightarrow> header \<Rightarrow> header" where
  "cast_candidate pick candidates h =
     (if candidates \<noteq> [] then
        (case candidates ! pick (length candidates) of (a, authorize) \<Rightarrow>
           h\<lparr>h_Coinbase := a, h_Nonce := (if authorize then nonceAuthVote else nonceDropVote)\<rparr>)
      else h)"

definition Prepare :: "engine_env \<Rightarrow> (nat \<Rightarrow> nat) \<Rightarrow> header \<Rightarrow> header engine_op" where
  "Prepare env pick h0 =
     (let h1 = h0\<lparr>h_Coinbase := 0, h_Nonce := emptyNonce, h_MixDigest := IstanbulDigest\<rparr>
      in case ch_GetHeader (en_chain env) (h_ParentHash h1) (pred_number h1) of
           None \<Rightarrow> efail ErrUnknownAncestor
         | Some par \<Rightarrow>
             (let h2 = h1\<lparr>h_Difficulty := defaultDifficulty\<rparr>
              in ebind (backend_snapshot env (pred_number h2) (h_ParentHash h2) []) (\<lambda>snap e.
                   let h3 = cast_candidate pick (vote_candidates snap (e_candidates e)) h2
                   in ebind (elift errEncode (prepareExtra h3 (snapshot_validators snap))) (\<lambda>extra.
                        eret (h3\<lparr>h_Extra := extra\<rparr>)) e)))"

text \<open>The state root and the trie and bloom functions of the block content are arguments.\<close>

definition Finalize ::
  "engine_env \<Rightarrow> (txdata list \<Rightarrow> hash) \<Rightarrow> ('r list \<Rightarrow> hash) \<Rightarrow> ('r list \<Rightarrow> bytes) \<Rightarrow> hash \<Rightarrow>
   header \<Rightarrow> txdata list \<Rightarrow> 'r list \<Rightarrow> block" where
  "Finalize env deriveTx deriveRc createBloom root h txs receipts =
     (let h1 = h\<lparr>h_Root := root, h_UncleHash := CalcUncleHash (kec (en_crypto env)) []\<rparr>
      in NewBlock (kec (en_crypto env)) deriveTx deriveRc createBloom h1 txs [] receipts)"

definition backend_Sign :: "engine_env \<Rightarrow> bytes \<Rightarrow> bytes option" where
  "backend_Sign env data = en_sign env (kec (en_crypto env) data)"

definition updateBlock :: "engine_env \<Rightarrow> header \<Rightarrow> block \<Rightarrow> block engine_op" where
  "updateBlock env par b e =
     (let period = (if b_transactions b = [] then cf_BlockPauseTime (e_config e) else cf_BlockPeriod (e_config e));
          h0 = (b_header b)\<lparr>h_Time := h_Time par + int period\<rparr>;
          h1 = (if big_Int64 (h_Time h0) < en_now env then h0\<lparr>h_Time := en_now env\<rparr> else h0)
      in case backend_Sign env (hash_bytes (sigHash (en_crypto env) h1)) of
           None \<Rightarrow> efail errSign e
         | Some seal \<Rightarrow> ebind (elift id (writeSeal h1 seal)) (\<lambda>h2. eret (WithSeal b h2)) e)"

datatype engine_effect =
    PostRequestEvent block
  | PostMessageEvent bytes
  | PostFinalCommitted block address
  | SendPeer address bytes
  | BroadcastBlock block

text \<open>\<^verbatim>\<open>Seal\<close> up to the wait for the block's time stamp, its continuation when the time has come, and
  the wait for the result: it takes blocks off the commit channel until it meets its own.\<close>

definition Seal_prepare :: "engine_env \<Rightarrow> block \<Rightarrow> block engine_op" where
  "Seal_prepare env b =
     (let h = b_header b
      in ebind (backend_snapshot env (pred_number h) (h_ParentHash h) []) (\<lambda>snap e.
           if snd (GetByAddress (sn_ValSet snap) (e_address e)) = None then efail errUnauthorized e
           else
             (case ch_GetHeader (en_chain env) (h_ParentHash h) (pred_number h) of
                None \<Rightarrow> efail ErrUnknownAncestor e
              | Some par \<Rightarrow> updateBlock env par b e)))"

definition Seal_propose :: "engine_env \<Rightarrow> block \<Rightarrow> engine \<Rightarrow> engine_effect list \<times> engine" where
  "Seal_propose env b e =
     ([PostRequestEvent b], e\<lparr>e_proposedBlockHash := block_Hash (kec (en_crypto env)) b\<rparr>)"

fun take_result :: "(bytes \<Rightarrow> hash) \<Rightarrow> hash \<Rightarrow> block list \<Rightarrow> block option \<times> block list" where
  "take_result k hash [] = (None, [])"
| "take_result k hash (b # bs) = (if hash = block_Hash k b then (Some b, bs) else take_result k hash bs)"

definition Seal_wait :: "engine_env \<Rightarrow> block \<Rightarrow> bool \<Rightarrow> engine \<Rightarrow> block option option \<times> engine" where
  "Seal_wait env b stop e =
     (case take_result (kec (en_crypto env)) (block_Hash (kec (en_crypto env)) b) (e_commitCh e) of
        (Some result, rest) \<Rightarrow> (Some (Some result), e\<lparr>e_commitCh := rest, e_proposedBlockHash := 0\<rparr>)
      | (None, rest) \<Rightarrow>
          if stop then (Some None, e\<lparr>e_commitCh := rest, e_proposedBlockHash := 0\<rparr>)
          else (None, e\<lparr>e_commitCh := rest\<rparr>))"

section \<open>The interface of the core\<close>

text \<open>The error of the core's own start is the argument \<open>core_err\<close>.\<close>

definition backend_Start ::
  "engine_env \<Rightarrow> engine_error option \<Rightarrow> engine \<Rightarrow> (engine_error, int \<times> address \<times> header) outcome \<times> engine" where
  "backend_Start env core_err e =
     (if e_coreStarted e then efail ErrStartedEngine e
      else
        (let e1 = e\<lparr>e_proposedBlockHash := 0, e_commitCh := []\<rparr>;
             curHeader = ch_CurrentHeader (en_chain env);
             lastSequence = h_Number curHeader
         in ebind (if lastSequence > 0 then elift id (Author env curHeader) else eret 0) (\<lambda>lastProposer.
            ebind (echeck core_err) (\<lambda>_ e2.
              eret (lastSequence, lastProposer, curHeader) (e2\<lparr>e_coreStarted := True\<rparr>))) e1))"

definition backend_Stop :: "engine_error option \<Rightarrow> unit engine_op" where
  "backend_Stop core_err e =
     (if \<not> e_coreStarted e then efail ErrStoppedEngine e
      else ebind (echeck core_err) (\<lambda>_ e1. eret () (e1\<lparr>e_coreStarted := False\<rparr>)) e)"

definition getValidators :: "engine_env \<Rightarrow> nat \<Rightarrow> hash \<Rightarrow> engine \<Rightarrow> valset option \<times> engine" where
  "getValidators env number hash e =
     (case backend_snapshot env number hash [] e of
        (Ok snap, e1) \<Rightarrow> (Some (sn_ValSet snap), e1)
      | (Fail _, e1) \<Rightarrow> (Some (NewSet (en_crypto env) [] (cf_ProposerPolicy (e_config e1))), e1)
      | (Panic, e1) \<Rightarrow> (None, e1))"

definition backend_Validators :: "engine_env \<Rightarrow> block \<Rightarrow> engine \<Rightarrow> valset option \<times> engine" where
  "backend_Validators env proposal =
     getValidators env (big_Uint64 (h_Number (b_header proposal))) (block_Hash (kec (en_crypto env)) proposal)"

text \<open>\<^verbatim>\<open>Verify\<close> returns the time to wait with \<^verbatim>\<open>ErrFutureBlock\<close>.\<close>

definition backend_Verify :: "engine_env \<Rightarrow> block \<Rightarrow> engine \<Rightarrow> (engine_error, unit) outcome \<times> int \<times> engine" where
  "backend_Verify env proposal e =
     (case VerifyHeader env (b_header proposal) e of
        (Ok _, e1) \<Rightarrow> (Ok (), 0, e1)
      | (Fail er, e1) \<Rightarrow>
          if er = errEmptyCommittedSeals then (Ok (), 0, e1)
          else if er = ErrFutureBlock then (Fail ErrFutureBlock, big_Int64 (h_Time (b_header proposal)) - en_now env, e1)
          else (Fail er, 0, e1)
      | (Panic, e1) \<Rightarrow> (Panic, 0, e1))"

definition backend_Commit :: "engine_env \<Rightarrow> block \<Rightarrow> bytes list \<Rightarrow> engine \<Rightarrow> (engine_error, engine_effect list) outcome \<times> engine"
where
  "backend_Commit env proposal seals =
     ebind (elift id (writeCommittedSeals (b_header proposal) seals)) (\<lambda>h e.
       let b = WithSeal proposal h
       in if e_proposedBlockHash e = block_Hash (kec (en_crypto env)) b
          then eret [] (e\<lparr>e_commitCh := e_commitCh e @ [b]\<rparr>)
          else
            (case en_inserter env b of
               InsertFailed \<Rightarrow> efail errInsert e
             | _ \<Rightarrow> eret (if en_peers env = None then [] else [BroadcastBlock b]) e))"

definition backend_CheckSignature :: "engine_env \<Rightarrow> bytes \<Rightarrow> address \<Rightarrow> bytes \<Rightarrow> engine_error option" where
  "backend_CheckSignature env data address sig =
     (case GetSignatureAddress (en_crypto env) data sig of
        Inl er \<Rightarrow> Some (errRecover er)
      | Inr signer \<Rightarrow> if signer \<noteq> address then Some errInvalidSignature else None)"

definition GetProposer :: "engine_env \<Rightarrow> nat \<Rightarrow> address" where
  "GetProposer env number =
     (case ch_GetHeaderByNumber (en_chain env) number of
        Some h \<Rightarrow> (case Author env h of Inr a \<Rightarrow> a | Inl _ \<Rightarrow> 0)
      | None \<Rightarrow> 0)"

definition NewBlockWithHeader :: "header \<Rightarrow> block" where
  "NewBlockWithHeader h = \<lparr>b_header = h, b_uncles = [], b_transactions = []\<rparr>"

definition LastProposal :: "engine_env \<Rightarrow> (block \<times> address) option" where
  "LastProposal env =
     (let h = ch_CurrentHeader (en_chain env)
      in if h_Number h > 0
         then (case Author env h of Inl _ \<Rightarrow> None | Inr proposer \<Rightarrow> Some (NewBlockWithHeader h, proposer))
         else Some (NewBlockWithHeader h, 0))"

section \<open>Gossip\<close>

definition bytes_rval :: "bytes \<Rightarrow> rval" where
  "bytes_rval b = RBytes b"

text \<open>One turn of the loop over the connected peers.\<close>

definition gossip_peer :: "engine_env \<Rightarrow> hash \<Rightarrow> bytes \<Rightarrow> address \<Rightarrow> engine_effect list \<times> engine \<Rightarrow> engine_effect list \<times> engine"
where
  "gossip_peer env hash payload addr st =
     (case st of (out, e) \<Rightarrow>
        let m = (case e_recentMessages e addr of Some ms \<Rightarrow> ms | None \<Rightarrow> Map.empty)
        in if m hash \<noteq> None then (out, e)
           else (out @ [SendPeer addr payload],
                 e\<lparr>e_recentMessages := en_peer_add env addr (en_known_add env hash m) (e_recentMessages e)\<rparr>))"

definition backend_Gossip :: "engine_env \<Rightarrow> valset \<Rightarrow> bytes \<Rightarrow> engine \<Rightarrow> engine_effect list \<times> engine" where
  "backend_Gossip env valSet payload e =
     (let hash = RLPHash (en_crypto env) (bytes_rval payload);
          e1 = e\<lparr>e_knownMessages := en_known_add env hash (e_knownMessages e)\<rparr>;
          targets = filter (\<lambda>a. a \<noteq> e_address e) (vs_validators valSet)
      in case en_peers env of
           None \<Rightarrow> ([], e1)
         | Some findPeers \<Rightarrow>
             if targets = [] then ([], e1)
             else fold (gossip_peer env hash payload) (findPeers targets) ([], e1))"

definition backend_Broadcast :: "engine_env \<Rightarrow> valset \<Rightarrow> bytes \<Rightarrow> engine \<Rightarrow> engine_effect list \<times> engine" where
  "backend_Broadcast env valSet payload e =
     (case backend_Gossip env valSet payload e of (out, e1) \<Rightarrow> (out @ [PostMessageEvent payload], e1))"

definition istanbulMsg :: nat where
  "istanbulMsg = 17"

definition msg_Decode :: "bytes \<Rightarrow> 'a decoder \<Rightarrow> rlp_error + 'a" where
  "msg_Decode payload dec = fst (dec (NewStream payload (length payload)))"

text \<open>A message from a peer: its code and its payload.\<close>

definition HandleMsg ::
  "engine_env \<Rightarrow> address \<Rightarrow> nat \<Rightarrow> bytes \<Rightarrow> engine \<Rightarrow> (bool \<times> engine_error option \<times> engine_effect list) \<times> engine" where
  "HandleMsg env addr code content e =
     (if code = istanbulMsg then
        (if \<not> e_coreStarted e then ((True, Some ErrStoppedEngine, []), e)
         else
           (case msg_Decode content decodeByteSlice of
              Inl _ \<Rightarrow> ((True, Some errDecodeFailed, []), e)
            | Inr data \<Rightarrow>
                (let hash = RLPHash (en_crypto env) (bytes_rval data);
                     m = (case e_recentMessages e addr of Some ms \<Rightarrow> ms | None \<Rightarrow> Map.empty);
                     e1 = e\<lparr>e_recentMessages :=
                       (if e_recentMessages e addr \<noteq> None
                        then (e_recentMessages e)(addr \<mapsto> en_known_add env hash m)
                        else en_peer_add env addr (en_known_add env hash m) (e_recentMessages e))\<rparr>
                 in if e_knownMessages e1 hash \<noteq> None then ((True, None, []), e1)
                    else ((True, None, [PostMessageEvent data]),
                          e1\<lparr>e_knownMessages := en_known_add env hash (e_knownMessages e1)\<rparr>))))
      else ((False, None, []), e))"

definition NewChainHead :: "engine_env \<Rightarrow> block \<Rightarrow> engine \<Rightarrow> (engine_error, engine_effect list) outcome \<times> engine" where
  "NewChainHead env b =
     (\<lambda>e. if \<not> e_coreStarted e then efail ErrStoppedEngine e
          else ebind (elift id (Author env (b_header b))) (\<lambda>p. eret [PostFinalCommitted b p]) e)"

section \<open>The RPC interface\<close>

text \<open>A block number of \<^verbatim>\<open>None\<close> is a nil pointer or \<^verbatim>\<open>LatestBlockNumber\<close>.\<close>

definition api_header :: "engine_env \<Rightarrow> nat option \<Rightarrow> header option" where
  "api_header env number =
     (case number of
        None \<Rightarrow> Some (ch_CurrentHeader (en_chain env))
      | Some n \<Rightarrow> ch_GetHeaderByNumber (en_chain env) n)"

definition snapshot_of_header :: "engine_env \<Rightarrow> header option \<Rightarrow> snapshot engine_op" where
  "snapshot_of_header env header =
     (case header of
        None \<Rightarrow> efail errUnknownBlock
      | Some h \<Rightarrow> backend_snapshot env (big_Uint64 (h_Number h)) (header_Hash (kec (en_crypto env)) h) [])"

definition api_GetSnapshot :: "engine_env \<Rightarrow> nat option \<Rightarrow> snapshot engine_op" where
  "api_GetSnapshot env number = snapshot_of_header env (api_header env number)"

definition api_GetSnapshotAtHash :: "engine_env \<Rightarrow> hash \<Rightarrow> snapshot engine_op" where
  "api_GetSnapshotAtHash env hash = snapshot_of_header env (ch_GetHeaderByHash (en_chain env) hash)"

definition api_GetValidators :: "engine_env \<Rightarrow> nat option \<Rightarrow> address list engine_op" where
  "api_GetValidators env number = ebind (api_GetSnapshot env number) (\<lambda>snap. eret (snapshot_validators snap))"

definition api_GetValidatorsAtHash :: "engine_env \<Rightarrow> hash \<Rightarrow> address list engine_op" where
  "api_GetValidatorsAtHash env hash = ebind (api_GetSnapshotAtHash env hash) (\<lambda>snap. eret (snapshot_validators snap))"

definition api_Candidates :: "engine \<Rightarrow> (address \<times> bool) list" where
  "api_Candidates e = e_candidates e"

definition api_Propose :: "address \<Rightarrow> bool \<Rightarrow> engine \<Rightarrow> engine" where
  "api_Propose address auth e = e\<lparr>e_candidates := AList.update address auth (e_candidates e)\<rparr>"

definition api_Discard :: "address \<Rightarrow> engine \<Rightarrow> engine" where
  "api_Discard address e = e\<lparr>e_candidates := AList.delete address (e_candidates e)\<rparr>"

section \<open>Operations that return early\<close>

named_theorems engine_simps

lemma ebind_Ok [engine_simps]:
  "ebind m f e = (Ok y, e2) \<longleftrightarrow> (\<exists>x e1. m e = (Ok x, e1) \<and> f x e1 = (Ok y, e2))"
  by (auto simp: ebind_def split: prod.splits outcome.splits)

lemma ebind_run [engine_simps]: "m e = (Ok x, e1) \<Longrightarrow> ebind m f e = f x e1"
  by (simp add: ebind_def)

lemma early_return [engine_simps]:
  "eret x e = (Ok y, e') \<longleftrightarrow> y = x \<and> e' = e" "efail er e = (Ok y, e') \<longleftrightarrow> False"
  "epanic e = (Ok y, e') \<longleftrightarrow> False" "echeck c e = (Ok u, e') \<longleftrightarrow> c = None \<and> e' = e"
  "elift f r e = (Ok y, e') \<longleftrightarrow> r = Inr y \<and> e' = e"
  by (auto simp: eret_def efail_def epanic_def echeck_def elift_def split: option.splits sum.splits)

section \<open>Snapshots from the caches are replays of the chain\<close>

text \<open>The proposer of a snapshot's validator set, its number and its hash play no part in the voting:
  changing them commutes with every step of \<^verbatim>\<open>apply\<close>. The core moves the proposer of the cached
  sets, which it shares with the engine.\<close>

definition restamp :: "nat \<Rightarrow> hash \<Rightarrow> address option \<Rightarrow> snapshot \<Rightarrow> snapshot" where
  "restamp n h p s = s\<lparr>sn_Number := n, sn_Hash := h, sn_ValSet := (sn_ValSet s)\<lparr>vs_proposer := p\<rparr>\<rparr>"

lemma valset_proposer [simp]:
  "GetByAddress (v\<lparr>vs_proposer := p\<rparr>) a = GetByAddress v a" "vs_Size (v\<lparr>vs_proposer := p\<rparr>) = vs_Size v"
  "vs_F (v\<lparr>vs_proposer := p\<rparr>) = vs_F v"
  "snd (AddValidator cr a (v\<lparr>vs_proposer := p\<rparr>)) = (snd (AddValidator cr a v))\<lparr>vs_proposer := p\<rparr>"
  "snd (RemoveValidator a (v\<lparr>vs_proposer := p\<rparr>)) = (snd (RemoveValidator a v))\<lparr>vs_proposer := p\<rparr>"
  by (simp_all add: GetByAddress_def vs_Size_def vs_F_def AddValidator_def RemoveValidator_def Let_def
      del: find_index_None split: option.split)

lemma restamp_fields [simp]:
  "sn_Votes (restamp n h p s) = sn_Votes s" "sn_Tally (restamp n h p s) = sn_Tally s"
  "sn_Epoch (restamp n h p s) = sn_Epoch s" "sn_Number (restamp n h p s) = n" "sn_Hash (restamp n h p s) = h"
  "sn_ValSet (restamp n h p s) = (sn_ValSet s)\<lparr>vs_proposer := p\<rparr>"
  "(restamp n h p s)\<lparr>sn_Votes := l\<rparr> = restamp n h p (s\<lparr>sn_Votes := l\<rparr>)"
  "(restamp n h p s)\<lparr>sn_Tally := t\<rparr> = restamp n h p (s\<lparr>sn_Tally := t\<rparr>)"
  "(restamp n h p s)\<lparr>sn_ValSet := v\<lparr>vs_proposer := p\<rparr>\<rparr> = restamp n h p (s\<lparr>sn_ValSet := v\<rparr>)"
  by (simp_all add: restamp_def)

lemma restamp_cast: "snapshot_cast a b (restamp n h p s) = apsnd (restamp n h p) (snapshot_cast a b s)"
  by (simp add: snapshot_cast_def checkVote_def)

lemma restamp_uncast: "snapshot_uncast a b (restamp n h p s) = apsnd (restamp n h p) (snapshot_uncast a b s)"
  by (simp add: snapshot_uncast_def split: option.split)

lemma restamp_discard:
  "discard_vote x c before vs (restamp n h p s) = restamp n h p (discard_vote x c before vs s)"
  "discard_votes_by x before vs (restamp n h p s) = restamp n h p (discard_votes_by x before vs s)"
  by (induction vs arbitrary: before s) (simp_all add: restamp_uncast)

lemma restamp_pass: "pass_vote cr c (restamp n h p s) = restamp n h p (pass_vote cr c s)"
proof (cases "sn_Tally s c")
  case (Some t)
  show ?thesis
    by (cases "ta_Authorize t")
      (simp_all add: pass_vote_def Some Let_def discard_votes_about_def restamp_discard)
qed (simp add: pass_vote_def)

lemma restamp_count: "count_vote cr x hdr b (restamp n h p s) = restamp n h p (count_vote cr x hdr b s)"
  by (simp add: count_vote_def restamp_cast restamp_pass [symmetric] split: prod.split)

lemma restamp_apply: "apply_header cr hdr (restamp n h p s) = map_sum id (restamp n h p) (apply_header cr hdr s)"
  by (simp add: apply_header_def Let_def restamp_discard restamp_count split: sum.split)

lemma restamp_apply_headers:
  "apply_headers cr hs (restamp n h p s) = map_sum id (restamp n h p) (apply_headers cr hs s)"
  by (induction hs arbitrary: s) (simp_all add: restamp_apply split: sum.split)

lemma apply_headers_append:
  "apply_headers cr (hs @ ks) s =
     (case apply_headers cr hs s of Inl er \<Rightarrow> Inl er | Inr s1 \<Rightarrow> apply_headers cr ks s1)"
  by (induction hs arbitrary: s) (simp_all split: sum.split)

text \<open>The state a snapshot must have: the votes of all headers of a linked chain applied, in one pass, to
  the snapshot of the genesis block, whatever caching happened in between.\<close>

definition genesis_state :: "engine_env \<Rightarrow> istanbul_config \<Rightarrow> snapshot option" where
  "genesis_state env config =
     (case ch_GetHeaderByNumber (en_chain env) 0 of
        None \<Rightarrow> None
      | Some genesis \<Rightarrow>
          (case ExtractIstanbulExtra genesis of
             Inl _ \<Rightarrow> None
           | Inr extra \<Rightarrow> Some (newSnapshot (cf_Epoch config) 0 (header_Hash (kec (en_crypto env)) genesis)
                 (NewSet (en_crypto env) (ie_Validators extra) (cf_ProposerPolicy config)))))"

fun linked :: "crypto \<Rightarrow> header list \<Rightarrow> bool" where
  "linked cr (h # h' # hs) \<longleftrightarrow> h_ParentHash h' = header_Hash (kec cr) h \<and> linked cr (h' # hs)"
| "linked cr _ \<longleftrightarrow> True"

definition stamp :: "crypto \<Rightarrow> header list \<Rightarrow> snapshot \<Rightarrow> snapshot" where
  "stamp cr hs s =
     (if hs = [] then s
      else s\<lparr>sn_Number := (sn_Number s + length hs) mod 2 ^ 64, sn_Hash := header_Hash (kec cr) (last hs)\<rparr>)"

definition replayed :: "engine_env \<Rightarrow> istanbul_config \<Rightarrow> header list \<Rightarrow> snapshot \<Rightarrow> bool" where
  "replayed env config hs s \<longleftrightarrow> linked (en_crypto env) hs \<and>
     (\<exists>g r p. genesis_state env config = Some g \<and> apply_headers (en_crypto env) hs g = Inr r \<and>
        s = (stamp (en_crypto env) hs r)\<lparr>sn_ValSet := (sn_ValSet r)\<lparr>vs_proposer := p\<rparr>\<rparr>)"

definition genesis_ok :: "engine_env \<Rightarrow> bool" where
  "genesis_ok env \<longleftrightarrow> (\<forall>g x. ch_GetHeaderByNumber (en_chain env) 0 = Some g \<longrightarrow> ExtractIstanbulExtra g = Inr x \<longrightarrow>
     distinct (ie_Validators x))"

definition cache_ok :: "engine_env \<Rightarrow> engine \<Rightarrow> bool" where
  "cache_ok env e \<longleftrightarrow> (\<forall>h s. e_recents e h = Some s \<longrightarrow> sn_Hash s = h \<and> (\<exists>hs. replayed env (e_config e) hs s))"

lemma newSnapshot_ok: "valset_ok cr v \<Longrightarrow> snap_ok cr (newSnapshot ep n h v)"
  by (simp add: snap_ok_def newSnapshot_def tallied_def about_ok_def)

lemma genesis_state_ok: "genesis_ok env \<Longrightarrow> genesis_state env config = Some g \<Longrightarrow> snap_ok (en_crypto env) g"
  by (auto simp: genesis_ok_def genesis_state_def NewSet_def newDefaultSet_ok newSnapshot_ok
      split: option.splits sum.splits proposer_policy.splits)

lemma snap_ok_proposer [simp]: "snap_ok cr (s\<lparr>sn_ValSet := (sn_ValSet s)\<lparr>vs_proposer := p\<rparr>\<rparr>) \<longleftrightarrow> snap_ok cr s"
  by (simp add: snap_ok_def valset_ok_def)

lemma snap_ok_stamp [simp]: "snap_ok cr (stamp cr hs s) \<longleftrightarrow> snap_ok cr s"
  by (simp add: snap_ok_def stamp_def)

lemma stamp_ValSet [simp]: "sn_ValSet (stamp cr hs s) = sn_ValSet s"
  by (simp add: stamp_def)

lemma replayed_snap_ok:
  assumes "genesis_ok env" "replayed env config hs s"
  shows "snap_ok (en_crypto env) s"
proof -
  obtain g r p where g: "genesis_state env config = Some g" "apply_headers (en_crypto env) hs g = Inr r"
    and s: "s = (stamp (en_crypto env) hs r)\<lparr>sn_ValSet := (sn_ValSet r)\<lparr>vs_proposer := p\<rparr>\<rparr>"
    using assms(2) unfolding replayed_def by blast
  have "snap_ok (en_crypto env) (stamp (en_crypto env) hs r)"
    using apply_headers_ok [OF genesis_state_ok [OF assms(1) g(1)] g(2)] by simp
  then show ?thesis unfolding s by (simp add: snap_ok_def valset_ok_def)
qed

lemma vs_Copy_proposer:
  assumes "valset_ok cr v"
  shows "\<exists>p. vs_Copy cr v = v\<lparr>vs_proposer := p\<rparr>"
proof -
  have "sort_key (addr_Hex cr) (vs_validators v) = vs_validators v"
    using assms by (simp add: valset_ok_def sort_key_id_if_sorted)
  then show ?thesis unfolding vs_Copy_def newDefaultSet_def Let_def by (cases v) auto
qed

lemma linked_append:
  "linked cr (hs @ ks) \<longleftrightarrow> linked cr hs \<and> linked cr ks \<and>
     (hs \<noteq> [] \<and> ks \<noteq> [] \<longrightarrow> h_ParentHash (hd ks) = header_Hash (kec cr) (last hs))"
proof (induction hs)
  case (Cons h hs)
  then show ?case by (cases hs; cases ks) auto
qed simp

lemma restamp_self: "s = restamp (sn_Number s) (sn_Hash s) (vs_proposer (sn_ValSet s)) s"
  by (simp add: restamp_def)

lemma apply_headers_number:
  assumes "apply_headers cr hs s = Inr r"
  shows "sn_Number r = sn_Number s"
proof -
  have "Inr r = map_sum id (restamp (sn_Number s) (sn_Hash s) (vs_proposer (sn_ValSet s))) (apply_headers cr hs s)"
    using restamp_apply_headers [of cr hs "sn_Number s" "sn_Hash s" "vs_proposer (sn_ValSet s)" s] assms
    unfolding restamp_self [symmetric] by simp
  then show ?thesis using assms by (metis map_sum.simps(2) restamp_fields(4) sum.inject(2))
qed

lemma replayed_apply:
  assumes "genesis_ok env" "replayed env config hs s" "snapshot_apply (en_crypto env) ks s = Ok s'"
    and "linked (en_crypto env) ks" "hs \<noteq> [] \<Longrightarrow> ks \<noteq> [] \<Longrightarrow> h_ParentHash (hd ks) = sn_Hash s"
  shows "replayed env config (hs @ ks) s'"
proof (cases "ks = []")
  case True
  then show ?thesis using assms(2,3) by (simp add: snapshot_apply_def)
next
  case False
  let ?cr = "en_crypto env"
  obtain g r p where g: "genesis_state env config = Some g" "apply_headers ?cr hs g = Inr r"
    and s: "s = (stamp ?cr hs r)\<lparr>sn_ValSet := (sn_ValSet r)\<lparr>vs_proposer := p\<rparr>\<rparr>" and l: "linked ?cr hs"
    using assms(2) unfolding replayed_def by blast
  obtain snap where snap: "apply_headers ?cr ks (snapshot_copy ?cr s) = Inr snap"
    and s': "s' = snap\<lparr>sn_Number := (sn_Number snap + length ks) mod 2 ^ 64, sn_Hash := header_Hash (kec ?cr) (last ks)\<rparr>"
    using assms(3) False by (auto simp: snapshot_apply_def split: if_splits sum.splits)
  have "valset_ok ?cr (sn_ValSet s)" using replayed_snap_ok [OF assms(1,2)] by (simp add: snap_ok_def)
  from vs_Copy_proposer [OF this] obtain q where "vs_Copy ?cr (sn_ValSet s) = (sn_ValSet s)\<lparr>vs_proposer := q\<rparr>" by blast
  then have copy: "snapshot_copy ?cr s = restamp (sn_Number s) (sn_Hash s) q r"
    unfolding s snapshot_copy_def restamp_def by (simp add: stamp_def)
  obtain r2 where r2: "apply_headers ?cr ks r = Inr r2" "snap = restamp (sn_Number s) (sn_Hash s) q r2"
    using snap unfolding copy restamp_apply_headers by (cases "apply_headers ?cr ks r") auto
  have n: "sn_Number r2 = sn_Number r" using apply_headers_number [OF r2(1)] .
  have "(sn_Number s + length ks) mod 2 ^ 64 = (sn_Number r + length (hs @ ks)) mod 2 ^ 64"
    unfolding s by (simp add: stamp_def mod_add_left_eq add.assoc)
  then have "s' = (stamp ?cr (hs @ ks) r2)\<lparr>sn_ValSet := (sn_ValSet r2)\<lparr>vs_proposer := q\<rparr>\<rparr>"
    using False unfolding s' r2(2) by (simp add: restamp_def stamp_def n)
  moreover have "apply_headers ?cr (hs @ ks) g = Inr r2" by (simp add: apply_headers_append g(2) r2(1))
  moreover have "linked ?cr (hs @ ks)"
    using l assms(4,5) False unfolding linked_append by (auto simp: s stamp_def)
  ultimately show ?thesis unfolding replayed_def using g(1) by blast
qed

lemma loadSnapshot_fails: "\<exists>er. loadSnapshot epoch db h = Inl er"
proof -
  have "json_valset j = Inl errUnmarshal" for j by (cases j) simp
  then show ?thesis by (cases "db h") (auto simp: loadSnapshot_def)
qed

lemma genesis_snapshot_Ok:
  assumes "genesis_snapshot env e = (Ok s, e')"
  shows "genesis_state env (e_config e) = Some s" "e_recents e' = e_recents e" "e_config e' = e_config e"
  using assms
  by (auto simp: genesis_snapshot_def genesis_state_def engine_simps Let_def snapshot_store_def
      split: option.splits if_splits)

text \<open>What the walk gathers: headers, newest first, each the parent of the one before.\<close>

definition parent_header :: "engine_env \<Rightarrow> nat \<Rightarrow> hash \<Rightarrow> header list \<Rightarrow> header option" where
  "parent_header env number hash parents =
     (if parents \<noteq> [] then
        (let header = last parents
         in if header_Hash (kec (en_crypto env)) header \<noteq> hash \<or> big_Uint64 (h_Number header) \<noteq> number
            then None else Some header)
      else ch_GetHeader (en_chain env) hash number)"

lemma snapshot_walk_step:
  "snapshot_walk env number hash parents headers e =
     (case e_recents e hash of
        Some s \<Rightarrow> eret (s, headers) e
      | None \<Rightarrow>
          if number = 0 then ebind (genesis_snapshot env) (\<lambda>s. eret (s, headers)) e
          else
            (case parent_header env number hash parents of
               None \<Rightarrow> efail ErrUnknownAncestor e
             | Some header \<Rightarrow>
                 snapshot_walk env (number - 1) (h_ParentHash header) (butlast parents) (headers @ [header]) e))"
proof -
  obtain er where "(if number mod checkpointInterval = 0 then loadSnapshot (cf_Epoch (e_config e)) (e_db e) hash
                 else Inl errDatabase) = Inl er" using loadSnapshot_fails by (metis (full_types))
  then show ?thesis
    unfolding parent_header_def by (subst snapshot_walk.simps) (simp only: sum.case)
qed

definition headers_by_hash :: "engine_env \<Rightarrow> bool" where
  "headers_by_hash env \<longleftrightarrow> (\<forall>h n header. ch_GetHeader (en_chain env) h n = Some header \<longrightarrow>
     header_Hash (kec (en_crypto env)) header = h)"

definition walk_ok :: "engine_env \<Rightarrow> engine \<Rightarrow> nat \<Rightarrow> hash \<Rightarrow> header list \<Rightarrow> snapshot \<Rightarrow> header list \<Rightarrow> bool" where
  "walk_ok env e number hash acc s headers \<longleftrightarrow>
     (\<exists>hs. replayed env (e_config e) hs s \<and> (hs \<noteq> [] \<and> headers \<noteq> [] \<longrightarrow> h_ParentHash (last headers) = sn_Hash s)) \<and>
     linked (en_crypto env) (rev headers) \<and>
     (\<exists>more. headers = acc @ more \<and> (more \<noteq> [] \<longrightarrow> header_Hash (kec (en_crypto env)) (hd more) = hash) \<and>
        (more = [] \<longrightarrow> number = 0 \<or> sn_Hash s = hash))"

lemma parent_header_hash:
  "headers_by_hash env \<Longrightarrow> parent_header env number hash parents = Some header \<Longrightarrow>
     header_Hash (kec (en_crypto env)) header = hash"
  by (auto simp: parent_header_def headers_by_hash_def Let_def split: if_splits)

lemma snapshot_walk_replays:
  assumes "headers_by_hash env" "cache_ok env e"
    and "snapshot_walk env number hash parents acc e = (Ok (s, headers), e')"
    and "linked (en_crypto env) (rev acc)" "acc \<noteq> [] \<Longrightarrow> h_ParentHash (last acc) = hash"
  shows "walk_ok env e number hash acc s headers \<and> e_recents e' = e_recents e \<and> e_config e' = e_config e"
  using assms(3-)
proof (induction number arbitrary: hash parents acc rule: less_induct)
  case (less number)
  show ?case
  proof (cases "e_recents e hash")
    case (Some s1)
    then have "s1 = s" "headers = acc" "e' = e"
      using less.prems(1) by (simp_all add: snapshot_walk_step [of env number] engine_simps)
    moreover have "sn_Hash s1 = hash" "\<exists>hs. replayed env (e_config e) hs s1"
      using assms(2) Some unfolding cache_ok_def by blast+
    ultimately show ?thesis using less.prems(2,3) unfolding walk_ok_def by auto
  next
    case None
    show ?thesis
    proof (cases "number = 0")
      case True
      then have g: "genesis_snapshot env e = (Ok s, e')" "headers = acc"
        using less.prems(1) None by (auto simp: snapshot_walk_step [of env 0] engine_simps)
      have "replayed env (e_config e) [] s"
        unfolding replayed_def using genesis_snapshot_Ok(1) [OF g(1)]
        by (auto simp: stamp_def intro!: exI [of _ "vs_proposer (sn_ValSet s)"])
      then show ?thesis using g(2) True less.prems(2) genesis_snapshot_Ok(2,3) [OF g(1)]
        unfolding walk_ok_def by auto
    next
      case False
      then obtain header where h: "parent_header env number hash parents = Some header"
        and w: "snapshot_walk env (number - 1) (h_ParentHash header) (butlast parents) (acc @ [header]) e = (Ok (s, headers), e')"
        using less.prems(1) None
        by (auto simp: snapshot_walk_step [of env number] engine_simps split: option.splits)
      have hh: "header_Hash (kec (en_crypto env)) header = hash" using parent_header_hash [OF assms(1) h] .
      have "linked (en_crypto env) (rev (acc @ [header]))"
        using less.prems(2,3) hh linked_append [of "en_crypto env" "[header]" "rev acc"] by (auto simp: hd_rev)
      from less.IH [OF _ w this] False
      have ih: "walk_ok env e (number - 1) (h_ParentHash header) (acc @ [header]) s headers"
        "e_recents e' = e_recents e" "e_config e' = e_config e" by auto
      from ih(1) have "walk_ok env e number hash acc s headers" unfolding walk_ok_def using hh by fastforce
      then show ?thesis using ih(2,3) by blast
    qed
  qed
qed

lemma stamp_apply_hash:
  "snapshot_apply cr ks s = Ok s' \<Longrightarrow> ks \<noteq> [] \<Longrightarrow> sn_Hash s' = header_Hash (kec cr) (last ks)"
  by (auto simp: snapshot_apply_def split: if_splits sum.splits)

lemma snapshot_store_keeps:
  "snapshot_store env s e = (r, e') \<Longrightarrow> e_recents e' = e_recents e \<and> e_config e' = e_config e"
  by (auto simp: snapshot_store_def Let_def split: if_splits)

lemma backend_snapshot_Ok:
  assumes "backend_snapshot env number hash parents e = (Ok s, e')"
  shows "\<exists>snap headers e1. snapshot_walk env number hash parents [] e = (Ok (snap, headers), e1) \<and>
    snapshot_apply (en_crypto env) (rev headers) snap = Ok s \<and>
    e_recents e' = en_recents_add env (sn_Hash s) s (e_recents e1) \<and> e_config e' = e_config e1"
proof -
  obtain snap headers e1 where w: "snapshot_walk env number hash parents [] e = (Ok (snap, headers), e1)"
    using assms by (auto simp: backend_snapshot_def engine_simps)
  note run = ebind_run [where m = "snapshot_walk env number hash parents []", OF w]
  show ?thesis
  proof (cases "snapshot_apply (en_crypto env) (rev headers) snap")
    case (Ok s1)
    then have "s1 = s \<and> e_recents e' = en_recents_add env (sn_Hash s) s (e_recents e1) \<and> e_config e' = e_config e1"
      using assms by (auto simp: backend_snapshot_def run engine_simps Let_def
          split: if_splits dest!: snapshot_store_keeps)
    then show ?thesis using w Ok by blast
  qed (use assms in \<open>simp_all add: backend_snapshot_def run\<close>)
qed

lemma backend_snapshot_replays:
  assumes "genesis_ok env" "headers_by_hash env" "\<And>k v m. en_recents_add env k v m \<subseteq>\<^sub>m m(k \<mapsto> v)"
    and "cache_ok env e" "backend_snapshot env number hash parents e = (Ok s, e')"
  shows "\<exists>hs. replayed env (e_config e) hs s" "number \<noteq> 0 \<Longrightarrow> sn_Hash s = hash" "cache_ok env e'" "e_config e' = e_config e"
proof -
  obtain snap headers e1 where w: "snapshot_walk env number hash parents [] e = (Ok (snap, headers), e1)"
    and ap: "snapshot_apply (en_crypto env) (rev headers) snap = Ok s"
    and e': "e_recents e' = en_recents_add env (sn_Hash s) s (e_recents e1)" "e_config e' = e_config e1"
    using backend_snapshot_Ok [OF assms(5)] by blast
  have wk: "walk_ok env e number hash [] snap headers" "e_recents e1 = e_recents e" "e_config e1 = e_config e"
    using snapshot_walk_replays [OF assms(2,4) w] by auto
  obtain hs where hs: "replayed env (e_config e) hs snap"
    "hs \<noteq> [] \<and> headers \<noteq> [] \<longrightarrow> h_ParentHash (last headers) = sn_Hash snap"
    and l: "linked (en_crypto env) (rev headers)" using wk(1) unfolding walk_ok_def by blast
  have rp: "replayed env (e_config e) (hs @ rev headers) s"
    using hs(2) by (intro replayed_apply [OF assms(1) hs(1) ap l]) (auto simp: hd_rev)
  then show "\<exists>hs. replayed env (e_config e) hs s" by blast
  show "sn_Hash s = hash" if "number \<noteq> 0"
  proof (cases "headers = []")
    case True
    then show ?thesis using wk(1) ap that unfolding walk_ok_def by (auto simp: snapshot_apply_def)
  next
    case False
    then show ?thesis using wk(1) stamp_apply_hash [OF ap] unfolding walk_ok_def by (auto simp: last_rev)
  qed
  show "e_config e' = e_config e" using e'(2) wk(3) by simp
  show "cache_ok env e'" unfolding cache_ok_def
  proof (intro allI impI)
    fix k v
    assume "e_recents e' k = Some v"
    with assms(3) [of "sn_Hash s" s "e_recents e"] have "((e_recents e)(sn_Hash s \<mapsto> s)) k = Some v"
      unfolding e'(1) wk(2) map_le_def by (metis domI)
    then show "sn_Hash v = k \<and> (\<exists>hs. replayed env (e_config e') hs v)"
      using assms(4) rp unfolding cache_ok_def e'(2) wk(3) by (auto split: if_splits)
  qed
qed

section \<open>Seals in the extra-data\<close>

definition with_extra :: "header \<Rightarrow> istanbul_extra \<Rightarrow> header" where
  "with_extra h x = h\<lparr>h_Extra := take IstanbulExtraVanity (h_Extra h) @ enc_spec (extra_rval x)\<rparr>"

lemma with_extra_fields [simp]:
  "h_ParentHash (with_extra h x) = h_ParentHash h" "h_Number (with_extra h x) = h_Number h"
  "h_Time (with_extra h x) = h_Time h" "h_MixDigest (with_extra h x) = h_MixDigest h"
  "h_Nonce (with_extra h x) = h_Nonce h" "h_UncleHash (with_extra h x) = h_UncleHash h"
  "h_Difficulty (with_extra h x) = h_Difficulty h"
  "32 \<le> length (h_Extra h) \<Longrightarrow> with_extra (with_extra h x) y = with_extra h y"
  by (simp_all add: with_extra_def IstanbulExtraVanity_def)

lemma Extract_with_extra:
  assumes "32 \<le> length (h_Extra h)" "extra_ok x"
  shows "ExtractIstanbulExtra (with_extra h x) = Inr x"
proof -
  have "DecodeBytes (enc_spec (extra_rval x)) decodeIstanbulExtra = Inr x"
    using extra_codec.decode_encode [OF assms(2)] .
  then show ?thesis using assms(1) by (simp add: ExtractIstanbulExtra_def with_extra_def IstanbulExtraVanity_def)
qed

lemma Filtered_with_extra:
  assumes "32 \<le> length (h_Extra h)" "extra_ok x"
  shows "IstanbulFilteredHeader (with_extra h x) keep = Some (with_extra h (strip_seals keep x))"
proof -
  have "extra_ok (strip_seals keep x)" using length_strip_seals [OF assms(2), of keep] assms(2) by (simp add: extra_ok_def)
  from Encode_extra [OF this] show ?thesis
    using assms(1) Extract_with_extra [OF assms]
    by (simp add: IstanbulFilteredHeader_def strip_seals_def with_extra_def Let_def IstanbulExtraVanity_def split: if_splits)
qed

lemma Extract_with: "ExtractIstanbulExtra h = Inr x \<Longrightarrow> with_extra h x = h \<and> 32 \<le> length (h_Extra h)"
  using Extract_Inr [of h x] by (simp add: with_extra_def IstanbulExtraVanity_def)

lemma hashes_ignore_seals:
  assumes "ExtractIstanbulExtra h = Inr x" "extra_ok x" "extra_ok y"
  shows "strip_seals True y = strip_seals True x \<Longrightarrow> h_MixDigest h = IstanbulDigest \<Longrightarrow>
      header_Hash k (with_extra h y) = header_Hash k h"
    and "strip_seals False y = strip_seals False x \<Longrightarrow> sigHash cr (with_extra h y) = sigHash cr h"
proof -
  note w = Extract_with [OF assms(1)]
  have "IstanbulFilteredHeader h keep = Some (with_extra h (strip_seals keep x))"
    "IstanbulFilteredHeader (with_extra h y) keep = Some (with_extra h (strip_seals keep y))" for keep
    using Filtered_with_extra [of h x keep] Filtered_with_extra [of h y keep] w assms(2,3) by auto
  then show "strip_seals True y = strip_seals True x \<Longrightarrow> h_MixDigest h = IstanbulDigest \<Longrightarrow>
      header_Hash k (with_extra h y) = header_Hash k h"
    and "strip_seals False y = strip_seals False x \<Longrightarrow> sigHash cr (with_extra h y) = sigHash cr h"
    by (simp_all add: header_Hash_def sigHash_def)
qed

lemma writeSeal_Ok:
  assumes "ExtractIstanbulExtra h = Inr x" "length seal = IstanbulExtraSeal" "extra_ok (x\<lparr>ie_Seal := seal\<rparr>)"
  shows "writeSeal h seal = Inr (with_extra h (x\<lparr>ie_Seal := seal\<rparr>))"
  using assms Encode_extra [OF assms(3)] by (simp add: writeSeal_def with_extra_def)

lemma writeCommittedSeals_Ok:
  assumes "ExtractIstanbulExtra h = Inr x" "extra_ok (x\<lparr>ie_CommittedSeal := seals\<rparr>)"
    and "seals \<noteq> []" "list_all (\<lambda>seal. length seal = IstanbulExtraSeal) seals"
  shows "writeCommittedSeals h seals = Inr (with_extra h (x\<lparr>ie_CommittedSeal := seals\<rparr>))"
  using assms Encode_extra [OF assms(2)] by (simp add: writeCommittedSeals_def with_extra_def)

section \<open>The committed seals\<close>

definition signed_by :: "crypto \<Rightarrow> bytes \<Rightarrow> bytes \<Rightarrow> address \<Rightarrow> bool" where
  "signed_by cr data seal a \<longleftrightarrow> GetSignatureAddress cr data seal = Inr a"

lemma check_seals_iff:
  "distinct (vs_validators v) \<Longrightarrow> check_seals cr d seals v k = Inr m \<longleftrightarrow>
     (\<exists>as. list_all2 (signed_by cr d) seals as \<and> distinct as \<and> set as \<subseteq> members v \<and> m = k + int (length seals))"
proof (induction seals arbitrary: v k)
  case (Cons seal seals)
  show ?case
  proof (cases "GetSignatureAddress cr d seal")
    case (Inl er)
    then show ?thesis by (auto simp: list_all2_Cons1 signed_by_def)
  next
    case (Inr a)
    show ?thesis
    proof (cases "a \<in> members v")
      case False
      then have "RemoveValidator a v = (False, v)" using RemoveValidator_cases [of a v] by auto
      then show ?thesis using Inr False by (auto simp: list_all2_Cons1 signed_by_def)
    next
      case True
      then obtain ys zs where v: "vs_validators v = ys @ a # zs"
        "RemoveValidator a v = (True, v\<lparr>vs_validators := ys @ zs\<rparr>)" using RemoveValidator_cases [of a v] by auto
      let ?v = "v\<lparr>vs_validators := ys @ zs\<rparr>"
      have m: "members ?v = members v - {a}" "distinct (vs_validators ?v)" using Cons.prems v(1) by auto
      have "check_seals cr d (seal # seals) v k = check_seals cr d seals ?v (k + 1)" using Inr v(2) by simp
      also have "\<dots> = Inr m \<longleftrightarrow> (\<exists>as. list_all2 (signed_by cr d) seals as \<and> distinct as \<and>
          set as \<subseteq> members v - {a} \<and> m = k + 1 + int (length seals))" using Cons.IH [OF m(2)] m(1) by simp
      also have "\<dots> \<longleftrightarrow> (\<exists>as. list_all2 (signed_by cr d) (seal # seals) as \<and> distinct as \<and> set as \<subseteq> members v \<and>
          m = k + int (length (seal # seals)))"
      proof (rule iffI; elim exE conjE)
        fix as
        assume "list_all2 (signed_by cr d) seals as" "distinct as" "set as \<subseteq> members v - {a}" "m = k + 1 + int (length seals)"
        then show "\<exists>as. list_all2 (signed_by cr d) (seal # seals) as \<and> distinct as \<and> set as \<subseteq> members v \<and>
            m = k + int (length (seal # seals))"
          using Inr True by (intro exI [of _ "a # as"]) (auto simp: signed_by_def)
      next
        fix as
        assume "list_all2 (signed_by cr d) (seal # seals) as" "distinct as" "set as \<subseteq> members v"
          "m = k + int (length (seal # seals))"
        then show "\<exists>as. list_all2 (signed_by cr d) seals as \<and> distinct as \<and> set as \<subseteq> members v - {a} \<and>
            m = k + 1 + int (length seals)"
          using Inr by (intro exI [of _ "tl as"]) (auto simp: signed_by_def list_all2_Cons1)
      qed
      finally show ?thesis .
    qed
  qed
qed auto

definition sealed_by_quorum :: "crypto \<Rightarrow> header \<Rightarrow> istanbul_extra \<Rightarrow> valset \<Rightarrow> bool" where
  "sealed_by_quorum cr h x v \<longleftrightarrow> ie_CommittedSeal x \<noteq> [] \<and>
     (\<exists>as. list_all2 (signed_by cr (PrepareCommittedSeal (header_Hash (kec cr) h))) (ie_CommittedSeal x) as \<and>
        distinct as \<and> set as \<subseteq> members v) \<and> 2 * vs_F v < int (length (ie_CommittedSeal x))"

lemma verifyCommittedSeals_iff:
  assumes "big_Uint64 (h_Number h) \<noteq> 0" "backend_snapshot env (pred_number h) (h_ParentHash h) parents e = (Ok snap, e1)"
    and "ExtractIstanbulExtra h = Inr x" "valset_ok (en_crypto env) (sn_ValSet snap)"
  shows "verifyCommittedSeals env h parents e = (Ok (), e') \<longleftrightarrow>
    e' = e1 \<and> sealed_by_quorum (en_crypto env) h x (sn_ValSet snap)"
proof -
  let ?cr = "en_crypto env"
  let ?d = "PrepareCommittedSeal (header_Hash (kec ?cr) h)"
  let ?v = "vs_Copy ?cr (sn_ValSet snap)"
  note run = ebind_run [where m = "backend_snapshot env (pred_number h) (h_ParentHash h) parents", OF assms(2)]
  have v: "distinct (vs_validators ?v)" "members ?v = members (sn_ValSet snap)"
    using vs_Copy_ok [OF assms(4)] by (simp_all add: valset_ok_def vs_Copy_def)
  have "verifyCommittedSeals env h parents e = (Ok (), e') \<longleftrightarrow> ie_CommittedSeal x \<noteq> [] \<and> e' = e1 \<and>
    (\<exists>m. check_seals ?cr ?d (ie_CommittedSeal x) ?v 0 = Inr m \<and> 2 * vs_F (sn_ValSet snap) < m)"
    using assms(1,3) by (cases "check_seals ?cr ?d (ie_CommittedSeal x) ?v 0")
      (auto simp: verifyCommittedSeals_def run engine_simps)
  also have "\<dots> \<longleftrightarrow> e' = e1 \<and> sealed_by_quorum ?cr h x (sn_ValSet snap)"
    unfolding check_seals_iff [OF v(1)] v(2) sealed_by_quorum_def by auto
  finally show ?thesis .
qed

lemma pred_number_eq:
  assumes "big_Uint64 (h_Number h) \<noteq> 0"
  shows "pred_number h = big_Uint64 (h_Number h) - 1"
proof -
  have "big_Uint64 (h_Number h) < 2 ^ 64" by (simp add: big_Uint64_def)
  moreover have "big_Uint64 (h_Number h) + 2 ^ 64 - 1 = big_Uint64 (h_Number h) - 1 + 2 ^ 64" using assms by simp
  ultimately show ?thesis unfolding pred_number_def by (simp only: mod_add_self2) simp
qed

lemma verifySigner_Ok:
  assumes "verifySigner env h parents e = (Ok u, e')"
  shows "\<exists>snap w. backend_snapshot env (pred_number h) (h_ParentHash h) parents e = (Ok snap, e') \<and>
    header_ecrecover (en_crypto env) h = Inr w \<and> w \<in> members (sn_ValSet snap)"
proof -
  obtain snap w where s: "backend_snapshot env (pred_number h) (h_ParentHash h) parents e = (Ok snap, e')"
    "header_ecrecover (en_crypto env) h = Inr w" "snd (GetByAddress (sn_ValSet snap) w) \<noteq> None"
    using assms by (auto simp: verifySigner_def engine_simps split: if_splits)
  then have "w \<in> members (sn_ValSet snap)"
    using GetByAddress_not_mem [of w "sn_ValSet snap"] by (cases "w \<in> members (sn_ValSet snap)") auto
  then show ?thesis using s by blast
qed

lemma verifyCommittedSeals_Ok:
  assumes "verifyCommittedSeals env h parents e = (Ok u, e')" "big_Uint64 (h_Number h) \<noteq> 0"
  shows "\<exists>snap x. backend_snapshot env (pred_number h) (h_ParentHash h) parents e = (Ok snap, e') \<and>
    ExtractIstanbulExtra h = Inr x"
  using assms by (auto simp: verifyCommittedSeals_def engine_simps split: if_splits)

lemma verifyHeader_Ok:
  assumes "verifyHeader env h parents e = (Ok u, e')" "big_Uint64 (h_Number h) \<noteq> 0"
  shows "\<exists>e1 e2 snap. backend_snapshot env (pred_number h) (h_ParentHash h) parents e = (Ok snap, e1) \<and>
    verifySigner env h parents e1 = (Ok (), e2) \<and> verifyCommittedSeals env h parents e2 = (Ok (), e')"
  using assms by (auto simp: verifyHeader_def verifyCascadingFields_def engine_simps split: option.splits if_splits)

section \<open>A walk past the checkpoints\<close>

lemma snapshot_walk_all_headers:
  assumes "e_recents e = Map.empty" "snapshot_walk env number hash parents acc e = (Ok (s, headers), e')"
  shows "length headers = length acc + number \<and> genesis_state env (e_config e) = Some s"
  using assms(2)
proof (induction number arbitrary: hash parents acc)
  case 0
  then show ?case
    by (auto simp: snapshot_walk_step [of env 0] assms(1) engine_simps dest: genesis_snapshot_Ok(1))
next
  case (Suc number)
  then obtain header where
    "snapshot_walk env number (h_ParentHash header) (butlast parents) (acc @ [header]) e = (Ok (s, headers), e')"
    by (auto simp: snapshot_walk_step [of env "Suc number"] assms(1) engine_simps split: option.splits)
  from Suc.IH [OF this] show ?case by simp
qed

section \<open>A block of our own\<close>

lemma length_enc_list_le: "length b < 2 ^ 64 \<Longrightarrow> length (enc_list b) \<le> length b + 9"
  using length_puthead_le [of "length b"] by (simp add: enc_list_def)

lemma length_concat_le: "(\<And>x. x \<in> set xs \<Longrightarrow> length (f x) \<le> n) \<Longrightarrow> length (concat (map f xs)) \<le> n * length xs"
  by (induction xs) (auto intro!: add_mono)

lemma extra_ok_sizes:
  assumes "length vals < 2 ^ 32" "length seal \<le> 65" "length seals < 2 ^ 32" "list_all (\<lambda>s. length s = IstanbulExtraSeal) seals"
  shows "extra_ok \<lparr>ie_Validators = vals, ie_Seal = seal, ie_CommittedSeal = seals\<rparr>"
proof -
  let ?c = "concat (map (\<lambda>a. enc_string (addr_bytes a)) vals)" and ?d = "concat (map enc_string seals)"
  have "length (enc_string (addr_bytes a)) \<le> 29" for a using length_enc_string_le [of "addr_bytes a"] by simp
  then have "length ?c \<le> 29 * length vals" by (rule length_concat_le)
  then have "length ?c < 2 ^ 37" using assms(1) by simp
  then have v: "length (enc_list ?c) < 2 ^ 38" using length_enc_list_le [of ?c] by simp
  have "length (enc_string s) \<le> 74" if "s \<in> set seals" for s
    using assms(4) that length_enc_string_le [of s] by (auto simp: list_all_iff IstanbulExtraSeal_def)
  then have "length ?d \<le> 74 * length seals" by (rule length_concat_le)
  then have "length ?d < 2 ^ 39" using assms(3) by simp
  then have d: "length (enc_list ?d) < 2 ^ 40" using length_enc_list_le [of ?d] by simp
  have "length (enc_string seal) \<le> 74" using length_enc_string_le [of seal] assms(2) by simp
  then have "length (enc_list ?c @ enc_string seal @ enc_list ?d) < 2 ^ 42" using v d by simp
  then show ?thesis
    using length_enc_list_le [of "enc_list ?c @ enc_string seal @ enc_list ?d"]
    unfolding extra_ok_def enc_extra by simp
qed

lemma prepareExtra_Ok:
  assumes "prepareExtra h vals = Inr extra" "length vals < 2 ^ 32"
  shows "ExtractIstanbulExtra (h'\<lparr>h_Extra := extra\<rparr>) = Inr \<lparr>ie_Validators = vals, ie_Seal = [], ie_CommittedSeal = []\<rparr>"
proof -
  let ?x = "\<lparr>ie_Validators = vals, ie_Seal = [], ie_CommittedSeal = []\<rparr>"
  have ok: "extra_ok ?x" using assms(2) by (intro extra_ok_sizes) simp_all
  define v where "v = (if length (h_Extra h) < 32 then h_Extra h @ replicate (32 - length (h_Extra h)) 0 else h_Extra h)"
  have v: "extra = take 32 v @ enc_spec (extra_rval ?x)" "32 \<le> length v"
    using assms(1) Encode_extra [OF ok]
    by (auto simp: prepareExtra_def Let_def IstanbulExtraVanity_def v_def)
  have "h'\<lparr>h_Extra := extra\<rparr> = with_extra (h'\<lparr>h_Extra := v\<rparr>) ?x"
    by (simp add: with_extra_def v IstanbulExtraVanity_def)
  then show ?thesis using Extract_with_extra [of "h'\<lparr>h_Extra := v\<rparr>" ?x] ok v(2) by simp
qed

lemma Prepare_Ok:
  assumes "Prepare env pick h0 e = (Ok h, e')"
    and "backend_snapshot env (pred_number h0) (h_ParentHash h0) [] e = (Ok snap, e1)" "vs_Size (sn_ValSet snap) < 2 ^ 32"
  shows "ExtractIstanbulExtra h = Inr \<lparr>ie_Validators = snapshot_validators snap, ie_Seal = [], ie_CommittedSeal = []\<rparr>"
    "h_ParentHash h = h_ParentHash h0" "h_Number h = h_Number h0" "h_MixDigest h = IstanbulDigest"
    "h_Difficulty h = defaultDifficulty" "h_Nonce h \<in> {emptyNonce, nonceAuthVote, nonceDropVote}"
    "length (snapshot_validators snap) < 2 ^ 32"
proof -
  let ?h2 = "h0\<lparr>h_Coinbase := 0, h_Nonce := emptyNonce, h_MixDigest := IstanbulDigest, h_Difficulty := defaultDifficulty\<rparr>"
  have p: "pred_number ?h2 = pred_number h0" by (simp add: pred_number_def)
  obtain h3 extra cs where h3: "h3 = cast_candidate pick cs ?h2" "prepareExtra h3 (snapshot_validators snap) = Inr extra"
    and h: "h = h3\<lparr>h_Extra := extra\<rparr>"
    using assms(1,2) p by (auto simp: Prepare_def Let_def engine_simps split: option.splits)
  have "mset (snapshot_validators snap) = mset (vs_validators (sn_ValSet snap))"
    using sort_prefix [of "vs_Size (sn_ValSet snap)" "vs_validators (sn_ValSet snap)"]
    by (simp add: snapshot_validators_def vs_Size_def Let_def)
  then show l: "length (snapshot_validators snap) < 2 ^ 32" using assms(3) by (metis size_mset vs_Size_def)
  show "ExtractIstanbulExtra h = Inr \<lparr>ie_Validators = snapshot_validators snap, ie_Seal = [], ie_CommittedSeal = []\<rparr>"
    unfolding h by (rule prepareExtra_Ok [OF h3(2) l])
  have c: "h_ParentHash h3 = h_ParentHash ?h2" "h_Number h3 = h_Number ?h2" "h_MixDigest h3 = h_MixDigest ?h2"
    "h_Difficulty h3 = h_Difficulty ?h2" "h_Nonce h3 \<in> {h_Nonce ?h2, nonceAuthVote, nonceDropVote}"
    unfolding h3(1) cast_candidate_def by (simp_all split: prod.split)
  then show "h_ParentHash h = h_ParentHash h0" "h_Number h = h_Number h0" "h_MixDigest h = IstanbulDigest"
    "h_Difficulty h = defaultDifficulty" "h_Nonce h \<in> {emptyNonce, nonceAuthVote, nonceDropVote}"
    unfolding h by simp_all
qed

lemma Finalize_fields:
  assumes "b = Finalize env dt dr cb root h txs receipts"
  shows "h_ParentHash (b_header b) = h_ParentHash h" "h_Number (b_header b) = h_Number h" "h_MixDigest (b_header b) = h_MixDigest h"
    "h_Difficulty (b_header b) = h_Difficulty h" "h_Nonce (b_header b) = h_Nonce h" "h_Extra (b_header b) = h_Extra h"
    "h_UncleHash (b_header b) = CalcUncleHash (kec (en_crypto env)) []"
  unfolding assms by (simp_all add: Finalize_def NewBlock_def Let_def)

lemma Extract_cong: "h_Extra h = h_Extra h' \<Longrightarrow> ExtractIstanbulExtra h = ExtractIstanbulExtra h'"
  by (simp add: ExtractIstanbulExtra_def)

definition signs_as :: "engine_env \<Rightarrow> address \<Rightarrow> bool" where
  "signs_as env signer \<longleftrightarrow> (\<forall>d sig. en_sign env d = Some sig \<longrightarrow> length sig = IstanbulExtraSeal \<and>
     (\<exists>pk. ecrecover (en_crypto env) d sig = Some pk \<and> PubkeyToAddress (en_crypto env) pk = signer))"

text \<open>The time stamp \<^verbatim>\<open>updateBlock\<close> chooses.\<close>

definition block_time :: "engine_env \<Rightarrow> istanbul_config \<Rightarrow> header \<Rightarrow> block \<Rightarrow> int" where
  "block_time env config par b =
     (let t = h_Time par + int (if b_transactions b = [] then cf_BlockPauseTime config else cf_BlockPeriod config)
      in if big_Int64 t < en_now env then en_now env else t)"

lemma updateBlock_Ok:
  assumes "updateBlock env par b e = (Ok b', e')" "signs_as env signer"
    and "ExtractIstanbulExtra (b_header b) = Inr \<lparr>ie_Validators = vals, ie_Seal = [], ie_CommittedSeal = []\<rparr>" "length vals < 2 ^ 32"
  shows "\<exists>sig. b_header b' = with_extra ((b_header b)\<lparr>h_Time := block_time env (e_config e) par b\<rparr>)
      \<lparr>ie_Validators = vals, ie_Seal = sig, ie_CommittedSeal = []\<rparr> \<and> length sig = IstanbulExtraSeal \<and>
    header_ecrecover (en_crypto env) (b_header b') = Inr signer"
proof -
  let ?cr = "en_crypto env"
  let ?x = "\<lparr>ie_Validators = vals, ie_Seal = [], ie_CommittedSeal = []\<rparr>"
  define h1 where "h1 = (b_header b)\<lparr>h_Time := block_time env (e_config e) par b\<rparr>"
  have x: "ExtractIstanbulExtra h1 = Inr ?x" using Extract_cong [of h1 "b_header b"] assms(3) by (simp add: h1_def)
  have h1: "(if big_Int64 (h_Time ((b_header b)\<lparr>h_Time := t\<rparr>)) < en_now env
      then (b_header b)\<lparr>h_Time := t\<rparr>\<lparr>h_Time := en_now env\<rparr> else (b_header b)\<lparr>h_Time := t\<rparr>) =
      (b_header b)\<lparr>h_Time := if big_Int64 t < en_now env then en_now env else t\<rparr>" for t by simp
  obtain sig h2 where sig: "en_sign env (kec ?cr (hash_bytes (sigHash ?cr h1))) = Some sig" "writeSeal h1 sig = Inr h2"
    and b': "b' = WithSeal b h2"
    using assms(1) unfolding updateBlock_def backend_Sign_def Let_def h1 h1_def block_time_def
    by (auto simp: engine_simps split: option.splits)
  obtain pk where pk: "length sig = IstanbulExtraSeal" "ecrecover ?cr (kec ?cr (hash_bytes (sigHash ?cr h1))) sig = Some pk"
    "PubkeyToAddress ?cr pk = signer" using assms(2) sig(1) unfolding signs_as_def by blast
  let ?y = "\<lparr>ie_Validators = vals, ie_Seal = sig, ie_CommittedSeal = []\<rparr>"
  have ok: "extra_ok ?x" "extra_ok ?y"
    using assms(4) pk(1) by (auto intro!: extra_ok_sizes simp: IstanbulExtraSeal_def)
  have h2: "h2 = with_extra h1 ?y" using writeSeal_Ok [OF x pk(1)] ok(2) sig(2) by simp
  have "sigHash ?cr h2 = sigHash ?cr h1"
    unfolding h2 by (rule hashes_ignore_seals(2) [OF x ok]) (simp add: strip_seals_def)
  moreover have "ExtractIstanbulExtra h2 = Inr ?y"
    unfolding h2 using Extract_with [OF x] by (intro Extract_with_extra ok(2)) simp
  ultimately have "header_ecrecover ?cr h2 = Inr signer"
    using pk(2,3) by (simp add: header_ecrecover_def GetSignatureAddress_def)
  then show ?thesis using h2 pk(1) unfolding b' h1_def by (auto simp: WithSeal_def)
qed

lemma verifyHeader_run:
  assumes "verify_standalone env h = None" "big_Uint64 (h_Number h) \<noteq> 0"
    and "ch_GetHeader (en_chain env) (h_ParentHash h) (pred_number h) = Some par"
    and "big_Uint64 (h_Number par) = pred_number h" "header_Hash (kec (en_crypto env)) par = h_ParentHash h"
    and "(big_Uint64 (h_Time par) + cf_BlockPeriod (e_config e)) mod 2 ^ 64 \<le> big_Uint64 (h_Time h)"
    and "backend_snapshot env (pred_number h) (h_ParentHash h) [] e = (Ok snap, e)"
    and "header_ecrecover (en_crypto env) h = Inr w" "w \<in> members (sn_ValSet snap)"
  shows "VerifyHeader env h e = verifyCommittedSeals env h [] e"
proof -
  note run = ebind_run [where m = "backend_snapshot env (pred_number h) (h_ParentHash h) []", OF assms(7)]
  have "snd (GetByAddress (sn_ValSet snap) w) \<noteq> None" using GetByAddress_mem [OF assms(9)] by auto
  then have "verifySigner env h [] e = (Ok (), e)"
    using assms(2,8) by (simp add: verifySigner_def run ebind_run [where m = "elift id (Inr w)" and x = w and ?e1.0 = e]
        early_return eret_def)
  note sg = ebind_run [where m = "verifySigner env h []", OF this]
  have "echeck None e = (Ok (), e)" by (simp add: early_return)
  note ck = ebind_run [where m = "echeck None", OF this]
  show ?thesis
    using assms(2-6) by (simp add: VerifyHeader_def verifyHeader_def assms(1) ck verifyCascadingFields_def run sg)
qed

lemma big_Int64_small: "0 \<le> i \<Longrightarrow> i < 2 ^ 63 \<Longrightarrow> big_Int64 i = i"
  by (simp add: big_Int64_def Let_def big_Uint64_small wrap_i64_def)

lemma block_time_late:
  assumes "0 \<le> h_Time par" "h_Time par + int (cf_BlockPauseTime config) < 2 ^ 63" "en_now env < 2 ^ 63"
    and "cf_BlockPeriod config \<le> cf_BlockPauseTime config"
  shows "0 \<le> block_time env config par b"
    "(big_Uint64 (h_Time par) + cf_BlockPeriod config) mod 2 ^ 64 \<le> big_Uint64 (block_time env config par b)"
proof -
  let ?t = "block_time env config par b"
  let ?p = "int (if b_transactions b = [] then cf_BlockPauseTime config else cf_BlockPeriod config)"
  have p: "int (cf_BlockPeriod config) \<le> ?p" "0 \<le> h_Time par + ?p" "h_Time par + ?p < 2 ^ 63" using assms by auto
  have "big_Int64 (h_Time par + ?p) = h_Time par + ?p" by (rule big_Int64_small [OF p(2,3)])
  then have t: "h_Time par + int (cf_BlockPeriod config) \<le> ?t" "?t < 2 ^ 63"
    using p assms(3) by (auto simp: block_time_def Let_def)
  then show "0 \<le> ?t" using assms(1) by linarith
  have "big_Uint64 (h_Time par) = nat (h_Time par)" "big_Uint64 ?t = nat ?t"
    using assms(1,2) t by (auto intro!: big_Uint64_small)
  then have "big_Uint64 (h_Time par) + cf_BlockPeriod config \<le> big_Uint64 ?t"
    using t(1) assms(1) by (simp add: le_nat_iff nat_le_iff)
  then show "(big_Uint64 (h_Time par) + cf_BlockPeriod config) mod 2 ^ 64 \<le> big_Uint64 ?t"
    by (meson le_trans mod_less_eq_dividend)
qed

text \<open>The header of a block this engine builds on \<open>h0\<close>'s parent, before the seals are written.\<close>

definition built_header :: "crypto \<Rightarrow> header \<Rightarrow> header \<Rightarrow> bool" where
  "built_header cr h0 g \<longleftrightarrow> 32 \<le> length (h_Extra g) \<and>
     h_ParentHash g = h_ParentHash h0 \<and> h_Number g = h_Number h0 \<and>
     h_MixDigest g = IstanbulDigest \<and> h_Difficulty g = defaultDifficulty \<and>
     h_Nonce g \<in> {emptyNonce, nonceAuthVote, nonceDropVote} \<and> h_UncleHash g = CalcUncleHash (kec cr) []"

lemma built_headerI:
  assumes "Prepare env pick h0 e0 = (Ok h, e1)"
    and "backend_snapshot env (pred_number h0) (h_ParentHash h0) [] e0 = (Ok snap0, e1')" "vs_Size (sn_ValSet snap0) < 2 ^ 32"
    and "b0 = Finalize env dt dr cb root h txs receipts"
    and "updateBlock env par b0 e = (Ok b, e')" "signs_as env signer"
  shows "\<exists>g sig. b_header b = with_extra g \<lparr>ie_Validators = snapshot_validators snap0, ie_Seal = sig, ie_CommittedSeal = []\<rparr> \<and>
    built_header (en_crypto env) h0 g \<and> h_Time g = block_time env (e_config e) par b0 \<and> length sig = IstanbulExtraSeal \<and>
    header_ecrecover (en_crypto env) (b_header b) = Inr signer"
proof -
  let ?vals = "snapshot_validators snap0"
  note p = Prepare_Ok [OF assms(1-3)]
  note f = Finalize_fields [OF assms(4)]
  have x: "ExtractIstanbulExtra (b_header b0) = Inr \<lparr>ie_Validators = ?vals, ie_Seal = [], ie_CommittedSeal = []\<rparr>"
    using p(1) Extract_cong [OF f(6)] by simp
  let ?g = "(b_header b0)\<lparr>h_Time := block_time env (e_config e) par b0\<rparr>"
  have "built_header (en_crypto env) h0 ?g"
    unfolding built_header_def using p(2-6) f Extract_with [OF x] by simp
  moreover have "h_Time ?g = block_time env (e_config e) par b0" by simp
  ultimately show ?thesis using updateBlock_Ok [OF assms(5,6) x p(7)] by blast
qed

lemma sealed_header_verifies:
  assumes g: "built_header (en_crypto env) h0 g"
    and x: "x = \<lparr>ie_Validators = vals, ie_Seal = sig, ie_CommittedSeal = []\<rparr>" "extra_ok x" "extra_ok (x\<lparr>ie_CommittedSeal := seals\<rparr>)"
    and sg: "header_ecrecover (en_crypto env) (with_extra g x) = Inr w" "w \<in> members (sn_ValSet snap)"
    and num: "big_Uint64 (h_Number h0) \<noteq> 0"
    and par: "ch_GetHeader (en_chain env) (h_ParentHash h0) (pred_number h0) = Some par"
      "big_Uint64 (h_Number par) = pred_number h0" "header_Hash (kec (en_crypto env)) par = h_ParentHash h0"
    and time: "(big_Uint64 (h_Time par) + cf_BlockPeriod (e_config e)) mod 2 ^ 64 \<le> big_Uint64 (h_Time g)" "h_Time g \<le> en_now env"
    and snap: "backend_snapshot env (pred_number h0) (h_ParentHash h0) [] e = (Ok snap, e)"
  shows "VerifyHeader env (with_extra g (x\<lparr>ie_CommittedSeal := seals\<rparr>)) e =
    verifyCommittedSeals env (with_extra g (x\<lparr>ie_CommittedSeal := seals\<rparr>)) [] e"
proof -
  let ?cr = "en_crypto env"
  let ?y = "x\<lparr>ie_CommittedSeal := seals\<rparr>"
  let ?h = "with_extra g ?y"
  have len: "32 \<le> length (h_Extra g)" using g by (simp add: built_header_def)
  have ex: "ExtractIstanbulExtra (with_extra g x) = Inr x" "ExtractIstanbulExtra ?h = Inr ?y"
    using Extract_with_extra [OF len] x(2,3) by simp_all
  have "sigHash ?cr ?h = sigHash ?cr (with_extra g x)"
    using hashes_ignore_seals(2) [OF ex(1) x(2,3), of ?cr] len by (simp add: strip_seals_def)
  then have rec: "header_ecrecover ?cr ?h = Inr w"
    using sg(1) by (simp add: header_ecrecover_def ex)
  have pn: "pred_number ?h = pred_number h0" using g by (simp add: pred_number_def built_header_def)
  have "verify_standalone env ?h = None"
    using g time(2) by (auto simp: verify_standalone_def ex(2) built_header_def)
  moreover have "h_ParentHash ?h = h_ParentHash h0" "h_Number ?h = h_Number h0" using g by (simp_all add: built_header_def)
  ultimately show ?thesis
    using num par time(1) snap rec sg(2) pn by (intro verifyHeader_run [where w = w and par = par and snap = snap]) simp_all
qed

lemma proposal_without_seals:
  assumes "VerifyHeader env (b_header b) e = verifyCommittedSeals env (b_header b) [] e"
    and "big_Uint64 (h_Number (b_header b)) \<noteq> 0"
    and "backend_snapshot env (pred_number (b_header b)) (h_ParentHash (b_header b)) [] e = (Ok snap, e)"
    and "ExtractIstanbulExtra (b_header b) = Inr x" "ie_CommittedSeal x = []"
  shows "backend_Verify env b e = (Ok (), 0, e)"
proof -
  have "verifyCommittedSeals env (b_header b) [] e = (Fail errEmptyCommittedSeals, e)"
    using assms(2-5) by (simp add: verifyCommittedSeals_def ebind_def elift_def eret_def efail_def)
  then show ?thesis by (simp add: backend_Verify_def assms(1))
qed

lemma proposal_with_seals:
  assumes h: "ExtractIstanbulExtra h = Inr x" "h_MixDigest h = IstanbulDigest" "extra_ok x" "extra_ok (x\<lparr>ie_CommittedSeal := seals\<rparr>)"
    and seals: "seals \<noteq> []" "list_all (\<lambda>s. length s = IstanbulExtraSeal) seals"
    and quorum: "list_all2 (signed_by (en_crypto env) (PrepareCommittedSeal (header_Hash (kec (en_crypto env)) h))) seals as"
      "distinct as" "set as \<subseteq> members (sn_ValSet snap)" "2 * vs_F (sn_ValSet snap) < int (length seals)"
    and ver: "VerifyHeader env (with_extra h (x\<lparr>ie_CommittedSeal := seals\<rparr>)) e =
      verifyCommittedSeals env (with_extra h (x\<lparr>ie_CommittedSeal := seals\<rparr>)) [] e"
    and num: "big_Uint64 (h_Number h) \<noteq> 0"
    and snap: "backend_snapshot env (pred_number h) (h_ParentHash h) [] e = (Ok snap, e)"
      "valset_ok (en_crypto env) (sn_ValSet snap)"
  shows "\<exists>h'. writeCommittedSeals h seals = Inr h' \<and> VerifyHeader env h' e = (Ok (), e)"
proof -
  let ?cr = "en_crypto env"
  let ?y = "x\<lparr>ie_CommittedSeal := seals\<rparr>"
  let ?h = "with_extra h ?y"
  have hash: "header_Hash (kec ?cr) ?h = header_Hash (kec ?cr) h"
    by (rule hashes_ignore_seals(1) [OF h(1,3,4) _ h(2)]) (simp add: strip_seals_def)
  have ex: "ExtractIstanbulExtra ?h = Inr ?y" using Extract_with [OF h(1)] Extract_with_extra [OF _ h(4)] by blast
  have "sealed_by_quorum ?cr ?h ?y (sn_ValSet snap)"
    unfolding sealed_by_quorum_def hash using quorum seals(1) by auto
  then have "verifyCommittedSeals env ?h [] e = (Ok (), e)"
    using verifyCommittedSeals_iff [of ?h env "[]" e snap e ?y e] num snap ex by (simp add: pred_number_def)
  then show ?thesis using writeCommittedSeals_Ok [OF h(1,4) seals] ver by simp
qed

section \<open>Gossip\<close>

definition remembers :: "engine_env \<Rightarrow> bool" where
  "remembers env \<longleftrightarrow> (\<forall>h m. en_known_add env h m h \<noteq> None) \<and>
     (\<forall>a m r b. en_peer_add env a m r b = (if b = a then Some m else r b))"

lemma gossip_peer_skips:
  assumes "remembers env" "e_recentMessages e addr = Some m" "m hash \<noteq> None" "SendPeer addr payload \<notin> set out"
    and "fold (gossip_peer env hash payload) peers (out, e) = (out', e')"
  shows "SendPeer addr payload \<notin> set out'"
proof -
  have add: "en_peer_add env a m' r b = (if b = a then Some m' else r b)" for a m' r b
    using assms(1) unfolding remembers_def by blast
  show ?thesis using assms(2-)
  proof (induction peers arbitrary: out e m)
    case (Cons p peers)
    obtain out1 e1 where g: "gossip_peer env hash payload p (out, e) = (out1, e1)" by fastforce
    have "SendPeer addr payload \<notin> set out1 \<and> e_recentMessages e1 addr = Some m"
      using Cons.prems(1-3) g add by (cases "p = addr") (auto simp: gossip_peer_def Let_def split: if_splits)
    then show ?case using Cons.IH [of e1 m out1] Cons.prems(2,4) g by simp
  qed simp
qed

section \<open>A chain with one validator\<close>

text \<open>A concrete environment for the examples: a hash function that is constant, signatures that always
  recover the same key, and one validator.\<close>

definition demo_crypto :: crypto where
  "demo_crypto = \<lparr>kec = (\<lambda>_. 7), ecrecover = (\<lambda>_ _. Some [])\<rparr>"

definition demo_seal :: bytes where
  "demo_seal = replicate 65 1"

definition demo_header :: "nat \<Rightarrow> bytes list \<Rightarrow> header" where
  "demo_header n seals = with_extra (zero_header\<lparr>h_Number := int n, h_UncleHash := 7, h_ParentHash := 7, h_Time := 10 * int n\<rparr>)
     \<lparr>ie_Validators = [7], ie_Seal = demo_seal, ie_CommittedSeal = seals\<rparr>"

definition demo_env :: engine_env where
  "demo_env = \<lparr>en_crypto = demo_crypto,
     en_chain = \<lparr>ch_GetHeader = (\<lambda>h n. if h = 7 \<and> n < 1000 then Some (demo_header n []) else None),
       ch_GetHeaderByNumber = (\<lambda>n. if n < 1000 then Some (demo_header n []) else None),
       ch_GetHeaderByHash = (\<lambda>h. None), ch_CurrentHeader = demo_header 1 []\<rparr>,
     en_now = 1000, en_sign = (\<lambda>_. Some demo_seal), en_put_ok = (\<lambda>_. True), en_inserter = (\<lambda>_. Inserted),
     en_peers = None, en_recents_add = (\<lambda>k v m. m(k \<mapsto> v)), en_known_add = (\<lambda>h m. m(h \<mapsto> True)),
     en_peer_add = (\<lambda>a m r. r(a \<mapsto> m))\<rparr>"

definition demo_snapshot :: snapshot where
  "demo_snapshot = newSnapshot 30000 0 7 (NewSet demo_crypto [7] RoundRobin)"

definition demo_engine :: engine where
  "demo_engine = (new_backend DefaultConfig 7 Map.empty)\<lparr>e_recents := [7 \<mapsto> demo_snapshot]\<rparr>"

lemma demo_env_fields [simp]:
  "en_crypto demo_env = demo_crypto" "en_now demo_env = 1000" "en_put_ok demo_env h" "en_sign demo_env d = Some demo_seal"
  "en_recents_add demo_env k v m = m(k \<mapsto> v)"
  "ch_GetHeader (en_chain demo_env) h n = (if h = 7 \<and> n < 1000 then Some (demo_header n []) else None)"
  "ch_GetHeaderByNumber (en_chain demo_env) n = (if n < 1000 then Some (demo_header n []) else None)"
  "remembers demo_env"
  by (simp_all add: demo_env_def remembers_def)

lemma demo_hash [simp]:
  "kec demo_crypto b = 7" "header_Hash (\<lambda>_. 7) h = 7" "header_Hash (kec demo_crypto) h = 7"
  "CalcUncleHash (kec demo_crypto) [] = 7"
  by (simp_all add: demo_crypto_def header_Hash_def rlpHash_def CalcUncleHash_def split: option.split)

lemma demo_signed: "GetSignatureAddress demo_crypto d s = Inr 7" "signed_by demo_crypto d s 7" "signs_as demo_env 7"
proof -
  have "PubkeyToAddress demo_crypto [] = 7" by code_simp
  then show "GetSignatureAddress demo_crypto d s = Inr 7" "signed_by demo_crypto d s 7" "signs_as demo_env 7"
    by (simp_all add: GetSignatureAddress_def demo_crypto_def signed_by_def signs_as_def demo_seal_def IstanbulExtraSeal_def)
qed

lemma demo_header_fields [simp]:
  "h_Number (demo_header n seals) = int n" "h_ParentHash (demo_header n seals) = 7" "h_Time (demo_header n seals) = 10 * int n"
  "h_UncleHash (demo_header n seals) = 7" "h_MixDigest (demo_header n seals) = IstanbulDigest"
  "h_Difficulty (demo_header n seals) = 1" "h_Nonce (demo_header n seals) = emptyNonce"
  by (simp_all add: demo_header_def zero_header_def emptyNonce_def)

lemma demo_extra_ok:
  "length seals < 2 ^ 32 \<Longrightarrow> list_all (\<lambda>s. length s = IstanbulExtraSeal) seals \<Longrightarrow>
     extra_ok \<lparr>ie_Validators = [7], ie_Seal = demo_seal, ie_CommittedSeal = seals\<rparr>"
  by (rule extra_ok_sizes) (simp_all add: demo_seal_def)

lemma demo_extract:
  assumes "length seals < 2 ^ 32" "list_all (\<lambda>s. length s = IstanbulExtraSeal) seals"
  shows "ExtractIstanbulExtra (demo_header n seals) =
    Inr \<lparr>ie_Validators = [7], ie_Seal = demo_seal, ie_CommittedSeal = seals\<rparr>"
  unfolding demo_header_def
  by (rule Extract_with_extra [OF _ demo_extra_ok [OF assms]]) (simp add: zero_header_def)

lemma demo_recover:
  "length seals < 2 ^ 32 \<Longrightarrow> list_all (\<lambda>s. length s = IstanbulExtraSeal) seals \<Longrightarrow>
     header_ecrecover demo_crypto (demo_header n seals) = Inr 7"
  by (simp add: header_ecrecover_def demo_extract demo_signed)

lemma demo_members: "valset_ok demo_crypto (sn_ValSet demo_snapshot)" "members (sn_ValSet demo_snapshot) = {7}"
  "vs_Size (sn_ValSet demo_snapshot) = 1" "vs_F (sn_ValSet demo_snapshot) = 0"
proof -
  show ok: "valset_ok demo_crypto (sn_ValSet demo_snapshot)" and m: "members (sn_ValSet demo_snapshot) = {7}"
    by (simp_all add: demo_snapshot_def newSnapshot_def NewSet_def newDefaultSet_ok)
  show "vs_Size (sn_ValSet demo_snapshot) = 1" "vs_F (sn_ValSet demo_snapshot) = 0"
    by (simp_all add: demo_snapshot_def newSnapshot_def NewSet_def newDefaultSet_def vs_Size_def vs_F_def Let_def)
qed

lemma demo_cached: "backend_snapshot demo_env n 7 parents demo_engine = (Ok demo_snapshot, demo_engine)"
proof -
  have "snapshot_walk demo_env n 7 parents [] demo_engine = (Ok (demo_snapshot, []), demo_engine)"
    by (simp add: snapshot_walk_step [of demo_env n] demo_engine_def eret_def)
  moreover have "demo_engine\<lparr>e_recents := (e_recents demo_engine)(sn_Hash demo_snapshot \<mapsto> demo_snapshot)\<rparr> = demo_engine"
    by (simp add: demo_engine_def demo_snapshot_def newSnapshot_def)
  ultimately show ?thesis by (simp add: backend_snapshot_def ebind_def snapshot_apply_def eret_def)
qed

lemma demo_genesis: "genesis_state demo_env (e_config demo_engine) = Some demo_snapshot"
  by (simp add: genesis_state_def demo_extract demo_engine_def new_backend_def DefaultConfig_def demo_snapshot_def)

lemma demo_cache_ok: "cache_ok demo_env demo_engine" "genesis_ok demo_env" "headers_by_hash demo_env"
proof -
  have "replayed demo_env (e_config demo_engine) [] demo_snapshot"
    unfolding replayed_def using demo_genesis by (auto simp: stamp_def intro!: exI [of _ "vs_proposer (sn_ValSet demo_snapshot)"])
  then show "cache_ok demo_env demo_engine"
    by (auto simp: cache_ok_def demo_engine_def demo_snapshot_def newSnapshot_def split: if_splits)
  show "genesis_ok demo_env" "headers_by_hash demo_env"
    by (auto simp: genesis_ok_def headers_by_hash_def demo_extract split: if_splits)
qed

lemma demo_standalone: "n < 100 \<Longrightarrow> list_all (\<lambda>s. length s = IstanbulExtraSeal) seals \<Longrightarrow> length seals < 2 ^ 32 \<Longrightarrow>
    verify_standalone demo_env (demo_header n seals) = None"
  by (simp add: verify_standalone_def demo_extract defaultDifficulty_def)

lemma demo_accepted: "verifyHeader demo_env (demo_header 2 [demo_seal]) [] demo_engine = (Ok (), demo_engine)"
proof -
  let ?h = "demo_header 2 [demo_seal]"
  let ?x = "\<lparr>ie_Validators = [7], ie_Seal = demo_seal, ie_CommittedSeal = [demo_seal]\<rparr>"
  have l: "list_all (\<lambda>s. length s = IstanbulExtraSeal) [demo_seal]" by (simp add: demo_seal_def IstanbulExtraSeal_def)
  have n: "big_Uint64 (h_Number ?h) = 2" "pred_number ?h = 1" by (simp_all add: big_Uint64_def pred_number_def)
  have "VerifyHeader demo_env ?h demo_engine = verifyCommittedSeals demo_env ?h [] demo_engine"
    by (rule verifyHeader_run [where par = "demo_header 1 []" and w = 7 and snap = demo_snapshot])
      (use demo_standalone [of 2 "[demo_seal]"] demo_recover [of "[demo_seal]" 2] l demo_cached demo_members
        in \<open>simp_all add: n big_Uint64_def demo_engine_def new_backend_def DefaultConfig_def\<close>)
  moreover have "sealed_by_quorum demo_crypto ?h ?x (sn_ValSet demo_snapshot)"
    unfolding sealed_by_quorum_def demo_members(2,4) using demo_signed(2) by (auto intro!: exI [of _ "[7]"])
  then have "verifyCommittedSeals demo_env ?h [] demo_engine = (Ok (), demo_engine)"
    using verifyCommittedSeals_iff [of ?h demo_env "[]" demo_engine demo_snapshot demo_engine ?x demo_engine]
      demo_cached demo_extract [of "[demo_seal]" 2] l demo_members(1) n by simp
  ultimately show ?thesis by (simp add: VerifyHeader_def)
qed

lemma demo_prepared:
  "\<exists>h. Prepare demo_env (\<lambda>_. 0) (demo_header 1 []) demo_engine = (Ok h, demo_engine) \<and>
     ExtractIstanbulExtra h = Inr \<lparr>ie_Validators = [7], ie_Seal = [], ie_CommittedSeal = []\<rparr>"
proof -
  have v: "snapshot_validators demo_snapshot = [7]"
    by (simp add: snapshot_validators_def demo_snapshot_def newSnapshot_def NewSet_def newDefaultSet_def Let_def sort_from_def)
  have "extra_ok \<lparr>ie_Validators = [7], ie_Seal = [], ie_CommittedSeal = []\<rparr>" by (rule extra_ok_sizes) simp_all
  note enc = Encode_extra [OF this]
  have p: "\<exists>extra. prepareExtra h [7] = Inr extra" for h by (simp add: prepareExtra_def Let_def enc)
  have c: "e_candidates demo_engine = []" by (simp add: demo_engine_def new_backend_def)
  let ?h = "(demo_header 1 [])\<lparr>h_Coinbase := 0, h_Nonce := emptyNonce, h_MixDigest := IstanbulDigest, h_Difficulty := defaultDifficulty\<rparr>"
  obtain extra where e: "prepareExtra ?h [7] = Inr extra" using p by blast
  have "pred_number ?h = 0" "pred_number (demo_header 1 []) = 0" by (simp_all add: pred_number_def big_Uint64_def)
  then have "Prepare demo_env (\<lambda>_. 0) (demo_header 1 []) demo_engine = (Ok (?h\<lparr>h_Extra := extra\<rparr>), demo_engine)"
    by (simp add: Prepare_def Let_def ebind_def demo_cached vote_candidates_def cast_candidate_def c v e elift_def eret_def
        pred_number_def big_Uint64_def del: One_nat_def)
  then show ?thesis using prepareExtra_Ok [OF e] by auto
qed

lemma demo_updated:
  assumes "ExtractIstanbulExtra (b_header b) = Inr \<lparr>ie_Validators = [7], ie_Seal = [], ie_CommittedSeal = []\<rparr>"
  shows "\<exists>b'. updateBlock demo_env (demo_header 0 []) b demo_engine = (Ok b', demo_engine) \<and> h_Time (b_header b') = 1000"
proof -
  have x: "ExtractIstanbulExtra ((b_header b)\<lparr>h_Time := t\<rparr>) = Inr \<lparr>ie_Validators = [7], ie_Seal = [], ie_CommittedSeal = []\<rparr>" for t
    using assms Extract_cong [of "(b_header b)\<lparr>h_Time := t\<rparr>" "b_header b"] by simp
  have w: "writeSeal ((b_header b)\<lparr>h_Time := t\<rparr>) demo_seal =
      Inr (with_extra ((b_header b)\<lparr>h_Time := t\<rparr>) \<lparr>ie_Validators = [7], ie_Seal = demo_seal, ie_CommittedSeal = []\<rparr>)" for t
    using writeSeal_Ok [OF x, of demo_seal t] demo_extra_ok [of "[]"] by (simp add: demo_seal_def IstanbulExtraSeal_def)
  show ?thesis
    by (simp add: updateBlock_def Let_def backend_Sign_def demo_engine_def new_backend_def DefaultConfig_def big_Int64_small w
        ebind_def elift_def eret_def WithSeal_def)
qed

section \<open>Properties\<close>

text \<open>C8. A block this engine builds with Prepare, Finalize and updateBlock is accepted as a proposal by
  every engine that knows its parent and finds the builder among the parent's validators, once the
  block's time has come; and with the committed seals of more than 2F of these validators it passes
  the full header verification there.\<close>

theorem own_block_is_accepted:
  assumes "Prepare env pick h0 e0 = (Ok h, e1)"
    and "backend_snapshot env (pred_number h0) (h_ParentHash h0) [] e0 = (Ok snap0, e1')" "vs_Size (sn_ValSet snap0) < 2 ^ 32"
    and "b0 = Finalize env dt dr cb root h txs receipts"
    and "updateBlock env par b0 e = (Ok b, e')" "signs_as env signer"
    and "0 \<le> h_Time par" "h_Time par + int (cf_BlockPauseTime (e_config e)) < 2 ^ 63" "en_now env < 2 ^ 63"
    and "cf_BlockPeriod (e_config e) \<le> cf_BlockPauseTime (e_config e)"
    and "en_crypto env' = en_crypto env" "cf_BlockPeriod (e_config ev) = cf_BlockPeriod (e_config e)"
    and "big_Uint64 (h_Number h0) \<noteq> 0" "ch_GetHeader (en_chain env') (h_ParentHash h0) (pred_number h0) = Some par"
    and "big_Uint64 (h_Number par) = pred_number h0" "header_Hash (kec (en_crypto env')) par = h_ParentHash h0"
    and "h_Time (b_header b) \<le> en_now env'"
    and "backend_snapshot env' (pred_number h0) (h_ParentHash h0) [] ev = (Ok snap, ev)"
    and "valset_ok (en_crypto env') (sn_ValSet snap)" "signer \<in> members (sn_ValSet snap)"
  shows "backend_Verify env' b ev = (Ok (), 0, ev) \<and>
    (\<forall>seals as. list_all2 (signed_by (en_crypto env') (PrepareCommittedSeal (block_Hash (kec (en_crypto env')) b))) seals as \<and>
       distinct as \<and> set as \<subseteq> members (sn_ValSet snap) \<and> 2 * vs_F (sn_ValSet snap) < int (length seals) \<and>
       list_all (\<lambda>s. length s = IstanbulExtraSeal) seals \<and> seals \<noteq> [] \<and> length seals < 2 ^ 32 \<longrightarrow>
       (\<exists>h'. writeCommittedSeals (b_header b) seals = Inr h' \<and> VerifyHeader env' h' ev = (Ok (), ev)))"
proof -
  let ?cr = "en_crypto env'" and ?h = "b_header b"
  obtain g sig x where b: "?h = with_extra g x" and g: "built_header ?cr h0 g"
    and x: "x = \<lparr>ie_Validators = snapshot_validators snap0, ie_Seal = sig, ie_CommittedSeal = []\<rparr>"
    and t: "h_Time g = block_time env (e_config e) par b0" and sig: "length sig = IstanbulExtraSeal"
    and rec: "header_ecrecover ?cr (with_extra g x) = Inr signer"
    using built_headerI [OF assms(1-6)] unfolding assms(11) by auto
  have gf: "32 \<le> length (h_Extra g)" "h_MixDigest ?h = IstanbulDigest" "h_Number ?h = h_Number h0"
    "h_ParentHash ?h = h_ParentHash h0" "pred_number ?h = pred_number h0"
    using g by (simp_all add: b built_header_def pred_number_def)
  have ok: "extra_ok (x\<lparr>ie_CommittedSeal := seals\<rparr>)"
    if "list_all (\<lambda>s. length s = IstanbulExtraSeal) seals" "length seals < 2 ^ 32" for seals
    using extra_ok_sizes [OF Prepare_Ok(7) [OF assms(1-3)] _ that(2,1)] sig by (simp add: x IstanbulExtraSeal_def)
  have x0: "x\<lparr>ie_CommittedSeal := []\<rparr> = x" "extra_ok x" using ok [of "[]"] by (simp_all add: x)
  have ex: "ExtractIstanbulExtra ?h = Inr x" unfolding b by (rule Extract_with_extra [OF gf(1) x0(2)])
  have ver: "VerifyHeader env' (with_extra g (x\<lparr>ie_CommittedSeal := seals\<rparr>)) ev =
      verifyCommittedSeals env' (with_extra g (x\<lparr>ie_CommittedSeal := seals\<rparr>)) [] ev"
    if "extra_ok (x\<lparr>ie_CommittedSeal := seals\<rparr>)" for seals
    using block_time_late(2) [OF assms(7-10), of b0] assms(12,17) b t
    by (intro sealed_header_verifies [OF g x x0(2) that rec assms(20,13-16) _ _ assms(18)]) simp_all
  have "backend_Verify env' b ev = (Ok (), 0, ev)"
    using ver [of "[]"] x0 ex assms(13,18) gf(3-5)
    by (intro proposal_without_seals [where snap = snap and x = x]) (simp_all add: b x)
  moreover have "\<exists>h'. writeCommittedSeals ?h seals = Inr h' \<and> VerifyHeader env' h' ev = (Ok (), ev)"
    if "list_all2 (signed_by ?cr (PrepareCommittedSeal (block_Hash (kec ?cr) b))) seals as"
      "distinct as" "set as \<subseteq> members (sn_ValSet snap)" "2 * vs_F (sn_ValSet snap) < int (length seals)"
      "list_all (\<lambda>s. length s = IstanbulExtraSeal) seals" "seals \<noteq> []" "length seals < 2 ^ 32" for seals as
  proof -
    note oks = ok [OF that(5,7)]
    have "with_extra ?h (x\<lparr>ie_CommittedSeal := seals\<rparr>) = with_extra g (x\<lparr>ie_CommittedSeal := seals\<rparr>)"
      unfolding b using gf(1) by simp
    then show ?thesis
      using ver [OF oks] that(1) assms(13,18) gf(3-5)
      by (intro proposal_with_seals [OF ex gf(2) x0(2) oks that(6,5) _ that(2-4) _ _ _ assms(19)])
        (simp_all add: block_Hash_def)
  qed
  ultimately show ?thesis by blast
qed

theorem own_block_is_accepted_witness:
  "\<exists>b h'. backend_Verify demo_env b demo_engine = (Ok (), 0, demo_engine) \<and>
     writeCommittedSeals (b_header b) [demo_seal] = Inr h' \<and> VerifyHeader demo_env h' demo_engine = (Ok (), demo_engine)"
proof -
  let ?h0 = "demo_header 1 []" and ?par = "demo_header 0 []"
  have n: "big_Uint64 (h_Number ?h0) \<noteq> 0" "pred_number ?h0 = 0" by (simp_all add: big_Uint64_def pred_number_def)
  have sn: "backend_snapshot demo_env (pred_number ?h0) (h_ParentHash ?h0) [] demo_engine = (Ok demo_snapshot, demo_engine)"
    using demo_cached n(2) by simp
  obtain h where p: "Prepare demo_env (\<lambda>_. 0) ?h0 demo_engine = (Ok h, demo_engine)"
    and x: "ExtractIstanbulExtra h = Inr \<lparr>ie_Validators = [7], ie_Seal = [], ie_CommittedSeal = []\<rparr>" using demo_prepared by blast
  define b0 where "b0 = Finalize demo_env (\<lambda>_. 0) (\<lambda>_ :: unit list. 0) (\<lambda>_. []) 0 h [] []"
  have "ExtractIstanbulExtra (b_header b0) = Inr \<lparr>ie_Validators = [7], ie_Seal = [], ie_CommittedSeal = []\<rparr>"
    using x Extract_cong [OF Finalize_fields(6) [OF b0_def]] by simp
  from demo_updated [OF this] obtain b where u: "updateBlock demo_env ?par b0 demo_engine = (Ok b, demo_engine)"
    and t: "h_Time (b_header b) \<le> en_now demo_env" by auto
  have cf: "e_config demo_engine = DefaultConfig" by (simp add: demo_engine_def new_backend_def)
  have "backend_Verify demo_env b demo_engine = (Ok (), 0, demo_engine) \<and> (\<forall>seals as.
       list_all2 (signed_by (en_crypto demo_env) (PrepareCommittedSeal (block_Hash (kec (en_crypto demo_env)) b))) seals as \<and>
       distinct as \<and> set as \<subseteq> members (sn_ValSet demo_snapshot) \<and> 2 * vs_F (sn_ValSet demo_snapshot) < int (length seals) \<and>
       list_all (\<lambda>s. length s = IstanbulExtraSeal) seals \<and> seals \<noteq> [] \<and> length seals < 2 ^ 32 \<longrightarrow>
       (\<exists>h'. writeCommittedSeals (b_header b) seals = Inr h' \<and> VerifyHeader demo_env h' demo_engine = (Ok (), demo_engine)))"
    by (rule own_block_is_accepted [OF p sn _ b0_def u demo_signed(3) _ _ _ _ refl refl n(1) _ _ _ t sn])
      (simp_all add: demo_members n(2) cf DefaultConfig_def big_Uint64_def del: One_nat_def)
  then show ?thesis
    using demo_signed(2) demo_members
    by (auto simp: demo_seal_def IstanbulExtraSeal_def dest!: spec [of _ "[demo_seal]"] spec [of _ "[7]"])
qed

text \<open>C3. A header the engine accepts, with a number that is not zero modulo \<open>2 ^ 64\<close>, is certified by the
  validators of its parent: it was signed by a member of, and carries the committed seals of more than
  2F different members of, the validator set that replaying the votes of a linked chain from the genesis
  block gives at the parent. Two cases fall outside: a header whose number is zero modulo \<open>2 ^ 64\<close> is taken
  for the genesis block and accepted without a signature or seals (\<^verbatim>\<open>verifyCascadingFields\<close> returns
  early), and for number one the set is that of a replayed snapshot, but it is not tied to the parent
  hash, because the engine builds the snapshot at number zero from its own genesis block whatever hash
  it is asked for.\<close>

theorem accepted_header_is_certified:
  assumes "genesis_ok env" "headers_by_hash env" "\<And>k v m. en_recents_add env k v m \<subseteq>\<^sub>m m(k \<mapsto> v)"
    and "cache_ok env e" "verifyHeader env h parents e = (Ok u, e')" "big_Uint64 (h_Number h) \<noteq> 0"
  shows "\<exists>x hs s ks t w. ExtractIstanbulExtra h = Inr x \<and>
    replayed env (e_config e) hs s \<and> (1 < big_Uint64 (h_Number h) \<longrightarrow> sn_Hash s = h_ParentHash h) \<and>
    header_ecrecover (en_crypto env) h = Inr w \<and> w \<in> members (sn_ValSet s) \<and>
    replayed env (e_config e) ks t \<and> (1 < big_Uint64 (h_Number h) \<longrightarrow> sn_Hash t = h_ParentHash h) \<and>
    sealed_by_quorum (en_crypto env) h x (sn_ValSet t)"
proof -
  have n: "big_Uint64 (h_Number h) \<noteq> 0" "1 < big_Uint64 (h_Number h) \<longrightarrow> pred_number h \<noteq> 0"
    using assms(6) pred_number_eq [of h] by auto
  note replays = backend_snapshot_replays [OF assms(1-3)]
  obtain e1 e2 r where r: "backend_snapshot env (pred_number h) (h_ParentHash h) parents e = (Ok r, e1)"
    and sg: "verifySigner env h parents e1 = (Ok (), e2)" and cs: "verifyCommittedSeals env h parents e2 = (Ok (), e')"
    using verifyHeader_Ok [OF assms(5) n(1)] by blast
  obtain s w where s: "backend_snapshot env (pred_number h) (h_ParentHash h) parents e1 = (Ok s, e2)"
    "header_ecrecover (en_crypto env) h = Inr w" "w \<in> members (sn_ValSet s)" using verifySigner_Ok [OF sg] by blast
  obtain t x where t: "backend_snapshot env (pred_number h) (h_ParentHash h) parents e2 = (Ok t, e')"
    "ExtractIstanbulExtra h = Inr x" using verifyCommittedSeals_Ok [OF cs n(1)] by blast
  note r1 = replays [OF assms(4) r]
  note r2 = replays [OF r1(3) s(1)]
  note r3 = replays [OF r2(3) t(1)]
  obtain hs ks where hs: "replayed env (e_config e) hs s" "replayed env (e_config e) ks t"
    using r1(4) r2(1,4) r3(1) by auto
  have "valset_ok (en_crypto env) (sn_ValSet t)" using replayed_snap_ok [OF assms(1) hs(2)] by (simp add: snap_ok_def)
  from verifyCommittedSeals_iff [OF n(1) t this] cs
  have "sealed_by_quorum (en_crypto env) h x (sn_ValSet t)" by blast
  then show ?thesis using hs s(2,3) t(2) r2(2) r3(2) n(2) by blast
qed

theorem accepted_header_is_certified_witness:
  "\<exists>x ks t. ExtractIstanbulExtra (demo_header 2 [demo_seal]) = Inr x \<and>
     replayed demo_env (e_config demo_engine) ks t \<and> sn_Hash t = 7 \<and>
     sealed_by_quorum demo_crypto (demo_header 2 [demo_seal]) x (sn_ValSet t)"
proof -
  have n: "big_Uint64 (h_Number (demo_header 2 [demo_seal])) \<noteq> 0" "1 < big_Uint64 (h_Number (demo_header 2 [demo_seal]))"
    by (simp_all add: big_Uint64_def)
  from accepted_header_is_certified [OF demo_cache_ok(2,3) _ demo_cache_ok(1) demo_accepted n(1)] n(2)
  show ?thesis by auto
qed

text \<open>C7. Whichever cached snapshot the engine starts from, the snapshot it returns for a block is the one
  that applying the votes of a linked chain of headers, in one pass, to the genesis snapshot gives (up
  to the proposer, which the core moves), it belongs to the requested block, and what the engine puts
  into its cache has the same property.\<close>

theorem snapshot_is_replay:
  assumes "genesis_ok env" "headers_by_hash env" "\<And>k v m. en_recents_add env k v m \<subseteq>\<^sub>m m(k \<mapsto> v)"
    and "cache_ok env e" "backend_snapshot env number hash parents e = (Ok s, e')"
  shows "(\<exists>hs. replayed env (e_config e) hs s) \<and> (number \<noteq> 0 \<longrightarrow> sn_Hash s = hash) \<and>
    snap_ok (en_crypto env) s \<and> cache_ok env e'"
  using backend_snapshot_replays [OF assms] replayed_snap_ok [OF assms(1)] by blast

theorem snapshot_is_replay_witness:
  "\<exists>s e' hs. backend_snapshot demo_env 1 7 [] demo_engine = (Ok s, e') \<and>
     replayed demo_env (e_config demo_engine) hs s \<and> sn_Hash s = 7 \<and> cache_ok demo_env e'"
  using snapshot_is_replay [OF demo_cache_ok(2,3) _ demo_cache_ok(1) demo_cached [of 1 "[]"]] demo_cached by fastforce

text \<open>C34. Without a snapshot in memory the engine walks back over every header to the genesis block,
  whatever checkpoints its database holds: a stored snapshot cannot be loaded again, since its validator
  set is an interface value the JSON decoder cannot fill.\<close>

theorem checkpoints_are_never_used:
  assumes "e_recents e = Map.empty" "snapshot_walk env number hash parents [] e = (Ok (s, headers), e')"
  shows "length headers = number \<and> genesis_state env (e_config e) = Some s"
  using snapshot_walk_all_headers [OF assms] by simp

theorem checkpoints_are_never_used_witness:
  "\<exists>s headers e'. snapshot_walk demo_env 3 7 [] [] (new_backend DefaultConfig 7 Map.empty) = (Ok (s, headers), e') \<and> length headers = 3"
proof -
  let ?e = "new_backend DefaultConfig 7 Map.empty"
  have r: "e_recents ?e = Map.empty" by (simp add: new_backend_def)
  have g: "\<exists>e'. genesis_snapshot demo_env ?e = (Ok demo_snapshot, e')"
    using demo_standalone [of 0 "[]"]
    by (simp add: genesis_snapshot_def demo_extract ebind_def echeck_def elift_def eret_def snapshot_store_def
        Let_def new_backend_def DefaultConfig_def demo_snapshot_def)
  have "\<exists>s headers e'. snapshot_walk demo_env n 7 [] acc ?e = (Ok (s, headers), e')" if "n < 1000" for n acc
    using that
  proof (induction n arbitrary: acc)
    case 0
    then show ?case using g by (auto simp: snapshot_walk_step [of demo_env 0] r ebind_def eret_def)
  next
    case (Suc n)
    then show ?case by (simp add: snapshot_walk_step [of demo_env "Suc n"] r parent_header_def)
  qed
  from this [of 3 "[]"] obtain s headers e' where w: "snapshot_walk demo_env 3 7 [] [] ?e = (Ok (s, headers), e')" by auto
  with checkpoints_are_never_used [OF r w] show ?thesis by blast
qed

text \<open>C15. Writing committed seals into a header makes exactly these seals readable and changes neither the
  block hash nor the hash the proposer signed.\<close>

theorem committed_seals_round_trip:
  assumes "ExtractIstanbulExtra h = Inr x" "extra_ok x" "extra_ok (x\<lparr>ie_CommittedSeal := seals\<rparr>)"
    and "seals \<noteq> []" "list_all (\<lambda>s. length s = IstanbulExtraSeal) seals" "h_MixDigest h = IstanbulDigest"
  shows "\<exists>h'. writeCommittedSeals h seals = Inr h' \<and> ExtractIstanbulExtra h' = Inr (x\<lparr>ie_CommittedSeal := seals\<rparr>) \<and>
    header_Hash k h' = header_Hash k h \<and> sigHash cr h' = sigHash cr h"
proof -
  let ?y = "x\<lparr>ie_CommittedSeal := seals\<rparr>"
  have "header_Hash k (with_extra h ?y) = header_Hash k h" "sigHash cr (with_extra h ?y) = sigHash cr h"
    using assms(6) by (auto intro!: hashes_ignore_seals [OF assms(1-3)] simp: strip_seals_def)
  moreover have "ExtractIstanbulExtra (with_extra h ?y) = Inr ?y"
    using Extract_with [OF assms(1)] Extract_with_extra [OF _ assms(3)] by blast
  ultimately show ?thesis using writeCommittedSeals_Ok [OF assms(1,3,4,5)] by blast
qed

theorem committed_seals_round_trip_witness:
  "\<exists>h'. writeCommittedSeals (demo_header 1 []) [demo_seal] = Inr h' \<and>
     ExtractIstanbulExtra h' = Inr \<lparr>ie_Validators = [7], ie_Seal = demo_seal, ie_CommittedSeal = [demo_seal]\<rparr>"
proof -
  let ?x = "\<lparr>ie_Validators = [7], ie_Seal = demo_seal, ie_CommittedSeal = []\<rparr>"
  have l: "list_all (\<lambda>s. length s = IstanbulExtraSeal) [demo_seal]" by (simp add: demo_seal_def IstanbulExtraSeal_def)
  have "ExtractIstanbulExtra (demo_header 1 []) = Inr ?x" "extra_ok ?x" "extra_ok (?x\<lparr>ie_CommittedSeal := [demo_seal]\<rparr>)"
    using demo_extract [of "[]" 1] demo_extra_ok [of "[]"] demo_extra_ok [of "[demo_seal]"] l by simp_all
  from committed_seals_round_trip [OF this _ l] show ?thesis by auto
qed

text \<open>A message from a peer is handed to the core the first time it arrives and dropped when any peer
  sends it again, and the engine does not gossip it back to the peer it came from, as long as the
  caches remember it.\<close>

theorem message_is_handled_once:
  assumes "remembers env" "e_coreStarted e" "msg_Decode content decodeByteSlice = Inr data"
    and "HandleMsg env addr istanbulMsg content e = (r, e1)"
  shows "(e_knownMessages e (RLPHash (en_crypto env) (bytes_rval data)) = None \<longrightarrow> r = (True, None, [PostMessageEvent data])) \<and>
    fst (HandleMsg env addr' istanbulMsg content e1) = (True, None, []) \<and>
    SendPeer addr data \<notin> set (fst (backend_Gossip env valSet data e1))"
proof -
  let ?h = "RLPHash (en_crypto env) (bytes_rval data)"
  let ?m = "case e_recentMessages e addr of Some ms \<Rightarrow> ms | None \<Rightarrow> Map.empty"
  have add: "en_peer_add env a m' r b = (if b = a then Some m' else r b)" "en_known_add env h m' h \<noteq> None" for a m' r b h
    using assms(1) unfolding remembers_def by blast+
  have e1: "e_recentMessages e1 addr = Some (en_known_add env ?h ?m)" "e_knownMessages e1 ?h \<noteq> None" "e_coreStarted e1"
    using assms(2-4) add by (auto simp: HandleMsg_def Let_def split: if_splits)
  have "e_knownMessages e ?h = None \<longrightarrow> r = (True, None, [PostMessageEvent data])"
    using assms(2-4) by (auto simp: HandleMsg_def Let_def split: if_splits)
  moreover have "fst (HandleMsg env addr' istanbulMsg content e1) = (True, None, [])"
    using assms(3) e1(2,3) by (simp add: HandleMsg_def Let_def)
  moreover have "SendPeer addr data \<notin> set (fst (backend_Gossip env valSet data e1))"
  proof (cases "en_peers env")
    case (Some find)
    let ?e2 = "e1\<lparr>e_knownMessages := en_known_add env ?h (e_knownMessages e1)\<rparr>"
    have rm: "e_recentMessages ?e2 addr = Some (en_known_add env ?h ?m)" using e1(1) by simp
    obtain out e3 where f: "fold (gossip_peer env ?h data)
        (find (filter (\<lambda>a. a \<noteq> e_address e1) (vs_validators valSet))) ([], ?e2) = (out, e3)" by fastforce
    from gossip_peer_skips [OF assms(1) rm add(2) _ f] show ?thesis
      by (simp add: backend_Gossip_def Let_def Some f)
  qed (simp add: backend_Gossip_def Let_def)
  ultimately show ?thesis by blast
qed

theorem message_is_handled_once_witness:
  "\<exists>e1. HandleMsg demo_env 5 istanbulMsg [5] (demo_engine\<lparr>e_coreStarted := True\<rparr>) = ((True, None, [PostMessageEvent [5]]), e1) \<and>
     fst (HandleMsg demo_env 6 istanbulMsg [5] e1) = (True, None, [])"
proof -
  let ?e = "demo_engine\<lparr>e_coreStarted := True\<rparr>"
  have d: "msg_Decode [5] decodeByteSlice = Inr [5]" by code_simp
  obtain r e1 where h: "HandleMsg demo_env 5 istanbulMsg [5] ?e = (r, e1)" by fastforce
  have k: "e_knownMessages ?e h = None" "e_coreStarted ?e" for h by (simp_all add: demo_engine_def new_backend_def)
  from message_is_handled_once [OF demo_env_fields(8) k(2) d h, of 6] k(1) h show ?thesis by auto
qed

end
