(* ===== verification/Chain_Config.thy ===== *)
theory Chain_Config
  imports Go_Prelude
begin

text \<open>
  The chain configuration (\<^verbatim>\<open>src/params/config.go\<close>): which protocol changes are active at a block,
  and whether a stored configuration may be replaced by another. A block number is an \<^verbatim>\<open>int\<close>, a nil
  pointer is \<^verbatim>\<open>None\<close>. The configurations of the consensus engines are left out; no function here reads
  them.
\<close>

section \<open>The configuration\<close>

record chain_config =
  cc_ChainId :: "int option"
  cc_HomesteadBlock :: "int option"
  cc_DAOForkBlock :: "int option"
  cc_DAOForkSupport :: bool
  cc_EIP150Block :: "int option"
  cc_EIP155Block :: "int option"
  cc_EIP158Block :: "int option"
  cc_ByzantiumBlock :: "int option"
  cc_IsBitmed :: bool

fun isForked :: "int option \<Rightarrow> int option \<Rightarrow> bool" where
  "isForked (Some s) (Some head) \<longleftrightarrow> s \<le> head"
| "isForked _ _ \<longleftrightarrow> False"

fun configNumEqual :: "int option \<Rightarrow> int option \<Rightarrow> bool" where
  "configNumEqual None y \<longleftrightarrow> y = None"
| "configNumEqual (Some x) None \<longleftrightarrow> False"
| "configNumEqual (Some x) (Some y) \<longleftrightarrow> big_Cmp x y = 0"

definition isForkIncompatible :: "int option \<Rightarrow> int option \<Rightarrow> int option \<Rightarrow> bool" where
  "isForkIncompatible s1 s2 head \<longleftrightarrow> (isForked s1 head \<or> isForked s2 head) \<and> \<not> configNumEqual s1 s2"

definition IsHomestead :: "chain_config \<Rightarrow> int option \<Rightarrow> bool" where
  "IsHomestead c num = isForked (cc_HomesteadBlock c) num"

definition IsDAOFork :: "chain_config \<Rightarrow> int option \<Rightarrow> bool" where
  "IsDAOFork c num = isForked (cc_DAOForkBlock c) num"

definition IsEIP150 :: "chain_config \<Rightarrow> int option \<Rightarrow> bool" where
  "IsEIP150 c num = isForked (cc_EIP150Block c) num"

definition IsEIP155 :: "chain_config \<Rightarrow> int option \<Rightarrow> bool" where
  "IsEIP155 c num = isForked (cc_EIP155Block c) num"

definition IsEIP158 :: "chain_config \<Rightarrow> int option \<Rightarrow> bool" where
  "IsEIP158 c num = isForked (cc_EIP158Block c) num"

definition IsByzantium :: "chain_config \<Rightarrow> int option \<Rightarrow> bool" where
  "IsByzantium c num = isForked (cc_ByzantiumBlock c) num"

section \<open>Gas tables\<close>

record gas_table =
  gt_ExtcodeSize :: nat
  gt_ExtcodeCopy :: nat
  gt_Balance :: nat
  gt_SLoad :: nat
  gt_Calls :: nat
  gt_Suicide :: nat
  gt_ExpByte :: nat
  gt_CreateBySuicide :: nat

definition GasTableHomestead :: gas_table where
  "GasTableHomestead = \<lparr>gt_ExtcodeSize = 20, gt_ExtcodeCopy = 20, gt_Balance = 20, gt_SLoad = 50,
     gt_Calls = 40, gt_Suicide = 0, gt_ExpByte = 10, gt_CreateBySuicide = 0\<rparr>"

definition GasTableEIP150 :: gas_table where
  "GasTableEIP150 = \<lparr>gt_ExtcodeSize = 700, gt_ExtcodeCopy = 700, gt_Balance = 400, gt_SLoad = 200,
     gt_Calls = 700, gt_Suicide = 5000, gt_ExpByte = 10, gt_CreateBySuicide = 25000\<rparr>"

definition GasTableEIP158 :: gas_table where
  "GasTableEIP158 = \<lparr>gt_ExtcodeSize = 700, gt_ExtcodeCopy = 700, gt_Balance = 400, gt_SLoad = 200,
     gt_Calls = 700, gt_Suicide = 5000, gt_ExpByte = 50, gt_CreateBySuicide = 25000\<rparr>"

definition config_GasTable :: "chain_config \<Rightarrow> int option \<Rightarrow> gas_table" where
  "config_GasTable c num =
     (if num = None then GasTableHomestead
      else if IsEIP158 c num then GasTableEIP158
      else if IsEIP150 c num then GasTableEIP150
      else GasTableHomestead)"

record rules =
  ru_ChainId :: int
  ru_IsHomestead :: bool
  ru_IsEIP150 :: bool
  ru_IsEIP155 :: bool
  ru_IsEIP158 :: bool
  ru_IsByzantium :: bool

definition config_Rules :: "chain_config \<Rightarrow> int option \<Rightarrow> rules" where
  "config_Rules c num =
     \<lparr>ru_ChainId = (case cc_ChainId c of None \<Rightarrow> 0 | Some i \<Rightarrow> i), ru_IsHomestead = IsHomestead c num,
      ru_IsEIP150 = IsEIP150 c num, ru_IsEIP155 = IsEIP155 c num, ru_IsEIP158 = IsEIP158 c num,
      ru_IsByzantium = IsByzantium c num\<rparr>"

section \<open>Compatibility of two configurations\<close>

record compat_error =
  ce_What :: string
  ce_StoredConfig :: "int option"
  ce_NewConfig :: "int option"
  ce_RewindTo :: nat

text \<open>\<^verbatim>\<open>rew.Uint64() - 1\<close> on a positive number is taken modulo \<open>2 ^ 64\<close>.\<close>

definition rewind_block :: "int option \<Rightarrow> int option \<Rightarrow> int option" where
  "rewind_block storedblock newblock =
     (case storedblock of
        None \<Rightarrow> newblock
      | Some s \<Rightarrow> (case newblock of None \<Rightarrow> Some s | Some n \<Rightarrow> if s < n then Some s else Some n))"

definition newCompatError :: "string \<Rightarrow> int option \<Rightarrow> int option \<Rightarrow> compat_error" where
  "newCompatError what storedblock newblock =
     \<lparr>ce_What = what, ce_StoredConfig = storedblock, ce_NewConfig = newblock,
      ce_RewindTo =
        (case rewind_block storedblock newblock of
           None \<Rightarrow> 0
         | Some rew \<Rightarrow> if rew > 0 then (big_Uint64 rew + 2 ^ 64 - 1) mod 2 ^ 64 else 0)\<rparr>"

definition checkCompatible :: "chain_config \<Rightarrow> chain_config \<Rightarrow> nat \<Rightarrow> compat_error option" where
  "checkCompatible c newcfg h =
     (let head = Some (int h) in
      if isForkIncompatible (cc_HomesteadBlock c) (cc_HomesteadBlock newcfg) head
      then Some (newCompatError ''Homestead fork block'' (cc_HomesteadBlock c) (cc_HomesteadBlock newcfg))
      else if isForkIncompatible (cc_DAOForkBlock c) (cc_DAOForkBlock newcfg) head
      then Some (newCompatError ''DAO fork block'' (cc_DAOForkBlock c) (cc_DAOForkBlock newcfg))
      else if IsDAOFork c head \<and> cc_DAOForkSupport c \<noteq> cc_DAOForkSupport newcfg
      then Some (newCompatError ''DAO fork support flag'' (cc_DAOForkBlock c) (cc_DAOForkBlock newcfg))
      else if isForkIncompatible (cc_EIP150Block c) (cc_EIP150Block newcfg) head
      then Some (newCompatError ''EIP150 fork block'' (cc_EIP150Block c) (cc_EIP150Block newcfg))
      else if isForkIncompatible (cc_EIP155Block c) (cc_EIP155Block newcfg) head
      then Some (newCompatError ''EIP155 fork block'' (cc_EIP155Block c) (cc_EIP155Block newcfg))
      else if isForkIncompatible (cc_EIP158Block c) (cc_EIP158Block newcfg) head
      then Some (newCompatError ''EIP158 fork block'' (cc_EIP158Block c) (cc_EIP158Block newcfg))
      else if IsEIP158 c head \<and> \<not> configNumEqual (cc_ChainId c) (cc_ChainId newcfg)
      then Some (newCompatError ''EIP158 chain ID'' (cc_EIP158Block c) (cc_EIP158Block newcfg))
      else if isForkIncompatible (cc_ByzantiumBlock c) (cc_ByzantiumBlock newcfg) head
      then Some (newCompatError ''Byzantium fork block'' (cc_ByzantiumBlock c) (cc_ByzantiumBlock newcfg))
      else None)"

text \<open>The loop of \<^verbatim>\<open>CheckCompatible\<close> repeats the check at the block before the conflict. It has no bound of
  its own: it ends because every conflict lies at or below the head it was found at.\<close>

lemma configNumEqual_iff [simp]: "configNumEqual x y \<longleftrightarrow> x = y"
  by (cases x; cases y) auto

lemma newCompatError_RewindTo:
  assumes "isForked s1 (Some (int h)) \<or> isForked s2 (Some (int h))" "h < 2 ^ 64"
  shows "ce_RewindTo (newCompatError w s1 s2) = (case rewind_block s1 s2 of None \<Rightarrow> 0 | Some r \<Rightarrow> nat (r - 1))"
    "ce_RewindTo (newCompatError w s1 s2) \<le> h - 1"
    "\<not> isForked s1 (Some (int (ce_RewindTo (newCompatError w s1 s2)))) \<and> \<not> isForked s2 (Some (int (ce_RewindTo (newCompatError w s1 s2)))) \<or>
       ce_RewindTo (newCompatError w s1 s2) = 0"
proof -
  have "\<exists>r. rewind_block s1 s2 = Some r \<and> r \<le> int h \<and> (\<forall>s. s1 = Some s \<longrightarrow> r \<le> s) \<and> (\<forall>s. s2 = Some s \<longrightarrow> r \<le> s)"
    using assms(1) by (cases s1; cases s2) (auto simp: rewind_block_def)
  then obtain r where r: "rewind_block s1 s2 = Some r" "r \<le> int h" "\<And>s. s1 = Some s \<Longrightarrow> r \<le> s" "\<And>s. s2 = Some s \<Longrightarrow> r \<le> s"
    by blast
  have "ce_RewindTo (newCompatError w s1 s2) = nat (r - 1)"
  proof (cases "r > 0")
    case True
    then have "big_Uint64 r = nat r" "nat r < 2 ^ 64" using r(2) assms(2) by (auto intro!: big_Uint64_small)
    moreover have "nat r + 2 ^ 64 - 1 = nat (r - 1) + 2 ^ 64" using True by simp
    ultimately show ?thesis using r(1) True by (simp add: newCompatError_def)
  qed (simp add: newCompatError_def r(1))
  then show eq: "ce_RewindTo (newCompatError w s1 s2) = (case rewind_block s1 s2 of None \<Rightarrow> 0 | Some r \<Rightarrow> nat (r - 1))"
    by (simp add: r(1))
  then show "ce_RewindTo (newCompatError w s1 s2) \<le> h - 1" using r(1,2) by simp
  show "\<not> isForked s1 (Some (int (ce_RewindTo (newCompatError w s1 s2)))) \<and> \<not> isForked s2 (Some (int (ce_RewindTo (newCompatError w s1 s2)))) \<or>
       ce_RewindTo (newCompatError w s1 s2) = 0"
    unfolding eq r(1) using r(3,4) by (cases s1; cases s2) fastforce+
qed

lemma checkCompatible_Some:
  assumes "checkCompatible c newcfg h = Some err"
  shows "\<exists>w s1 s2. err = newCompatError w s1 s2 \<and> (isForked s1 (Some (int h)) \<or> isForked s2 (Some (int h)))"
  using assms
  by (auto simp: checkCompatible_def Let_def isForkIncompatible_def IsDAOFork_def IsEIP158_def split: if_splits)

lemma RewindTo_less: "ce_RewindTo (newCompatError w s1 s2) < 2 ^ 64"
  by (simp add: newCompatError_def split: option.split)

lemma checkCompatible_RewindTo:
  assumes "checkCompatible c newcfg h = Some err"
  shows "ce_RewindTo err < h \<or> ce_RewindTo err = 0"
proof -
  obtain w s1 s2 where e: "err = newCompatError w s1 s2" "isForked s1 (Some (int h)) \<or> isForked s2 (Some (int h))"
    using checkCompatible_Some [OF assms] by blast
  show ?thesis
  proof (cases "h < 2 ^ 64")
    case True
    with newCompatError_RewindTo(2) [OF e(2) this, of w] show ?thesis unfolding e(1) by linarith
  next
    case False
    with RewindTo_less [of w s1 s2] show ?thesis unfolding e(1) by linarith
  qed
qed

function (sequential) compat_loop :: "chain_config \<Rightarrow> chain_config \<Rightarrow> compat_error option \<Rightarrow> nat \<Rightarrow> compat_error option" where
  "compat_loop c newcfg lasterr bhead =
     (case checkCompatible c newcfg bhead of
        None \<Rightarrow> lasterr
      | Some err \<Rightarrow>
          if (case lasterr of None \<Rightarrow> False | Some l \<Rightarrow> ce_RewindTo err = ce_RewindTo l) then lasterr
          else compat_loop c newcfg (Some err) (ce_RewindTo err))"
  by pat_completeness auto

definition loop_measure :: "compat_error option \<Rightarrow> nat \<Rightarrow> nat" where
  "loop_measure lasterr bhead =
     2 * bhead + (case lasterr of None \<Rightarrow> 1 | Some l \<Rightarrow> if ce_RewindTo l = bhead then 0 else 1)"

termination compat_loop
proof (relation "measure (\<lambda>(c, newcfg, lasterr, bhead). loop_measure lasterr bhead)")
  fix c newcfg :: chain_config and lasterr :: "compat_error option" and bhead :: nat and err :: compat_error
  assume err: "checkCompatible c newcfg bhead = Some err"
    and ne: "\<not> (case lasterr of None \<Rightarrow> False | Some l \<Rightarrow> ce_RewindTo err = ce_RewindTo l)"
  from checkCompatible_RewindTo [OF err] ne
  show "((c, newcfg, Some err, ce_RewindTo err), (c, newcfg, lasterr, bhead))
      \<in> measure (\<lambda>(c, newcfg, lasterr, bhead). loop_measure lasterr bhead)"
    by (auto simp: loop_measure_def split: option.splits)
qed simp

declare compat_loop.simps [simp del]

definition CheckCompatible :: "chain_config \<Rightarrow> chain_config \<Rightarrow> nat \<Rightarrow> compat_error option" where
  "CheckCompatible c newcfg height = compat_loop c newcfg None height"

lemma compat_loop_lowest:
  assumes "ce_RewindTo l = bhead"
  shows "\<exists>err. compat_loop c newcfg (Some l) bhead = Some err \<and> ce_RewindTo err \<le> bhead \<and>
    (checkCompatible c newcfg (ce_RewindTo err) = None \<or> ce_RewindTo err = 0)"
  using assms
proof (induction bhead arbitrary: l rule: less_induct)
  case (less bhead)
  show ?case
  proof (cases "checkCompatible c newcfg bhead")
    case None
    then show ?thesis using less.prems by (simp add: compat_loop.simps [of c newcfg "Some l"])
  next
    case (Some err)
    show ?thesis
    proof (cases "ce_RewindTo err = ce_RewindTo l")
      case True
      then have "compat_loop c newcfg (Some l) bhead = Some l"
        by (simp add: compat_loop.simps [of c newcfg "Some l"] Some)
      then show ?thesis using checkCompatible_RewindTo [OF Some] True less.prems by auto
    next
      case False
      then have lt: "ce_RewindTo err < bhead" using checkCompatible_RewindTo [OF Some] less.prems by auto
      have "compat_loop c newcfg (Some l) bhead = compat_loop c newcfg (Some err) (ce_RewindTo err)"
        using False by (simp add: compat_loop.simps [of c newcfg "Some l"] Some)
      with less.IH [OF lt, of err] lt show ?thesis by (auto intro: order_trans)
    qed
  qed
qed

section \<open>Properties\<close>

text \<open>C25. The search for the lowest conflict of two configurations ends. It finds no conflict exactly when
  the configurations agree on everything active at the current height; otherwise the block it asks to
  rewind to lies below the height, and there, unless it is the genesis block, the configurations agree.\<close>

theorem rewind_resolves_conflict:
  "(CheckCompatible c newcfg height = None \<longleftrightarrow> checkCompatible c newcfg height = None) \<and>
   (\<forall>err. CheckCompatible c newcfg height = Some err \<longrightarrow>
      (ce_RewindTo err < height \<or> ce_RewindTo err = 0) \<and>
      (checkCompatible c newcfg (ce_RewindTo err) = None \<or> ce_RewindTo err = 0))"
proof (cases "checkCompatible c newcfg height")
  case None
  then show ?thesis by (simp add: CheckCompatible_def compat_loop.simps [of c newcfg None])
next
  case (Some err)
  then have "CheckCompatible c newcfg height = compat_loop c newcfg (Some err) (ce_RewindTo err)"
    by (simp add: CheckCompatible_def compat_loop.simps [of c newcfg None])
  with compat_loop_lowest [OF refl, of c newcfg err] checkCompatible_RewindTo [OF Some] Some show ?thesis by fastforce
qed

definition homestead_at :: "int \<Rightarrow> int \<Rightarrow> chain_config" where
  "homestead_at h d = \<lparr>cc_ChainId = Some 5, cc_HomesteadBlock = Some h, cc_DAOForkBlock = Some d,
     cc_DAOForkSupport = True, cc_EIP150Block = None, cc_EIP155Block = None, cc_EIP158Block = None,
     cc_ByzantiumBlock = None, cc_IsBitmed = False\<rparr>"

theorem rewind_resolves_conflict_witness:
  "\<exists>err. CheckCompatible (homestead_at 20 10) (homestead_at 30 11) 40 = Some err \<and> ce_RewindTo err < 40 \<and>
     (checkCompatible (homestead_at 20 10) (homestead_at 30 11) (ce_RewindTo err) = None \<or> ce_RewindTo err = 0)"
proof -
  have "checkCompatible (homestead_at 20 10) (homestead_at 30 11) 40 \<noteq> None"
    by (simp add: checkCompatible_def homestead_at_def isForkIncompatible_def Let_def)
  with rewind_resolves_conflict [of "homestead_at 20 10" "homestead_at 30 11" 40] show ?thesis
    by (cases "CheckCompatible (homestead_at 20 10) (homestead_at 30 11) 40") auto
qed

end
