(* ===== verification/Tx_Signing.thy ===== *)
theory Tx_Signing
  imports Validator_Set Go_Heap Chain_Config
begin

text \<open>
  Transaction signatures (\<^verbatim>\<open>src/core/types/transaction_signing.go\<close>), the private marker in \<^verbatim>\<open>V\<close>, and
  the transaction set ordered by price and nonce (\<^verbatim>\<open>src/core/types/transaction.go\<close>).

  \<^item> A transaction is its \<open>txdata\<close>. The caches of hash, size and sender are left out, except in
    \<open>Sender\<close>, which shows how the cached sender is used.
  \<^item> The key recovery of secp256k1 is the field \<open>ecrecover\<close> of \<open>crypto\<close>, signing is the argument \<open>sign\<close>.
\<close>

section \<open>Building transactions\<close>

definition newTransaction ::
  "nat \<Rightarrow> address option \<Rightarrow> int option \<Rightarrow> int option \<Rightarrow> int option \<Rightarrow> bytes \<Rightarrow> txdata" where
  "newTransaction nonce to amount gasLimit gasPrice data =
     \<lparr>td_AccountNonce = nonce, td_Price = (case gasPrice of None \<Rightarrow> 0 | Some p \<Rightarrow> p),
      td_GasLimit = (case gasLimit of None \<Rightarrow> 0 | Some g \<Rightarrow> g), td_Recipient = to,
      td_Amount = (case amount of None \<Rightarrow> 0 | Some a \<Rightarrow> a), td_Payload = data, td_V = 0, td_R = 0, td_S = 0\<rparr>"

definition NewTransaction :: "nat \<Rightarrow> address \<Rightarrow> int option \<Rightarrow> int option \<Rightarrow> int option \<Rightarrow> bytes \<Rightarrow> txdata" where
  "NewTransaction nonce to amount gasLimit gasPrice data =
     newTransaction nonce (Some to) amount gasLimit gasPrice data"

definition NewContractCreation :: "nat \<Rightarrow> int option \<Rightarrow> int option \<Rightarrow> int option \<Rightarrow> bytes \<Rightarrow> txdata" where
  "NewContractCreation nonce amount gasLimit gasPrice data =
     newTransaction nonce None amount gasLimit gasPrice data"

section \<open>The signature value V\<close>

fun nat_BitLen :: "nat \<Rightarrow> nat" where
  "nat_BitLen n = (if n = 0 then 0 else Suc (nat_BitLen (n div 2)))"

declare nat_BitLen.simps [simp del]

definition big_BitLen :: "int \<Rightarrow> nat" where
  "big_BitLen i = nat_BitLen (nat \<bar>i\<bar>)"

definition deriveChainId :: "int \<Rightarrow> int" where
  "deriveChainId v =
     (if big_BitLen v \<le> 64 then
        (let v1 = big_Uint64 v
         in if v1 = 27 \<or> v1 = 28 then 0 else int ((v1 + 2 ^ 64 - 35) mod 2 ^ 64 div 2))
      else (v - 35) div 2)"

definition isProtectedV :: "int \<Rightarrow> bool" where
  "isProtectedV V \<longleftrightarrow>
     (if big_BitLen V \<le> 8
      then (let v = big_Uint64 V in \<not> (v = 27 \<or> v = 28 \<or> v = 37 \<or> v = 38))
      else True)"

definition tx_ChainId :: "txdata \<Rightarrow> int" where
  "tx_ChainId tx = deriveChainId (td_V tx)"

definition tx_Protected :: "txdata \<Rightarrow> bool" where
  "tx_Protected tx = isProtectedV (td_V tx)"

definition IsPrivate :: "txdata \<Rightarrow> bool" where
  "IsPrivate tx \<longleftrightarrow> big_Uint64 (td_V tx) = 37 \<or> big_Uint64 (td_V tx) = 38"

definition SetPrivate :: "txdata \<Rightarrow> txdata" where
  "SetPrivate tx = (if big_Int64 (td_V tx) = 28 then tx\<lparr>td_V := 38\<rparr> else tx\<lparr>td_V := 37\<rparr>)"

section \<open>Signature checks\<close>

definition secp256k1_N :: int where
  "secp256k1_N = 0xfffffffffffffffffffffffffffffffebaaedce6af48a03bbfd25e8cd0364141"

definition secp256k1_halfN :: int where
  "secp256k1_halfN = secp256k1_N div 2"

definition ValidateSignatureValues :: "byte \<Rightarrow> int \<Rightarrow> int \<Rightarrow> bool \<Rightarrow> bool" where
  "ValidateSignatureValues v r s homestead \<longleftrightarrow>
     (if r < 1 \<or> s < 1 then False
      else if homestead \<and> s > secp256k1_halfN then False
      else r < secp256k1_N \<and> s < secp256k1_N \<and> (v = 0 \<or> v = 1 \<or> v = 10 \<or> v = 11))"

datatype tx_error = ErrInvalidChainId | ErrInvalidSig | ErrRecoverKey | ErrInvalidPublicKey | ErrSignTx

definition recoverPlain :: "crypto \<Rightarrow> hash \<Rightarrow> int \<Rightarrow> int \<Rightarrow> int \<Rightarrow> bool \<Rightarrow> bool \<Rightarrow> tx_error + address" where
  "recoverPlain cr sighash R S Vb homestead isPrivate =
     (if big_BitLen Vb > 8 then Inl ErrInvalidSig
      else
        (let offset = (if isPrivate then 37 else 27);
             V = (of_nat ((big_Uint64 Vb + 2 ^ 64 - offset) mod 2 ^ 64) :: byte)
         in if \<not> ValidateSignatureValues V R S homestead then Inl ErrInvalidSig
            else
              (let r = min_be (nat R); s = min_be (nat S);
                   sig = replicate (32 - length r) 0 @ r @ replicate (32 - length s) 0 @ s @ [V]
               in case ecrecover cr sighash sig of
                    None \<Rightarrow> Inl ErrRecoverKey
                  | Some pub \<Rightarrow>
                      if pub = [] \<or> hd pub \<noteq> 4 then Inl ErrInvalidPublicKey
                      else Inr (addr_of_bytes (drop 12 (hash_bytes (kec cr (tl pub))))))))"

text \<open>\<^verbatim>\<open>UnmarshalJSON\<close> checks the signature values of the fields it has read.\<close>

definition json_signature_ok :: "txdata \<Rightarrow> bool" where
  "json_signature_ok dec =
     (let V = (if isProtectedV (td_V dec)
               then (let chainId = big_Uint64 (deriveChainId (td_V dec))
                     in (of_int (int (big_Uint64 (td_V dec)) - 35 - 2 * int chainId) :: byte))
               else of_int (int (big_Uint64 (td_V dec)) - 27))
      in ValidateSignatureValues V (td_R dec) (td_S dec) False)"

section \<open>Signers\<close>

datatype signer = EIP155Signer int | HomesteadSigner | FrontierSigner

definition NewEIP155Signer :: "int option \<Rightarrow> signer" where
  "NewEIP155Signer chainId = EIP155Signer (case chainId of None \<Rightarrow> 0 | Some c \<Rightarrow> c)"

fun signer_Equal :: "signer \<Rightarrow> signer \<Rightarrow> bool" where
  "signer_Equal (EIP155Signer c) (EIP155Signer c') \<longleftrightarrow> big_Cmp c' c = 0"
| "signer_Equal HomesteadSigner HomesteadSigner \<longleftrightarrow> True"
| "signer_Equal FrontierSigner FrontierSigner \<longleftrightarrow> True"
| "signer_Equal _ _ \<longleftrightarrow> False"

definition MakeSigner :: "chain_config \<Rightarrow> int option \<Rightarrow> signer" where
  "MakeSigner config blockNumber =
     (if cc_IsBitmed config then HomesteadSigner
      else if IsEIP155 config blockNumber then NewEIP155Signer (cc_ChainId config)
      else if IsHomestead config blockNumber then HomesteadSigner
      else FrontierSigner)"

definition sighash_fields :: "txdata \<Rightarrow> rval list" where
  "sighash_fields tx =
     [RUint (td_AccountNonce tx), RBigPtr (Some (td_Price tx)), RBigPtr (Some (td_GasLimit tx)),
      recipient_rval (td_Recipient tx), RBigPtr (Some (td_Amount tx)), RBytes (td_Payload tx)]"

definition frontier_Hash :: "crypto \<Rightarrow> txdata \<Rightarrow> hash" where
  "frontier_Hash cr tx = rlpHash (kec cr) (RSlice (sighash_fields tx))"

fun signer_Hash :: "crypto \<Rightarrow> signer \<Rightarrow> txdata \<Rightarrow> hash" where
  "signer_Hash cr (EIP155Signer chainId) tx =
     rlpHash (kec cr) (RSlice (sighash_fields tx @ [RBigPtr (Some chainId), RUint 0, RUint 0]))"
| "signer_Hash cr HomesteadSigner tx = frontier_Hash cr tx"
| "signer_Hash cr FrontierSigner tx = frontier_Hash cr tx"

definition frontier_SignatureValues :: "txdata \<Rightarrow> bytes \<Rightarrow> (tx_error, int \<times> int \<times> int) outcome" where
  "frontier_SignatureValues tx sig =
     (if length sig \<noteq> 65 then Panic
      else Ok (int (be_nat (take 32 sig)), int (be_nat (take 32 (drop 32 sig))),
               if IsPrivate tx then uint (sig ! 64 + 37) else uint (sig ! 64 + 27)))"

fun signer_SignatureValues :: "signer \<Rightarrow> txdata \<Rightarrow> bytes \<Rightarrow> (tx_error, int \<times> int \<times> int) outcome" where
  "signer_SignatureValues (EIP155Signer chainId) tx sig =
     (case frontier_SignatureValues tx sig of
        Ok (R, S, V) \<Rightarrow>
          Ok (R, S, if chainId \<noteq> 0 then uint (sig ! 64 + 35) + chainId * 2 else V)
      | r \<Rightarrow> r)"
| "signer_SignatureValues HomesteadSigner tx sig = frontier_SignatureValues tx sig"
| "signer_SignatureValues FrontierSigner tx sig = frontier_SignatureValues tx sig"

definition homestead_Sender :: "crypto \<Rightarrow> txdata \<Rightarrow> tx_error + address" where
  "homestead_Sender cr tx =
     recoverPlain cr (frontier_Hash cr tx) (td_R tx) (td_S tx) (td_V tx) True (IsPrivate tx)"

fun signer_Sender :: "crypto \<Rightarrow> signer \<Rightarrow> txdata \<Rightarrow> tx_error + address" where
  "signer_Sender cr (EIP155Signer chainId) tx =
     (if \<not> tx_Protected tx then homestead_Sender cr tx
      else if tx_ChainId tx \<noteq> chainId then Inl ErrInvalidChainId
      else recoverPlain cr (signer_Hash cr (EIP155Signer chainId) tx) (td_R tx) (td_S tx)
             (td_V tx - chainId * 2 - 8) True False)"
| "signer_Sender cr HomesteadSigner tx = homestead_Sender cr tx"
| "signer_Sender cr FrontierSigner tx =
     recoverPlain cr (frontier_Hash cr tx) (td_R tx) (td_S tx) (td_V tx) False (IsPrivate tx)"

text \<open>\<^verbatim>\<open>Sender\<close> keeps the sender it derived with the signer that derived it.\<close>

definition Sender :: "crypto \<Rightarrow> signer \<Rightarrow> (signer \<times> address) option \<Rightarrow> txdata \<Rightarrow>
    (tx_error + address) \<times> (signer \<times> address) option" where
  "Sender cr signer cache tx =
     (case cache of
        Some (s, from) \<Rightarrow>
          if signer_Equal s signer then (Inr from, cache)
          else (case signer_Sender cr signer tx of
                  Inl er \<Rightarrow> (Inl er, cache)
                | Inr a \<Rightarrow> (Inr a, Some (signer, a)))
      | None \<Rightarrow>
          (case signer_Sender cr signer tx of
             Inl er \<Rightarrow> (Inl er, cache)
           | Inr a \<Rightarrow> (Inr a, Some (signer, a))))"

definition WithSignature :: "signer \<Rightarrow> bytes \<Rightarrow> txdata \<Rightarrow> (tx_error, txdata) outcome" where
  "WithSignature signer sig tx =
     (case signer_SignatureValues signer tx sig of
        Ok (r, s, v) \<Rightarrow> Ok (tx\<lparr>td_R := r, td_S := s, td_V := v\<rparr>)
      | Fail er \<Rightarrow> Fail er
      | Panic \<Rightarrow> Panic)"

definition SignTx :: "crypto \<Rightarrow> signer \<Rightarrow> (hash \<Rightarrow> bytes option) \<Rightarrow> txdata \<Rightarrow> (tx_error, txdata) outcome" where
  "SignTx cr s sign tx =
     (case sign (signer_Hash cr s tx) of
        None \<Rightarrow> Fail ErrSignTx
      | Some sig \<Rightarrow> WithSignature s sig tx)"

record tx_message =
  tm_to :: "address option"
  tm_from :: address
  tm_nonce :: nat
  tm_amount :: int
  tm_price :: int
  tm_gasLimit :: int
  tm_data :: bytes
  tm_checkNonce :: bool
  tm_isPrivate :: bool

text \<open>\<^verbatim>\<open>AsMessage\<close> returns the message with the error; the sender is then the zero address.\<close>

definition AsMessage :: "crypto \<Rightarrow> signer \<Rightarrow> txdata \<Rightarrow> tx_message \<times> tx_error option" where
  "AsMessage cr s tx =
     (let r = signer_Sender cr s tx
      in (\<lparr>tm_to = td_Recipient tx, tm_from = (case r of Inr a \<Rightarrow> a | Inl _ \<Rightarrow> 0), tm_nonce = td_AccountNonce tx,
           tm_amount = td_Amount tx, tm_price = td_Price tx, tm_gasLimit = td_GasLimit tx, tm_data = td_Payload tx,
           tm_checkNonce = True, tm_isPrivate = IsPrivate tx\<rparr>,
          case r of Inr _ \<Rightarrow> None | Inl er \<Rightarrow> Some er))"

section \<open>Transactions by price and nonce\<close>

text \<open>The waiting transactions of every account and the price heap of their next ones. The iteration order
  of the Go map is the argument \<open>keys\<close>; an index out of range is \<^verbatim>\<open>None\<close>.\<close>

record price_nonce =
  pn_txs :: "address \<rightharpoonup> txdata list"
  pn_heads :: "txdata list"

definition price_key :: "txdata \<Rightarrow> int" where
  "price_key tx = - td_Price tx"

definition sender_of :: "crypto \<Rightarrow> signer \<Rightarrow> txdata \<Rightarrow> address" where
  "sender_of cr signer tx = (case signer_Sender cr signer tx of Inr a \<Rightarrow> a | Inl _ \<Rightarrow> 0)"

text \<open>The loop over the accounts: \<open>keys\<close> is the order in which Go ranges over the map. Go may also visit a
  key that the loop itself inserts, which happens only when the sender of a head transaction is not the
  key of its list and not another key of the map; such runs are not represented. The transaction pool
  files every transaction under its sender.\<close>

fun collect_heads :: "(txdata \<Rightarrow> address) \<Rightarrow> address list \<Rightarrow> (address \<rightharpoonup> txdata list) \<Rightarrow> txdata list \<Rightarrow>
    ((address \<rightharpoonup> txdata list) \<times> txdata list) option" where
  "collect_heads sender [] txs hds = Some (txs, hds)"
| "collect_heads sender (k # ks) txs hds =
     (case txs k of
        Some (t # ts) \<Rightarrow> collect_heads sender ks (txs(sender t \<mapsto> ts)) (hds @ [t])
      | _ \<Rightarrow> None)"

definition NewTransactionsByPriceAndNonce ::
  "crypto \<Rightarrow> signer \<Rightarrow> address list \<Rightarrow> (address \<rightharpoonup> txdata list) \<Rightarrow> price_nonce option" where
  "NewTransactionsByPriceAndNonce cr signer keys txs =
     (case collect_heads (sender_of cr signer) keys txs [] of
        None \<Rightarrow> None
      | Some (txs1, hds) \<Rightarrow> Some \<lparr>pn_txs = txs1, pn_heads = heap_Init price_key hds\<rparr>)"

definition pn_Peek :: "price_nonce \<Rightarrow> txdata option" where
  "pn_Peek t = (if pn_heads t = [] then None else Some (pn_heads t ! 0))"

definition pn_Pop :: "price_nonce \<Rightarrow> price_nonce option" where
  "pn_Pop t = (case heap_Pop price_key (pn_heads t) of None \<Rightarrow> None | Some (_, h) \<Rightarrow> Some (t\<lparr>pn_heads := h\<rparr>))"

definition pn_Shift :: "(txdata \<Rightarrow> address) \<Rightarrow> price_nonce \<Rightarrow> price_nonce option" where
  "pn_Shift sender t =
     (if pn_heads t = [] then None
      else
        (let acc = sender (pn_heads t ! 0)
         in case pn_txs t acc of
              Some (x # xs) \<Rightarrow>
                Some (t\<lparr>pn_heads := heap_Fix price_key ((pn_heads t)[0 := x]) 0, pn_txs := (pn_txs t)(acc \<mapsto> xs)\<rparr>)
            | _ \<Rightarrow> pn_Pop t))"

text \<open>The loop of the miner: look at the next transaction, then shift.\<close>

fun pn_drain :: "(txdata \<Rightarrow> address) \<Rightarrow> nat \<Rightarrow> price_nonce \<Rightarrow> txdata list" where
  "pn_drain sender 0 t = []"
| "pn_drain sender (Suc n) t =
     (case pn_Peek t of
        None \<Rightarrow> []
      | Some x \<Rightarrow> x # (case pn_Shift sender t of None \<Rightarrow> [] | Some t1 \<Rightarrow> pn_drain sender n t1))"

section \<open>Signing and recovering\<close>

lemma nat_BitLen_le: "nat_BitLen n \<le> k \<longleftrightarrow> n < 2 ^ k"
proof (induction k arbitrary: n)
  case 0
  then show ?case by (simp add: nat_BitLen.simps [of n])
next
  case (Suc k)
  show ?case using Suc [of "n div 2"] by (auto simp: nat_BitLen.simps [of n])
qed

lemma big_BitLen_le: "big_BitLen i \<le> k \<longleftrightarrow> \<bar>i\<bar> < 2 ^ k"
  unfolding big_BitLen_def nat_BitLen_le by (simp add: nat_less_iff)

text \<open>A 32 byte number written with padding is the number's big-endian form.\<close>

lemma padded_bytes:
  assumes "length b = n"
  shows "replicate (n - length (min_be (be_nat b))) 0 @ min_be (be_nat b) = b"
proof -
  have "be_nat (replicate k 0 @ c) = be_nat c" for k and c :: bytes
    by (induction k) (simp_all add: be_nat_Cons)
  then have "be_nat (replicate (n - length (min_be (be_nat b))) 0 @ min_be (be_nat b)) = be_nat b" by simp
  moreover have "length (replicate (n - length (min_be (be_nat b))) 0 @ min_be (be_nat b) :: bytes) = n"
    using length_min_be_le [of "be_nat b" n] be_nat_less [of b] assms by simp
  ultimately show ?thesis using assms by (metis be_bytes_be_nat)
qed

lemma split_signature:
  assumes "length sig = 65"
  shows "sig = take 32 sig @ take 32 (drop 32 sig) @ [sig ! 64]"
proof -
  have "drop 64 sig = [sig ! 64]" using assms by (simp add: Cons_nth_drop_Suc [symmetric])
  then have "drop 32 sig = take 32 (drop 32 sig) @ [sig ! 64]"
    using append_take_drop_id [of 32 "drop 32 sig"] by (simp del: append_take_drop_id)
  then show ?thesis using append_take_drop_id [of 32 sig] by metis
qed

text \<open>What the code relies on of \<^verbatim>\<open>crypto.Sign\<close>: its result is a 65 byte signature in the lower half of
  the group with a recovery id of 0 or 1, from which the signer's key is recovered.\<close>

definition signs_for :: "crypto \<Rightarrow> (hash \<Rightarrow> bytes option) \<Rightarrow> address \<Rightarrow> bool" where
  "signs_for cr sign a \<longleftrightarrow> (\<forall>h sig. sign h = Some sig \<longrightarrow>
     length sig = 65 \<and> (sig ! 64 = 0 \<or> sig ! 64 = 1) \<and>
     0 < be_nat (take 32 sig) \<and> int (be_nat (take 32 sig)) < secp256k1_N \<and>
     0 < be_nat (take 32 (drop 32 sig)) \<and> int (be_nat (take 32 (drop 32 sig))) \<le> secp256k1_halfN \<and>
     (\<exists>pub. ecrecover cr h sig = Some (4 # pub) \<and> PubkeyToAddress cr (4 # pub) = a))"

lemma secp256k1_half: "secp256k1_halfN < secp256k1_N"
  by (simp add: secp256k1_halfN_def secp256k1_N_def)

lemma recoverPlain_signature:
  assumes "length sig = 65" "sig ! 64 = 0 \<or> sig ! 64 = 1"
    and "0 < be_nat (take 32 sig)" "int (be_nat (take 32 sig)) < secp256k1_N"
    and "0 < be_nat (take 32 (drop 32 sig))" "int (be_nat (take 32 (drop 32 sig))) \<le> secp256k1_halfN"
    and "Vb = uint (sig ! 64) + (if p then 37 else 27)"
  shows "recoverPlain cr h (int (be_nat (take 32 sig))) (int (be_nat (take 32 (drop 32 sig)))) Vb b p =
    (case ecrecover cr h sig of
       None \<Rightarrow> Inl ErrRecoverKey
     | Some pub \<Rightarrow> if pub = [] \<or> hd pub \<noteq> 4 then Inl ErrInvalidPublicKey else Inr (PubkeyToAddress cr pub))"
proof -
  let ?r = "take 32 sig" and ?s = "take 32 (drop 32 sig)"
  have "\<not> big_BitLen Vb > 8" using assms(2,7) by (auto simp: not_less big_BitLen_le)
  moreover have "(big_Uint64 Vb + 2 ^ 64 - (if p then 37 else 27)) mod 2 ^ 64 = unat (sig ! 64)"
    using assms(2,7) by (auto simp: big_Uint64_def)
  then have "(of_nat ((big_Uint64 Vb + 2 ^ 64 - (if p then 37 else 27)) mod 2 ^ 64) :: byte) = sig ! 64" by simp
  moreover have "ValidateSignatureValues (sig ! 64) (int (be_nat ?r)) (int (be_nat ?s)) b"
    using assms(2-6) secp256k1_half by (auto simp: ValidateSignatureValues_def)
  moreover have "replicate (32 - length (min_be (be_nat ?r))) 0 @ min_be (be_nat ?r) @
      replicate (32 - length (min_be (be_nat ?s))) 0 @ min_be (be_nat ?s) @ [sig ! 64] = sig"
  proof -
    have "replicate (32 - length (min_be (be_nat ?r))) 0 @ min_be (be_nat ?r) = ?r"
      "replicate (32 - length (min_be (be_nat ?s))) 0 @ min_be (be_nat ?s) = ?s"
      using assms(1) by (intro padded_bytes, simp)+
    then have "(replicate (32 - length (min_be (be_nat ?r))) 0 @ min_be (be_nat ?r)) @
      (replicate (32 - length (min_be (be_nat ?s))) 0 @ min_be (be_nat ?s)) @ [sig ! 64] = sig"
      using split_signature [OF assms(1)] by (simp only:)
    then show ?thesis by (simp only: append.assoc)
  qed
  ultimately show ?thesis
    unfolding recoverPlain_def Let_def PubkeyToAddress_def by (simp split: option.split)
qed

definition signed_values :: "signer \<Rightarrow> txdata \<Rightarrow> bytes \<Rightarrow> txdata" where
  "signed_values s tx sig = tx\<lparr>td_R := int (be_nat (take 32 sig)), td_S := int (be_nat (take 32 (drop 32 sig))),
     td_V := (case s of
        EIP155Signer c \<Rightarrow> if c \<noteq> 0 then uint (sig ! 64) + 35 + c * 2
          else uint (sig ! 64) + (if IsPrivate tx then 37 else 27)
      | _ \<Rightarrow> uint (sig ! 64) + (if IsPrivate tx then 37 else 27))\<rparr>"

lemma SignTx_Ok:
  assumes "signs_for cr sign a" "SignTx cr s sign tx = Ok tx'"
  shows "\<exists>sig. sign (signer_Hash cr s tx) = Some sig \<and> tx' = signed_values s tx sig"
proof -
  obtain sig where sig: "sign (signer_Hash cr s tx) = Some sig" "WithSignature s sig tx = Ok tx'"
    using assms(2) by (auto simp: SignTx_def split: option.splits)
  then have l: "length sig = 65" "sig ! 64 = 0 \<or> sig ! 64 = 1" using assms(1) unfolding signs_for_def by blast+
  then have "tx' = signed_values s tx sig"
    using sig(2) by (cases s) (auto simp: WithSignature_def frontier_SignatureValues_def signed_values_def)
  then show ?thesis using sig(1) by blast
qed

lemma signed_fields [simp]:
  "td_R (signed_values s tx sig) = int (be_nat (take 32 sig))"
  "td_S (signed_values s tx sig) = int (be_nat (take 32 (drop 32 sig)))"
  "td_V (signed_values HomesteadSigner tx sig) = uint (sig ! 64) + (if IsPrivate tx then 37 else 27)"
  "td_V (signed_values FrontierSigner tx sig) = uint (sig ! 64) + (if IsPrivate tx then 37 else 27)"
  "c \<noteq> 0 \<Longrightarrow> td_V (signed_values (EIP155Signer c) tx sig) = uint (sig ! 64) + 35 + c * 2"
  by (simp_all add: signed_values_def)

lemma signed_hash [simp]:
  "frontier_Hash cr (signed_values s tx sig) = frontier_Hash cr tx"
  "signer_Hash cr s' (signed_values s tx sig) = signer_Hash cr s' tx"
proof -
  have "sighash_fields (signed_values s tx sig) = sighash_fields tx" by (simp add: sighash_fields_def signed_values_def)
  then show "frontier_Hash cr (signed_values s tx sig) = frontier_Hash cr tx"
    "signer_Hash cr s' (signed_values s tx sig) = signer_Hash cr s' tx"
    by (cases s'; simp add: frontier_Hash_def)+
qed

lemma deriveChainId_of:
  assumes "0 < c" "v = 0 \<or> v = 1" "\<not> (c * 2 + 35 + v = 37 \<or> c * 2 + 35 + v = 38)"
  shows "deriveChainId (v + 35 + c * 2) = c" "isProtectedV (v + 35 + c * 2)"
proof -
  show "deriveChainId (v + 35 + c * 2) = c"
  proof (cases "v + 35 + c * 2 < 2 ^ 64")
    case True
    then have "big_Uint64 (v + 35 + c * 2) = nat (v + 35 + c * 2)" using assms by (intro big_Uint64_small) auto
    moreover have "nat (v + 35 + c * 2) + 2 ^ 64 - 35 = nat (v + c * 2) + 2 ^ 64" using assms by auto
    ultimately show ?thesis using True assms by (auto simp: deriveChainId_def big_BitLen_le Let_def)
  next
    case False
    then show ?thesis using assms by (auto simp: deriveChainId_def big_BitLen_le)
  qed
  show "isProtectedV (v + 35 + c * 2)"
    using assms by (auto simp: isProtectedV_def big_BitLen_le Let_def big_Uint64_small)
qed

lemma homestead_recovers:
  assumes "signs_for cr sign a" "sign (frontier_Hash cr tx) = Some sig"
  shows "signer_Sender cr HomesteadSigner (signed_values HomesteadSigner tx sig) = Inr a"
    "signer_Sender cr FrontierSigner (signed_values FrontierSigner tx sig) = Inr a"
    "IsPrivate (signed_values HomesteadSigner tx sig) = IsPrivate tx" "IsPrivate (signed_values FrontierSigner tx sig) = IsPrivate tx"
proof -
  have sg: "length sig = 65" "sig ! 64 = 0 \<or> sig ! 64 = 1"
    "0 < be_nat (take 32 sig)" "int (be_nat (take 32 sig)) < secp256k1_N"
    "0 < be_nat (take 32 (drop 32 sig))" "int (be_nat (take 32 (drop 32 sig))) \<le> secp256k1_halfN"
    and rec: "\<exists>pub. ecrecover cr (frontier_Hash cr tx) sig = Some (4 # pub) \<and> PubkeyToAddress cr (4 # pub) = a"
    using assms unfolding signs_for_def by blast+
  show p: "IsPrivate (signed_values HomesteadSigner tx sig) = IsPrivate tx" "IsPrivate (signed_values FrontierSigner tx sig) = IsPrivate tx"
    using sg(2) by (auto simp: IsPrivate_def [of "signed_values s tx sig" for s] big_Uint64_def)
  note rp = recoverPlain_signature [OF sg refl, where cr = cr and h = "frontier_Hash cr tx" and p = "IsPrivate tx"]
  show "signer_Sender cr HomesteadSigner (signed_values HomesteadSigner tx sig) = Inr a"
    "signer_Sender cr FrontierSigner (signed_values FrontierSigner tx sig) = Inr a"
    using rec by (auto simp: homestead_Sender_def p rp)
qed

lemma SetPrivate_recovers:
  assumes "signs_for cr sign a" "sign (frontier_Hash cr tx) = Some sig" "\<not> IsPrivate tx" "s = HomesteadSigner \<or> s = FrontierSigner"
  shows "signer_Sender cr s (SetPrivate (signed_values s tx sig)) = Inr a" "IsPrivate (SetPrivate (signed_values s tx sig))"
proof -
  have sg: "length sig = 65" "sig ! 64 = 0 \<or> sig ! 64 = 1"
    "0 < be_nat (take 32 sig)" "int (be_nat (take 32 sig)) < secp256k1_N"
    "0 < be_nat (take 32 (drop 32 sig))" "int (be_nat (take 32 (drop 32 sig))) \<le> secp256k1_halfN"
    and rec: "\<exists>pub. ecrecover cr (frontier_Hash cr tx) sig = Some (4 # pub) \<and> PubkeyToAddress cr (4 # pub) = a"
    using assms(1,2) unfolding signs_for_def by blast+
  let ?tx = "(signed_values s tx sig)\<lparr>td_V := uint (sig ! 64) + 37\<rparr>"
  have eq: "SetPrivate (signed_values s tx sig) = ?tx"
    using sg(2) assms(3,4) by (auto simp: SetPrivate_def big_Int64_def big_Uint64_def wrap_i64_def)
  have priv: "IsPrivate ?tx" using sg(2) by (auto simp: IsPrivate_def big_Uint64_def)
  then show "IsPrivate (SetPrivate (signed_values s tx sig))" by (simp add: eq)
  have "frontier_Hash cr ?tx = frontier_Hash cr tx"
    by (simp add: frontier_Hash_def sighash_fields_def signed_values_def)
  moreover note recoverPlain_signature [OF sg, where cr = cr and h = "frontier_Hash cr tx" and p = True]
  ultimately show "signer_Sender cr s (SetPrivate (signed_values s tx sig)) = Inr a"
    using rec assms(4) priv unfolding eq by (auto simp: homestead_Sender_def)
qed

lemma eip155_recovers:
  assumes "signs_for cr sign a" "sign (signer_Hash cr (EIP155Signer c) tx) = Some sig" "1 < c"
  shows "signer_Sender cr (EIP155Signer c) (signed_values (EIP155Signer c) tx sig) = Inr a"
    "tx_Protected (signed_values (EIP155Signer c) tx sig)" "tx_ChainId (signed_values (EIP155Signer c) tx sig) = c"
proof -
  have sg: "length sig = 65" "sig ! 64 = 0 \<or> sig ! 64 = 1"
    "0 < be_nat (take 32 sig)" "int (be_nat (take 32 sig)) < secp256k1_N"
    "0 < be_nat (take 32 (drop 32 sig))" "int (be_nat (take 32 (drop 32 sig))) \<le> secp256k1_halfN"
    and rec: "\<exists>pub. ecrecover cr (signer_Hash cr (EIP155Signer c) tx) sig = Some (4 # pub) \<and> PubkeyToAddress cr (4 # pub) = a"
    using assms(1,2) unfolding signs_for_def by blast+
  have v: "uint (sig ! 64) = 0 \<or> uint (sig ! 64) = 1" using sg(2) by auto
  have c0: "c \<noteq> 0" "0 < c" using assms(3) by auto
  note ch = deriveChainId_of [OF c0(2) v]
  show p: "tx_Protected (signed_values (EIP155Signer c) tx sig)" "tx_ChainId (signed_values (EIP155Signer c) tx sig) = c"
    using ch v assms(3) c0(1) by (auto simp: tx_Protected_def tx_ChainId_def)
  have vb: "uint (sig ! 64) + 35 + c * 2 - c * 2 - 8 = uint (sig ! 64) + (if False then 37 else 27)" by simp
  note recoverPlain_signature [OF sg vb, where cr = cr and h = "signer_Hash cr (EIP155Signer c) tx" and b = True]
  then show "signer_Sender cr (EIP155Signer c) (signed_values (EIP155Signer c) tx sig) = Inr a"
    using rec p c0(1) by (auto simp del: signer_Hash.simps)
qed

lemma chain_id_collides:
  fixes v c :: int
  assumes "v = 0 \<or> v = 1"
  shows "(v + 35 + c * 2) mod 2 ^ 64 = 37 \<or> (v + 35 + c * 2) mod 2 ^ 64 = 38 \<longleftrightarrow> c mod 2 ^ 63 = 1"
proof -
  define q r where "q = c div 2 ^ 63" and "r = c mod 2 ^ 63"
  have r: "0 \<le> r" "r < 2 ^ 63" by (simp_all add: r_def)
  have "c = q * 2 ^ 63 + r" by (simp only: q_def r_def div_mult_mod_eq)
  then have "v + 35 + c * 2 = (v + 35 + r * 2) + q * 2 ^ 64" by simp
  then have m: "(v + 35 + c * 2) mod 2 ^ 64 = (v + 35 + r * 2) mod 2 ^ 64" by (metis mod_mult_self1)
  have "(v + 35 + r * 2) mod 2 ^ 64 = (if v + 35 + r * 2 < 2 ^ 64 then v + 35 + r * 2 else v + 35 + r * 2 - 2 ^ 64)"
  proof (cases "v + 35 + r * 2 < 2 ^ 64")
    case False
    then have "(v + 35 + r * 2 - 2 ^ 64) mod 2 ^ 64 = v + 35 + r * 2 - 2 ^ 64"
      using assms r by (intro mod_pos_pos_trivial) auto
    then show ?thesis using False minus_mod_self2 [of "v + 35 + r * 2" "2 ^ 64"] by (simp only: if_False)
  qed (use assms r in auto)
  then show ?thesis using assms r unfolding m r_def [symmetric] by (auto split: if_splits)
qed

lemma eip155_private:
  assumes "signs_for cr sign a" "sign h = Some sig" "1 < c"
  shows "IsPrivate (signed_values (EIP155Signer c) tx sig) \<longleftrightarrow> c mod 2 ^ 63 = 1"
proof -
  have v: "uint (sig ! 64) = 0 \<or> uint (sig ! 64) = 1" using assms(1,2) unfolding signs_for_def by fastforce
  have "int (big_Uint64 (uint (sig ! 64) + 35 + c * 2)) = (uint (sig ! 64) + 35 + c * 2) mod 2 ^ 64"
    using v assms(3) by (auto simp: big_Uint64_def zmod_int)
  then have "IsPrivate (signed_values (EIP155Signer c) tx sig) \<longleftrightarrow>
      (uint (sig ! 64) + 35 + c * 2) mod 2 ^ 64 = 37 \<or> (uint (sig ! 64) + 35 + c * 2) mod 2 ^ 64 = 38"
    using assms(3) by (auto simp: IsPrivate_def)
  also have "\<dots> \<longleftrightarrow> c mod 2 ^ 63 = 1" by (rule chain_id_collides [OF v])
  finally show ?thesis .
qed

section \<open>The price and nonce order\<close>

text \<open>The abstract specification: repeatedly take, among the first transactions of all queues, one of the
  highest price, until every queue is empty.\<close>

primrec greedy_order :: "(txdata \<Rightarrow> address) \<Rightarrow> (address \<Rightarrow> txdata list) \<Rightarrow> txdata list \<Rightarrow> bool" where
  "greedy_order sender Q [] \<longleftrightarrow> (\<forall>a. Q a = [])"
| "greedy_order sender Q (y # ys) \<longleftrightarrow>
     (\<exists>zs. Q (sender y) = y # zs \<and> (\<forall>a z zs'. Q a = z # zs' \<longrightarrow> td_Price z \<le> td_Price y) \<and>
        greedy_order sender (Q(sender y := zs)) ys)"

definition waiting :: "price_nonce \<Rightarrow> address \<Rightarrow> txdata list" where
  "waiting t a = (case pn_txs t a of None \<Rightarrow> [] | Some xs \<Rightarrow> xs)"

definition account_queue :: "(txdata \<Rightarrow> address) \<Rightarrow> price_nonce \<Rightarrow> address \<Rightarrow> txdata list" where
  "account_queue sender t a = filter (\<lambda>x. sender x = a) (pn_heads t) @ waiting t a"

definition pn_ok :: "(txdata \<Rightarrow> address) \<Rightarrow> price_nonce \<Rightarrow> bool" where
  "pn_ok sender t \<longleftrightarrow> is_heap price_key (pn_heads t) \<and> distinct (map sender (pn_heads t)) \<and>
     (\<forall>a. \<forall>x \<in> set (waiting t a). sender x = a) \<and>
     (\<forall>a. waiting t a \<noteq> [] \<longrightarrow> a \<in> sender ` set (pn_heads t))"

lemma filter_sender:
  assumes "distinct (map f xs)" "x \<in> set xs"
  shows "filter (\<lambda>y. f y = f x) xs = [x]"
  using assms by (induction xs) (auto simp: filter_empty_conv image_iff)

lemma filter_sender_mset:
  assumes "mset xs = mset ys" "distinct (map f xs)"
  shows "filter (\<lambda>y. f y = a) xs = filter (\<lambda>y. f y = a) ys"
proof (cases "\<exists>x \<in> set xs. f x = a")
  case True
  then obtain x where x: "x \<in> set xs" "a = f x" by blast
  have "distinct (map f ys)" using assms by (metis mset_map mset_eq_imp_distinct_iff)
  moreover have "x \<in> set ys" using assms(1) x(1) by (metis set_mset_mset)
  ultimately show ?thesis using filter_sender [OF assms(2) x(1)] filter_sender [of f ys x] x(2) by simp
next
  case False
  moreover have "set ys = set xs" using assms(1) by (metis set_mset_mset)
  ultimately show ?thesis by (metis (mono_tags, lifting) filter_False)
qed

lemma head_highest:
  assumes "pn_ok sender t" "pn_heads t \<noteq> []" "account_queue sender t a = z # zs"
  shows "td_Price z \<le> td_Price (pn_heads t ! 0)"
proof -
  have "z \<in> set (pn_heads t)"
  proof (cases "filter (\<lambda>x. sender x = a) (pn_heads t)")
    case Nil
    then have "a \<notin> sender ` set (pn_heads t)" by (auto simp: filter_empty_conv)
    then have "waiting t a = []" using assms(1) unfolding pn_ok_def by blast
    then show ?thesis using assms(3) Nil by (simp add: account_queue_def)
  next
    case (Cons y ys)
    then have "z = y" using assms(3) by (simp add: account_queue_def)
    then show ?thesis using Cons by (metis filter_is_subset list.set_intros(1) subsetD)
  qed
  then obtain m where "m < length (pn_heads t)" "z = pn_heads t ! m" by (metis in_set_conv_nth)
  then show ?thesis using heap_min [of price_key "pn_heads t" m] assms(1) by (simp add: pn_ok_def price_key_def)
qed

lemma pn_Shift_ok:
  assumes "pn_ok sender t" "pn_heads t = h # hs"
  shows "\<exists>t'. pn_Shift sender t = Some t' \<and> pn_ok sender t' \<and> account_queue sender t (sender h) = h # waiting t (sender h) \<and>
    account_queue sender t' = (account_queue sender t)(sender h := waiting t (sender h))"
proof -
  have ok: "is_heap price_key (h # hs)" "distinct (map sender (h # hs))" "\<And>a x. x \<in> set (waiting t a) \<Longrightarrow> sender x = a"
    "\<And>a. waiting t a \<noteq> [] \<Longrightarrow> a \<in> sender ` set (h # hs)"
    using assms unfolding pn_ok_def by (metis, metis, metis, metis)
  have q: "account_queue sender t (sender h) = h # waiting t (sender h)"
    using filter_sender [OF ok(2), of h] by (simp add: account_queue_def assms(2))
  have nh: "filter (\<lambda>y. sender y = sender h) hs = []" using ok(2) by (auto simp: filter_empty_conv image_iff)
  show ?thesis
  proof (cases "waiting t (sender h)")
    case (Cons x xs)
    then have tx: "pn_txs t (sender h) = Some (x # xs)" by (auto simp: waiting_def split: option.splits)
    have sx: "sender x = sender h" using ok(3) [of x "sender h"] Cons by simp
    let ?hs1 = "heap_Fix price_key (x # hs) 0"
    let ?t = "t\<lparr>pn_heads := ?hs1, pn_txs := (pn_txs t)(sender h \<mapsto> xs)\<rparr>"
    have f: "is_heap price_key ?hs1" "mset ?hs1 = mset (x # hs)"
      using heap_Fix_root [OF ok(1), of x] by simp_all
    have d: "distinct (map sender (x # hs))" using ok(2) sx by simp
    have w: "waiting ?t = (waiting t)(sender h := xs)" by (auto simp: waiting_def fun_eq_iff)
    have dh: "distinct (map sender ?hs1)" using d f(2) by (metis mset_map mset_eq_imp_distinct_iff)
    have fl: "filter (\<lambda>y. sender y = a) ?hs1 = filter (\<lambda>y. sender y = a) (x # hs)" for a
      by (rule filter_sender_mset [OF f(2) dh])
    have sh: "set ?hs1 = set (x # hs)" using f(2) by (metis set_mset_mset)
    have "pn_ok sender ?t"
      unfolding pn_ok_def w using f(1) dh ok(3,4) Cons sh sx [symmetric] by auto
    moreover have "account_queue sender ?t = (account_queue sender t)(sender h := waiting t (sender h))"
      using Cons sx nh by (auto simp: fun_eq_iff account_queue_def fl w assms(2))
    ultimately show ?thesis using tx q by (simp add: pn_Shift_def assms(2))
  next
    case Nil
    obtain h' where p: "heap_Pop price_key (h # hs) = Some (h, h')" "is_heap price_key h'" "mset (h # hs) = add_mset h (mset h')"
      using heap_Pop_heap [OF ok(1)] by auto
    have m: "mset h' = mset hs" using p(3) by simp
    have d: "distinct (map sender h')" using ok(2) m by (metis distinct.simps(2) list.map(2) mset_map mset_eq_imp_distinct_iff)
    have fl: "filter (\<lambda>y. sender y = a) h' = filter (\<lambda>y. sender y = a) hs" for a by (rule filter_sender_mset [OF m d])
    have sh: "set h' = set hs" using m by (metis set_mset_mset)
    let ?t = "t\<lparr>pn_heads := h'\<rparr>"
    have w: "waiting ?t = waiting t" by (auto simp: waiting_def fun_eq_iff)
    have "pn_ok sender ?t"
      unfolding pn_ok_def w using p(2) d ok(3,4) Nil sh by (auto simp: image_iff)
    moreover have "account_queue sender ?t = (account_queue sender t)(sender h := waiting t (sender h))"
      using Nil nh by (auto simp: fun_eq_iff account_queue_def fl w assms(2))
    moreover have "pn_Shift sender t = Some ?t"
      using Nil p(1) by (auto simp: pn_Shift_def assms(2) waiting_def pn_Pop_def split: option.splits list.splits)
    ultimately show ?thesis using q by blast
  qed
qed

lemma pn_drain_greedy:
  assumes "pn_ok sender t" "finite A" "\<And>a. a \<notin> A \<Longrightarrow> account_queue sender t a = []"
  shows "greedy_order sender (account_queue sender t) (pn_drain sender (\<Sum>a\<in>A. length (account_queue sender t a)) t)"
  using assms(1,3)
proof (induction "\<Sum>a\<in>A. length (account_queue sender t a)" arbitrary: t)
  case 0
  have "account_queue sender t a = []" for a using 0 assms(2) by (cases "a \<in> A") auto
  then show ?case using 0(1) by simp
next
  case (Suc n)
  have "\<exists>a. account_queue sender t a \<noteq> []"
  proof (rule ccontr)
    assume "\<nexists>a. account_queue sender t a \<noteq> []"
    then show False using Suc(2) by simp
  qed
  then obtain a where "account_queue sender t a \<noteq> []" by blast
  then have "pn_heads t \<noteq> []" using Suc.prems(1) by (auto simp: account_queue_def pn_ok_def)
  then obtain h hs where hs: "pn_heads t = h # hs" by (cases "pn_heads t") auto
  obtain t' where t': "pn_Shift sender t = Some t'" "pn_ok sender t'"
    "account_queue sender t (sender h) = h # waiting t (sender h)"
    "account_queue sender t' = (account_queue sender t)(sender h := waiting t (sender h))"
    using pn_Shift_ok [OF Suc.prems(1) hs] by blast
  have hA: "sender h \<in> A" using Suc.prems(2) t'(3) by fastforce
  have "(\<Sum>a\<in>A. length (account_queue sender t a)) =
      length (account_queue sender t (sender h)) + (\<Sum>a\<in>A - {sender h}. length (account_queue sender t a))"
    using hA assms(2) by (rule sum.remove [rotated])
  moreover have "(\<Sum>a\<in>A. length (account_queue sender t' a)) =
      length (account_queue sender t' (sender h)) + (\<Sum>a\<in>A - {sender h}. length (account_queue sender t' a))"
    using hA assms(2) by (rule sum.remove [rotated])
  moreover have "(\<Sum>a\<in>A - {sender h}. length (account_queue sender t' a)) = (\<Sum>a\<in>A - {sender h}. length (account_queue sender t a))"
    by (rule sum.cong) (auto simp: t'(4))
  ultimately have n: "n = (\<Sum>a\<in>A. length (account_queue sender t' a))" using Suc(2) t'(3,4) by simp
  have e: "account_queue sender t' a = []" if "a \<notin> A" for a using Suc.prems(2) [OF that] that hA by (auto simp: t'(4))
  have "pn_drain sender (Suc n) t = h # pn_drain sender n t'" by (simp add: pn_Peek_def hs t'(1))
  moreover have "\<forall>a z zs. account_queue sender t a = z # zs \<longrightarrow> td_Price z \<le> td_Price h"
    using head_highest [OF Suc.prems(1)] hs by auto
  moreover have "greedy_order sender (account_queue sender t') (pn_drain sender n t')"
    using Suc(1) [OF n t'(2) e] n by simp
  ultimately show ?case unfolding Suc(2) [symmetric] using t'(3,4) by simp
qed

lemma collect_heads_ok:
  assumes "distinct ks" "\<And>k. k \<in> set ks \<Longrightarrow> \<exists>t ts. txs k = Some (t # ts) \<and> (\<forall>x \<in> set (t # ts). sender x = k)"
    and "sender ` set hds \<inter> set ks = {}"
  shows "\<exists>txs' new. collect_heads sender ks txs hds = Some (txs', hds @ new) \<and> map sender new = ks \<and>
    (\<forall>k \<in> set ks. \<exists>t. filter (\<lambda>x. sender x = k) new = [t] \<and> txs k = Some (t # the (txs' k)) \<and> txs' k \<noteq> None) \<and>
    (\<forall>k. k \<notin> set ks \<longrightarrow> txs' k = txs k)"
  using assms
proof (induction ks arbitrary: txs hds)
  case (Cons k ks)
  obtain t ts where t: "txs k = Some (t # ts)" "sender t = k" using Cons.prems(2) [of k] by auto
  have "\<exists>txs' new. collect_heads sender ks (txs(k \<mapsto> ts)) (hds @ [t]) = Some (txs', (hds @ [t]) @ new) \<and> map sender new = ks \<and>
    (\<forall>j \<in> set ks. \<exists>t. filter (\<lambda>x. sender x = j) new = [t] \<and> (txs(k \<mapsto> ts)) j = Some (t # the (txs' j)) \<and> txs' j \<noteq> None) \<and>
    (\<forall>j. j \<notin> set ks \<longrightarrow> txs' j = (txs(k \<mapsto> ts)) j)"
    using Cons.prems t(2) by (intro Cons.IH) auto
  then obtain txs' new where n: "collect_heads sender ks (txs(k \<mapsto> ts)) (hds @ [t]) = Some (txs', (hds @ [t]) @ new)"
    "map sender new = ks" "\<And>j. j \<in> set ks \<Longrightarrow> \<exists>t. filter (\<lambda>x. sender x = j) new = [t] \<and> (txs(k \<mapsto> ts)) j = Some (t # the (txs' j)) \<and> txs' j \<noteq> None"
    "\<And>j. j \<notin> set ks \<Longrightarrow> txs' j = (txs(k \<mapsto> ts)) j" by blast
  have k: "k \<notin> set ks" using Cons.prems(1) by simp
  have nk: "filter (\<lambda>x. sender x = k) new = []" using n(2) k by (auto simp: filter_empty_conv)
  have "\<exists>t'. filter (\<lambda>x. sender x = j) (t # new) = [t'] \<and> txs j = Some (t' # the (txs' j)) \<and> txs' j \<noteq> None"
    if "j \<in> set (k # ks)" for j
  proof (cases "j = k")
    case True
    then show ?thesis using t nk n(4) [OF k] by simp
  next
    case False
    then show ?thesis using n(3) [of j] that t(2) by auto
  qed
  then show ?case using n(1,2,4) t k by (intro exI [of _ txs'] exI [of _ "t # new"]) auto
qed simp

lemma NewTransactions_ok:
  assumes "distinct ks" "dom txs = set ks"
    and "\<And>k. k \<in> set ks \<Longrightarrow> \<exists>t ts. txs k = Some (t # ts) \<and> (\<forall>x \<in> set (t # ts). sender_of cr signer x = k)"
  shows "\<exists>t. NewTransactionsByPriceAndNonce cr signer ks txs = Some t \<and> pn_ok (sender_of cr signer) t \<and>
    account_queue (sender_of cr signer) t = (\<lambda>a. case txs a of None \<Rightarrow> [] | Some xs \<Rightarrow> xs)"
proof -
  let ?s = "sender_of cr signer"
  obtain txs' new where c: "collect_heads ?s ks txs [] = Some (txs', new)" "map ?s new = ks"
    "\<And>k. k \<in> set ks \<Longrightarrow> \<exists>t. filter (\<lambda>x. ?s x = k) new = [t] \<and> txs k = Some (t # the (txs' k)) \<and> txs' k \<noteq> None"
    "\<And>k. k \<notin> set ks \<Longrightarrow> txs' k = txs k"
    using collect_heads_ok [of ks txs ?s "[]"] assms(1,3) by auto
  let ?t = "\<lparr>pn_txs = txs', pn_heads = heap_Init price_key new\<rparr>"
  have m: "mset (heap_Init price_key new) = mset new" by (rule heap_Init_heap(2))
  have d: "distinct (map ?s (heap_Init price_key new))"
    using assms(1) c(2) m by (metis mset_map mset_eq_imp_distinct_iff)
  have st: "set (heap_Init price_key new) = set new" using m by (metis set_mset_mset)
  have w: "waiting ?t k = (case txs k of Some (t # ts) \<Rightarrow> ts | _ \<Rightarrow> [])" for k
  proof (cases "k \<in> set ks")
    case True
    then show ?thesis using c(3) [of k] by (auto simp: waiting_def)
  next
    case False
    then have "txs k = None" using assms(2) by blast
    then show ?thesis using c(4) [OF False] by (simp add: waiting_def)
  qed
  have "pn_ok ?s ?t"
  proof -
    have "(\<forall>x \<in> set (waiting ?t a). ?s x = a) \<and> (waiting ?t a \<noteq> [] \<longrightarrow> a \<in> set ks)" for a
    proof (cases "a \<in> set ks")
      case True
      then obtain u us where "txs a = Some (u # us)" "\<forall>x \<in> set (u # us). ?s x = a" using assms(3) by blast
      then show ?thesis using True by (simp add: w)
    next
      case False
      then have "txs a = None" using assms(2) by blast
      then show ?thesis by (simp add: w)
    qed
    then show ?thesis unfolding pn_ok_def using d st c(2) heap_Init_heap(1) [of price_key new] by auto
  qed
  moreover have "account_queue ?s ?t k = (case txs k of None \<Rightarrow> [] | Some xs \<Rightarrow> xs)" for k
  proof (cases "k \<in> set ks")
    case True
    then obtain t where t: "filter (\<lambda>x. ?s x = k) new = [t]" "txs k = Some (t # the (txs' k))" using c(3) by blast
    then show ?thesis using filter_sender_mset [OF m d, of k] w [of k] by (simp add: account_queue_def)
  next
    case False
    then have "txs k = None" "k \<notin> ?s ` set new" using assms(2) c(2) by (blast, metis image_set)
    then show ?thesis using w [of k] st by (auto simp: account_queue_def filter_empty_conv)
  qed
  ultimately show ?thesis using c(1) by (auto simp: NewTransactionsByPriceAndNonce_def fun_eq_iff)
qed

section \<open>Properties\<close>

text \<open>C13. The sender recovered from a signed transaction is the account that signed it: for the Frontier and
  Homestead signers, which also keep the private marker and allow a public transaction to be marked
  private afterwards, and for the EIP155 signer of every chain id from two on, where the transaction is
  protected for that chain. The EIP155 signer does not keep the private marker: it overwrites \<^verbatim>\<open>V\<close>, and
  what it signs counts as private only for the chain ids that are one modulo \<open>2 ^ 63\<close>, whatever the
  marker was. Chain id one is C37; zero and negative chain ids are outside the statement.\<close>

theorem sign_then_recover:
  assumes "signs_for cr sign a" "SignTx cr s sign tx = Ok tx'"
  shows "(s = HomesteadSigner \<or> s = FrontierSigner \<longrightarrow>
      signer_Sender cr s tx' = Inr a \<and> IsPrivate tx' = IsPrivate tx \<and>
      (\<not> IsPrivate tx \<longrightarrow> signer_Sender cr s (SetPrivate tx') = Inr a \<and> IsPrivate (SetPrivate tx'))) \<and>
    (\<forall>c. s = EIP155Signer c \<and> 1 < c \<longrightarrow> signer_Sender cr s tx' = Inr a \<and> tx_Protected tx' \<and> tx_ChainId tx' = c \<and>
      (IsPrivate tx' \<longleftrightarrow> c mod 2 ^ 63 = 1))"
proof -
  obtain sig where sig: "sign (signer_Hash cr s tx) = Some sig" "tx' = signed_values s tx sig"
    using SignTx_Ok [OF assms] by blast
  show ?thesis
    using sig homestead_recovers [OF assms(1), of tx sig] SetPrivate_recovers [OF assms(1), of tx sig s]
      eip155_recovers [OF assms(1), of _ tx sig] eip155_private [OF assms(1) sig(1), of _ tx]
    by (cases s) auto
qed

definition toy_signing :: crypto where
  "toy_signing = \<lparr>kec = (\<lambda>_. 7), ecrecover = (\<lambda>_ _. Some [4])\<rparr>"

definition toy_signature :: bytes where
  "toy_signature = replicate 31 0 @ [1] @ replicate 31 0 @ [1] @ [0]"

lemma toy_signs: "signs_for toy_signing (\<lambda>_. Some toy_signature) 7"
proof -
  have "be_nat (take 32 toy_signature) = 1" "be_nat (take 32 (drop 32 toy_signature)) = 1"
    "length toy_signature = 65" "toy_signature ! 64 = 0" by code_simp+
  moreover have "PubkeyToAddress toy_signing [4] = 7" by code_simp
  ultimately show ?thesis
    unfolding signs_for_def secp256k1_halfN_def secp256k1_N_def by (simp add: toy_signing_def)
qed

lemma toy_SignTx: "\<exists>tx'. SignTx toy_signing s (\<lambda>_. Some toy_signature) tx = Ok tx'"
proof -
  have "length toy_signature = 65" by code_simp
  then show ?thesis by (cases s) (simp_all add: SignTx_def WithSignature_def frontier_SignatureValues_def)
qed

definition toy_tx :: "nat \<Rightarrow> int \<Rightarrow> txdata" where
  "toy_tx nonce price = NewTransaction nonce 9 (Some 5) (Some 21000) (Some price) []"

theorem sign_then_recover_witness:
  "\<exists>tx'. SignTx toy_signing (EIP155Signer 10) (\<lambda>_. Some toy_signature) (SetPrivate (toy_tx 0 3)) = Ok tx' \<and>
     signer_Sender toy_signing (EIP155Signer 10) tx' = Inr 7 \<and> tx_ChainId tx' = 10 \<and>
     IsPrivate (SetPrivate (toy_tx 0 3)) \<and> \<not> IsPrivate tx'"
proof -
  obtain tx' where tx': "SignTx toy_signing (EIP155Signer 10) (\<lambda>_. Some toy_signature) (SetPrivate (toy_tx 0 3)) = Ok tx'"
    using toy_SignTx by blast
  have "IsPrivate (SetPrivate (toy_tx 0 3))" by (simp add: IsPrivate_def SetPrivate_def big_Uint64_def)
  with sign_then_recover [OF toy_signs tx'] tx' show ?thesis by (auto simp del: signer_Sender.simps)
qed

text \<open>C37. On chain id one the EIP155 signer produces the values of \<^verbatim>\<open>V\<close> that mark private transactions: every
  transaction it signs counts as private and unprotected, and its sender is recovered from the wrong
  hash, the one without the chain id.\<close>

theorem chain_id_one_marks_private:
  assumes "signs_for cr sign a" "SignTx cr (EIP155Signer 1) sign tx = Ok tx'"
  shows "IsPrivate tx' \<and> \<not> tx_Protected tx' \<and>
    (\<exists>sig. sign (signer_Hash cr (EIP155Signer 1) tx) = Some sig \<and>
       signer_Sender cr (EIP155Signer 1) tx' =
         (case ecrecover cr (frontier_Hash cr tx) sig of
            None \<Rightarrow> Inl ErrRecoverKey
          | Some pub \<Rightarrow> if pub = [] \<or> hd pub \<noteq> 4 then Inl ErrInvalidPublicKey else Inr (PubkeyToAddress cr pub)))"
proof -
  obtain sig where sig: "sign (signer_Hash cr (EIP155Signer 1) tx) = Some sig" "tx' = signed_values (EIP155Signer 1) tx sig"
    using SignTx_Ok [OF assms] by blast
  have sg: "length sig = 65" "sig ! 64 = 0 \<or> sig ! 64 = 1"
    "0 < be_nat (take 32 sig)" "int (be_nat (take 32 sig)) < secp256k1_N"
    "0 < be_nat (take 32 (drop 32 sig))" "int (be_nat (take 32 (drop 32 sig))) \<le> secp256k1_halfN"
    using assms(1) sig(1) unfolding signs_for_def by blast+
  have v: "td_V tx' = uint (sig ! 64) + (if True then 37 else 27)" by (simp add: sig(2))
  have p: "IsPrivate tx'" "\<not> tx_Protected tx'"
    using sg(2) v by (auto simp: IsPrivate_def tx_Protected_def isProtectedV_def big_Uint64_def big_BitLen_le)
  have "signer_Sender cr (EIP155Signer 1) tx' =
      recoverPlain cr (frontier_Hash cr tx) (int (be_nat (take 32 sig))) (int (be_nat (take 32 (drop 32 sig)))) (td_V tx') True True"
    using p by (simp add: homestead_Sender_def sig(2))
  also note recoverPlain_signature [OF sg v, where cr = cr and h = "frontier_Hash cr tx" and b = True]
  finally show ?thesis using p sig(1) by blast
qed

theorem chain_id_one_marks_private_witness:
  "\<exists>tx'. SignTx toy_signing (EIP155Signer 1) (\<lambda>_. Some toy_signature) (toy_tx 0 3) = Ok tx' \<and> IsPrivate tx' \<and> \<not> IsPrivate (toy_tx 0 3)"
proof -
  obtain tx' where tx': "SignTx toy_signing (EIP155Signer 1) (\<lambda>_. Some toy_signature) (toy_tx 0 3) = Ok tx'"
    using toy_SignTx by blast
  have "\<not> IsPrivate (toy_tx 0 3)" by (simp add: IsPrivate_def toy_tx_def NewTransaction_def newTransaction_def big_Uint64_def)
  with chain_id_one_marks_private [OF toy_signs tx'] tx' show ?thesis by blast
qed

text \<open>C14. The set of transactions by price and nonce implements its specification: looking and shifting until
  it is empty yields every transaction of every account exactly once, those of one account in the order
  of its list, and at each step one of the highest price among the next transactions of all accounts.\<close>

theorem price_nonce_order:
  assumes "distinct keys" "dom txs = set keys"
    and "\<And>k. k \<in> set keys \<Longrightarrow> \<exists>t ts. txs k = Some (t # ts) \<and> (\<forall>x \<in> set (t # ts). sender_of cr signer x = k)"
  shows "\<exists>t. NewTransactionsByPriceAndNonce cr signer keys txs = Some t \<and>
    greedy_order (sender_of cr signer) (\<lambda>a. case txs a of None \<Rightarrow> [] | Some xs \<Rightarrow> xs)
      (pn_drain (sender_of cr signer) (\<Sum>k \<in> set keys. length (the (txs k))) t)"
proof -
  let ?s = "sender_of cr signer"
  obtain t where t: "NewTransactionsByPriceAndNonce cr signer keys txs = Some t" "pn_ok ?s t"
    "account_queue ?s t = (\<lambda>a. case txs a of None \<Rightarrow> [] | Some xs \<Rightarrow> xs)"
    using NewTransactions_ok [OF assms] by blast
  have e: "account_queue ?s t a = []" if "a \<notin> set keys" for a
    using that assms(2) unfolding t(3) by (auto split: option.split)
  have n: "(\<Sum>k \<in> set keys. length (account_queue ?s t k)) = (\<Sum>k \<in> set keys. length (the (txs k)))"
    using assms(2) unfolding t(3) by (intro sum.cong refl) (auto split: option.split)
  have "greedy_order ?s (account_queue ?s t) (pn_drain ?s (\<Sum>k \<in> set keys. length (the (txs k))) t)"
    using pn_drain_greedy [OF t(2), of "set keys"] e unfolding n by blast
  with t(1) show ?thesis unfolding t(3) by (intro exI conjI)
qed

theorem price_nonce_order_witness:
  "\<exists>t. NewTransactionsByPriceAndNonce toy_signing HomesteadSigner [0] [0 \<mapsto> [toy_tx 1 3, toy_tx 2 8]] = Some t \<and>
     greedy_order (sender_of toy_signing HomesteadSigner)
       (\<lambda>a. case ([0 \<mapsto> [toy_tx 1 3, toy_tx 2 8]] :: address \<rightharpoonup> txdata list) a of None \<Rightarrow> [] | Some xs \<Rightarrow> xs)
       (pn_drain (sender_of toy_signing HomesteadSigner) 2 t)"
proof -
  let ?txs = "[0 \<mapsto> [toy_tx 1 3, toy_tx 2 8]] :: address \<rightharpoonup> txdata list"
  have s: "sender_of toy_signing HomesteadSigner (toy_tx n p) = 0" for n p
    by (simp add: sender_of_def homestead_Sender_def recoverPlain_def Let_def ValidateSignatureValues_def
        toy_tx_def NewTransaction_def newTransaction_def big_BitLen_def nat_BitLen.simps)
  have "\<exists>t. NewTransactionsByPriceAndNonce toy_signing HomesteadSigner [0] ?txs = Some t \<and>
    greedy_order (sender_of toy_signing HomesteadSigner) (\<lambda>a. case ?txs a of None \<Rightarrow> [] | Some xs \<Rightarrow> xs)
      (pn_drain (sender_of toy_signing HomesteadSigner) (\<Sum>k \<in> set [0]. length (the (?txs k))) t)"
    by (rule price_nonce_order) (simp_all add: s)
  then show ?thesis by (simp add: numeral_2_eq_2)
qed

end
