(* ===== verification/Raft_Minter.thy ===== *)
theory Raft_Minter
  imports Tx_Signing
begin

text \<open>
  Minting under raft (\<^verbatim>\<open>src/raft/speculative_chain.go\<close>, \<^verbatim>\<open>src/raft/minter.go\<close>): the leader builds
  blocks on top of blocks raft has not applied yet. The deque of unapplied blocks is a list, first block
  first; the thread-safe sets are sets of hashes.

  Executing a transaction, the state root, the trie and bloom functions, difficulty and gas limit are
  fields of \<open>mint_env\<close>. Goroutines are steps of \<open>minter_step\<close>: the minting goroutine tests the flag
  \<open>minting\<close> before it takes the lock, so that a block can still be minted after a stop.
\<close>

section \<open>The speculative chain\<close>

record speculative_chain =
  sc_head :: "block option"
  sc_unappliedBlocks :: "block list"
  sc_expectedInvalid :: "hash set"
  sc_proposedTxes :: "hash set"

definition newSpeculativeChain :: speculative_chain where
  "newSpeculativeChain = \<lparr>sc_head = None, sc_unappliedBlocks = [], sc_expectedInvalid = {}, sc_proposedTxes = {}\<rparr>"

definition tx_hashes :: "(bytes \<Rightarrow> hash) \<Rightarrow> block \<Rightarrow> hash list" where
  "tx_hashes k b = map (tx_Hash k) (b_transactions b)"

definition sc_clear :: "block \<Rightarrow> speculative_chain \<Rightarrow> speculative_chain" where
  "sc_clear b c = c\<lparr>sc_head := Some b, sc_unappliedBlocks := [], sc_expectedInvalid := {}, sc_proposedTxes := {}\<rparr>"

definition recordProposedTransactions :: "(bytes \<Rightarrow> hash) \<Rightarrow> txdata list \<Rightarrow> speculative_chain \<Rightarrow> speculative_chain" where
  "recordProposedTransactions k txes c = c\<lparr>sc_proposedTxes := sc_proposedTxes c \<union> tx_Hash k ` set txes\<rparr>"

definition removeProposedTxes :: "(bytes \<Rightarrow> hash) \<Rightarrow> block \<Rightarrow> speculative_chain \<Rightarrow> speculative_chain" where
  "removeProposedTxes k b c = c\<lparr>sc_proposedTxes := sc_proposedTxes c - tx_Hash k ` set (b_transactions b)\<rparr>"

definition sc_extend :: "(bytes \<Rightarrow> hash) \<Rightarrow> block \<Rightarrow> speculative_chain \<Rightarrow> speculative_chain" where
  "sc_extend k b c =
     (let c1 = recordProposedTransactions k (b_transactions b) (c\<lparr>sc_head := Some b\<rparr>)
      in c1\<lparr>sc_unappliedBlocks := sc_unappliedBlocks c1 @ [b]\<rparr>)"

definition sc_setHead :: "block \<Rightarrow> speculative_chain \<Rightarrow> speculative_chain" where
  "sc_setHead b c = c\<lparr>sc_head := Some b\<rparr>"

definition sc_accept :: "(bytes \<Rightarrow> hash) \<Rightarrow> block \<Rightarrow> speculative_chain \<Rightarrow> speculative_chain" where
  "sc_accept k accepted c =
     (case sc_unappliedBlocks c of
        [] \<Rightarrow> removeProposedTxes k accepted c
      | earliest # rest \<Rightarrow>
          (let c1 = c\<lparr>sc_unappliedBlocks := rest\<rparr>
           in if block_Hash k earliest = block_Hash k accepted then removeProposedTxes k accepted c1
              else sc_clear accepted c1))"

text \<open>The loop of \<^verbatim>\<open>unwindFrom\<close>, on the unapplied blocks in reverse order.\<close>

fun unwind_loop :: "(bytes \<Rightarrow> hash) \<Rightarrow> hash \<Rightarrow> block \<Rightarrow> block list \<Rightarrow> speculative_chain \<Rightarrow> speculative_chain" where
  "unwind_loop k invalidHash headBlock [] c = c\<lparr>sc_unappliedBlocks := []\<rparr>"
| "unwind_loop k invalidHash headBlock (cur # before) c =
     (let c1 = c\<lparr>sc_unappliedBlocks := rev before, sc_head := Some (case before of [] \<Rightarrow> headBlock | b # _ \<Rightarrow> b)\<rparr>;
          c2 = removeProposedTxes k cur c1
      in if block_Hash k cur \<noteq> invalidHash
         then unwind_loop k invalidHash headBlock before
                (c2\<lparr>sc_expectedInvalid := insert (block_Hash k cur) (sc_expectedInvalid c2)\<rparr>)
         else c2)"

definition unwindFrom :: "(bytes \<Rightarrow> hash) \<Rightarrow> hash \<Rightarrow> block \<Rightarrow> speculative_chain \<Rightarrow> speculative_chain" where
  "unwindFrom k invalidHash headBlock c =
     (if invalidHash \<in> sc_expectedInvalid c
      then c\<lparr>sc_expectedInvalid := sc_expectedInvalid c - {invalidHash}\<rparr>
      else unwind_loop k invalidHash headBlock (rev (sc_unappliedBlocks c)) c)"

definition withoutProposedTxes ::
  "(bytes \<Rightarrow> hash) \<Rightarrow> (address \<rightharpoonup> txdata list) \<Rightarrow> speculative_chain \<Rightarrow> (address \<rightharpoonup> txdata list)" where
  "withoutProposedTxes k addrTxes c a =
     (case addrTxes a of
        None \<Rightarrow> None
      | Some txes \<Rightarrow>
          (let filtered = filter (\<lambda>tx. tx_Hash k tx \<notin> sc_proposedTxes c) txes
           in if filtered \<noteq> [] then Some filtered else None))"

section \<open>Building a block\<close>

text \<open>What the minter calls: \<open>'s\<close> is the pair of public and private state, \<open>'r\<close> a receipt.
  \<open>me_ApplyTransaction\<close> returns the gas left in the pool, the gas used so far and, unless the transaction
  fails, its receipts and the new state. \<open>me_keys\<close> is the order in which the pending map is walked.\<close>

record ('s, 'r) mint_env =
  me_crypto :: crypto
  me_config :: chain_config
  me_coinbase :: address
  me_nanotime :: int
  me_CalcDifficulty :: "nat \<Rightarrow> header \<Rightarrow> int"
  me_CalcGasLimit :: "block \<Rightarrow> int"
  me_StateAt :: "hash \<Rightarrow> 's option"
  me_Prepare :: "hash \<Rightarrow> nat \<Rightarrow> 's \<Rightarrow> 's"
  me_ApplyTransaction :: "header \<Rightarrow> int \<Rightarrow> txdata \<Rightarrow> 's \<Rightarrow> int \<times> int \<times> ('r \<times> 'r option \<times> 's) option"
  me_AccumulateRewards :: "header \<Rightarrow> 's \<Rightarrow> 's"
  me_IntermediateRoot :: "bool \<Rightarrow> 's \<Rightarrow> 's \<times> hash"
  me_CommitTo :: "bool \<Rightarrow> 's \<Rightarrow> bool"
  me_deriveTx :: "txdata list \<Rightarrow> hash"
  me_deriveRc :: "'r list \<Rightarrow> hash"
  me_CreateBloom :: "'r list \<Rightarrow> bytes"
  me_currentBlock :: block
  me_Pending :: "(address \<rightharpoonup> txdata list) option"
  me_keys :: "address list"

definition generateNanoTimestamp :: "int \<Rightarrow> block \<Rightarrow> int" where
  "generateNanoTimestamp now par =
     (let parentTime = big_Int64 (h_Time (b_header par))
      in if parentTime \<ge> now then wrap_i64 (parentTime + 1) else now)"

definition createWork :: "('s, 'r) mint_env \<Rightarrow> speculative_chain \<Rightarrow> (header \<times> 's) option" where
  "createWork env c =
     (case sc_head c of
        None \<Rightarrow> None
      | Some par \<Rightarrow>
          (let tstamp = generateNanoTimestamp (me_nanotime env) par;
               header = \<lparr>h_ParentHash = block_Hash (kec (me_crypto env)) par, h_UncleHash = 0,
                 h_Coinbase = me_coinbase env, h_Root = 0, h_TxHash = 0, h_ReceiptHash = 0,
                 h_Bloom = replicate 256 0,
                 h_Difficulty = me_CalcDifficulty env (nat (tstamp mod 2 ^ 64)) (b_header par),
                 h_Number = h_Number (b_header par) + 1, h_GasLimit = me_CalcGasLimit env par, h_GasUsed = 0,
                 h_Time = tstamp, h_Extra = [], h_MixDigest = 0, h_Nonce = replicate 8 0\<rparr>
           in case me_StateAt env (h_Root (b_header par)) of
                None \<Rightarrow> None
              | Some s \<Rightarrow> Some (header, s)))"

definition current_signer :: "('s, 'r) mint_env \<Rightarrow> signer" where
  "current_signer env = MakeSigner (me_config env) (Some (h_Number (b_header (me_currentBlock env))))"

definition getTransactions :: "('s, 'r) mint_env \<Rightarrow> speculative_chain \<Rightarrow> price_nonce option" where
  "getTransactions env c =
     (case me_Pending env of
        None \<Rightarrow> None
      | Some allAddrTxes \<Rightarrow>
          (let addrTxes = withoutProposedTxes (kec (me_crypto env)) allAddrTxes c
           in NewTransactionsByPriceAndNonce (me_crypto env) (current_signer env)
                (filter (\<lambda>a. addrTxes a \<noteq> None) (me_keys env)) addrTxes))"

text \<open>A failed transaction leaves the state as it was: \<^verbatim>\<open>commitTransaction\<close> reverts to the
  snapshots it took. What the execution did to the gas pool and the gas counter stays.\<close>

definition commitTransaction :: "('s, 'r) mint_env \<Rightarrow> txdata \<Rightarrow> int \<Rightarrow> header \<Rightarrow> 's \<Rightarrow>
    int \<times> header \<times> 's \<times> ('r \<times> 'r option) option" where
  "commitTransaction env tx gp header s =
     (case me_ApplyTransaction env header gp tx s of
        (gp1, used, None) \<Rightarrow> (gp1, header\<lparr>h_GasUsed := used\<rparr>, s, None)
      | (gp1, used, Some (pub, priv, s1)) \<Rightarrow> (gp1, header\<lparr>h_GasUsed := used\<rparr>, s1, Some (pub, priv)))"

text \<open>The loop of \<^verbatim>\<open>commitTransactions\<close>; its result holds the committed transactions, the public and the
  private receipts. The first argument bounds the number of turns, and running out of it is the value
  \<^verbatim>\<open>None\<close>; \<open>commit_loop_ends\<close> shows that the number of waiting transactions is enough.\<close>

fun commit_loop :: "nat \<Rightarrow> ('s, 'r) mint_env \<Rightarrow> price_nonce \<Rightarrow> int \<Rightarrow> txdata list \<Rightarrow> 'r list \<Rightarrow> 'r list \<Rightarrow> header \<Rightarrow> 's \<Rightarrow>
    (txdata list \<times> 'r list \<times> 'r list \<times> header \<times> 's) option" where
  "commit_loop n env txes gp committed pubs privs header s =
     (case pn_Peek txes of
        None \<Rightarrow> Some (committed, pubs, privs, header, s)
      | Some tx \<Rightarrow>
          (case n of
             0 \<Rightarrow> None
           | Suc m \<Rightarrow>
               (case commitTransaction env tx gp header
                       (me_Prepare env (tx_Hash (kec (me_crypto env)) tx) (length committed) s) of
                  (gp1, header1, s1, None) \<Rightarrow>
                    (case pn_Pop txes of
                       None \<Rightarrow> None
                     | Some txes1 \<Rightarrow> commit_loop m env txes1 gp1 committed pubs privs header1 s1)
                | (gp1, header1, s1, Some (pub, priv)) \<Rightarrow>
                    (case pn_Shift (sender_of (me_crypto env) (current_signer env)) txes of
                       None \<Rightarrow> None
                     | Some txes1 \<Rightarrow>
                         commit_loop m env txes1 gp1 (committed @ [tx]) (pubs @ [pub])
                           (case priv of None \<Rightarrow> privs | Some r \<Rightarrow> privs @ [r]) header1 s1))))"

declare commit_loop.simps [simp del]

definition pending_accounts :: "('s, 'r) mint_env \<Rightarrow> price_nonce \<Rightarrow> address list" where
  "pending_accounts env t =
     remdups (me_keys env @ map (sender_of (me_crypto env) (current_signer env)) (pn_heads t))"

definition pending_size :: "address list \<Rightarrow> price_nonce \<Rightarrow> nat" where
  "pending_size as t = length (pn_heads t) + (\<Sum>a \<leftarrow> as. length (waiting t a))"

definition commitTransactions :: "('s, 'r) mint_env \<Rightarrow> price_nonce \<Rightarrow> header \<Rightarrow> 's \<Rightarrow>
    (txdata list \<times> 'r list \<times> 'r list \<times> header \<times> 's) option" where
  "commitTransactions env txes header s =
     commit_loop (pending_size (pending_accounts env txes) txes) env txes (h_GasLimit header) [] [] [] header s"

text \<open>\<^verbatim>\<open>None\<close> is a panic; the new block is the one posted as \<^verbatim>\<open>NewMinedBlockEvent\<close>.\<close>

definition mintNewBlock :: "('s, 'r) mint_env \<Rightarrow> speculative_chain \<Rightarrow> (block option \<times> speculative_chain) option" where
  "mintNewBlock env c =
     Option.bind (createWork env c) (\<lambda>(header0, s0).
     Option.bind (getTransactions env c) (\<lambda>transactions.
     Option.bind (commitTransactions env transactions header0 s0) (\<lambda>(committedTxes, pubs, privs, header1, s1).
       if committedTxes = [] then Some (None, c)
       else
         (let k = kec (me_crypto env);
              deleteEmptyObjects = IsEIP158 (me_config env) (Some (h_Number header1));
              (s2, root) = me_IntermediateRoot env deleteEmptyObjects (me_AccumulateRewards env header1 s1);
              header2 = header1\<lparr>h_Root := root, h_Bloom := me_CreateBloom env (pubs @ privs)\<rparr>;
              b = NewBlock k (me_deriveTx env) (me_deriveRc env) (me_CreateBloom env) header2 committedTxes [] pubs
          in if \<not> me_CommitTo env deleteEmptyObjects s2 then None
             else Some (Some b, sc_extend k b c)))))"

section \<open>The minter\<close>

text \<open>\<open>mi_shouldMine\<close> is the ring channel of size one: whether a request is waiting.\<close>

record minter =
  mi_minting :: bool
  mi_chain :: speculative_chain
  mi_shouldMine :: bool

definition newMinter :: "block \<Rightarrow> minter" where
  "newMinter current = \<lparr>mi_minting = False, mi_chain = sc_clear current newSpeculativeChain, mi_shouldMine = False\<rparr>"

definition requestMinting :: "minter \<Rightarrow> minter" where
  "requestMinting m = m\<lparr>mi_shouldMine := True\<rparr>"

definition minter_start :: "minter \<Rightarrow> minter" where
  "minter_start m = requestMinting (m\<lparr>mi_minting := True\<rparr>)"

definition minter_stop :: "block \<Rightarrow> minter \<Rightarrow> minter" where
  "minter_stop current m = m\<lparr>mi_chain := sc_clear current (mi_chain m), mi_minting := False\<rparr>"

definition updateSpeculativeChainPerNewHead :: "(bytes \<Rightarrow> hash) \<Rightarrow> block \<Rightarrow> minter \<Rightarrow> minter" where
  "updateSpeculativeChainPerNewHead k b m = m\<lparr>mi_chain := sc_accept k b (mi_chain m)\<rparr>"

definition updateSpeculativeChainPerInvalidOrdering ::
  "(bytes \<Rightarrow> hash) \<Rightarrow> (hash \<Rightarrow> nat \<Rightarrow> bool) \<Rightarrow> block \<Rightarrow> block \<Rightarrow> minter \<Rightarrow> minter" where
  "updateSpeculativeChainPerInvalidOrdering k hasBlock headBlock invalidBlock m =
     (let invalidHash = block_Hash k invalidBlock
      in if \<not> hasBlock invalidHash (big_Uint64 (h_Number (b_header invalidBlock))) then m
         else m\<lparr>mi_chain := unwindFrom k invalidHash headBlock (mi_chain m)\<rparr>)"

datatype minter_event = ChainHeadEvent block | TxPreEvent | InvalidRaftOrdering block block

text \<open>One turn of \<^verbatim>\<open>eventLoop\<close>, for a flag read as \<open>flag\<close>: the flag can change between the reading and
  the lock.\<close>

fun eventLoop_turn :: "(bytes \<Rightarrow> hash) \<Rightarrow> (hash \<Rightarrow> nat \<Rightarrow> bool) \<Rightarrow> bool \<Rightarrow> minter_event \<Rightarrow> minter \<Rightarrow> minter" where
  "eventLoop_turn k hasBlock flag (ChainHeadEvent b) m =
     (if flag then requestMinting (updateSpeculativeChainPerNewHead k b m)
      else m\<lparr>mi_chain := sc_setHead b (mi_chain m)\<rparr>)"
| "eventLoop_turn k hasBlock flag TxPreEvent m = (if flag then requestMinting m else m)"
| "eventLoop_turn k hasBlock flag (InvalidRaftOrdering headBlock invalidBlock) m =
     updateSpeculativeChainPerInvalidOrdering k hasBlock headBlock invalidBlock m"

text \<open>The steps of the minter's goroutines, one per locked section, so that every interleaving is a
  sequence of steps. A chain head that has the hash of an unapplied block has its transactions.\<close>

inductive minter_step :: "(bytes \<Rightarrow> hash) \<Rightarrow> ('s, 'r) mint_env set \<Rightarrow> minter \<Rightarrow> minter \<Rightarrow> bool"
  for k :: "bytes \<Rightarrow> hash" and envs :: "('s, 'r) mint_env set" where
  step_start: "minter_step k envs m (minter_start m)"
| step_stop: "minter_step k envs m (minter_stop current m)"
| step_event: "(\<And>b b'. ev = ChainHeadEvent b \<Longrightarrow> b' \<in> set (sc_unappliedBlocks (mi_chain m)) \<Longrightarrow>
      block_Hash k b' = block_Hash k b \<Longrightarrow> b_transactions b' = b_transactions b) \<Longrightarrow>
    minter_step k envs m (eventLoop_turn k hasBlock flag ev m)"
| step_take: "mi_shouldMine m \<Longrightarrow> minter_step k envs m (m\<lparr>mi_shouldMine := False\<rparr>)"
| step_mint: "env \<in> envs \<Longrightarrow> kec (me_crypto env) = k \<Longrightarrow> mintNewBlock env (mi_chain m) = Some (ob, c) \<Longrightarrow>
    minter_step k envs m (m\<lparr>mi_chain := c\<rparr>)"

section \<open>What the loop of the minter commits\<close>

definition pn_elems :: "price_nonce \<Rightarrow> txdata set" where
  "pn_elems t = set (pn_heads t) \<union> (\<Union>a. set (waiting t a))"

lemma pn_Pop_step:
  assumes "is_heap price_key (pn_heads t)" "pn_heads t \<noteq> []"
  shows "\<exists>t'. pn_Pop t = Some t' \<and> is_heap price_key (pn_heads t') \<and> waiting t' = waiting t \<and>
    mset (pn_heads t) = add_mset (pn_heads t ! 0) (mset (pn_heads t'))"
  using heap_Pop_heap [OF assms] by (auto simp: pn_Pop_def waiting_def fun_eq_iff)

lemma pn_Shift_step:
  assumes h: "is_heap price_key (pn_heads t)" and ne: "pn_heads t \<noteq> []"
  shows "\<exists>t'. pn_Shift sender t = Some t' \<and> is_heap price_key (pn_heads t') \<and>
    (pn_Pop t = Some t' \<or>
     (\<exists>x xs. waiting t (sender (pn_heads t ! 0)) = x # xs \<and> waiting t' = (waiting t)(sender (pn_heads t ! 0) := xs) \<and>
        mset (pn_heads t') = mset ((pn_heads t)[0 := x])))"
proof (cases "waiting t (sender (pn_heads t ! 0))")
  case Nil
  then have "pn_Shift sender t = pn_Pop t" using ne by (auto simp: pn_Shift_def waiting_def Let_def split: option.splits)
  then show ?thesis using pn_Pop_step [OF assms] by auto
next
  case (Cons x xs)
  then have "pn_txs t (sender (pn_heads t ! 0)) = Some (x # xs)" by (auto simp: waiting_def split: option.splits)
  then show ?thesis using ne Cons heap_Fix_root [OF assms, of x] by (auto simp: pn_Shift_def waiting_def fun_eq_iff)
qed

text \<open>Every turn takes at least one transaction away, whether it commits one or drops an account.\<close>

lemma sum_list_update_one:
  assumes "distinct as" "a \<in> set as" "f a = Suc n"
  shows "(\<Sum>b \<leftarrow> as. f b) = Suc (\<Sum>b \<leftarrow> as. (f(a := n)) b)"
  using assms
proof (induction as)
  case (Cons c as)
  show ?case
  proof (cases "c = a")
    case True
    then have "(\<Sum>b \<leftarrow> as. (f(a := n)) b) = (\<Sum>b \<leftarrow> as. f b)" using Cons.prems(1)
      by (intro arg_cong [where f = sum_list] map_cong) auto
    then show ?thesis using True Cons.prems by simp
  next
    case False
    then show ?thesis using Cons by simp
  qed
qed simp

lemma pending_size_Pop:
  assumes "is_heap price_key (pn_heads t)" "pn_heads t \<noteq> []" "pn_Pop t = Some t'"
  shows "is_heap price_key (pn_heads t')" "pending_size as t = Suc (pending_size as t')" "waiting t' = waiting t"
    "pn_elems t' \<subseteq> pn_elems t"
proof -
  from pn_Pop_step [OF assms(1,2)] assms(3)
  have m: "mset (pn_heads t) = add_mset (pn_heads t ! 0) (mset (pn_heads t'))" and w: "waiting t' = waiting t"
    and "is_heap price_key (pn_heads t')" by auto
  then show "is_heap price_key (pn_heads t')" "waiting t' = waiting t" by simp_all
  show "pending_size as t = Suc (pending_size as t')"
    using arg_cong [OF m, of size] w by (simp add: pending_size_def)
  show "pn_elems t' \<subseteq> pn_elems t" using arg_cong [OF m, of set_mset] w by (auto simp: pn_elems_def)
qed

lemma pending_size_Shift:
  assumes "is_heap price_key (pn_heads t)" "pn_heads t \<noteq> []" "pn_Shift sender t = Some t'"
    and "distinct as" "\<And>a. waiting t a \<noteq> [] \<Longrightarrow> a \<in> set as"
  shows "is_heap price_key (pn_heads t')" "pending_size as t = Suc (pending_size as t')"
    "\<And>a. waiting t' a \<noteq> [] \<Longrightarrow> a \<in> set as" "pn_elems t' \<subseteq> pn_elems t"
proof -
  let ?a = "sender (pn_heads t ! 0)"
  consider (pop) "pn_Pop t = Some t'"
    | (more) x xs where "waiting t ?a = x # xs" "waiting t' = (waiting t)(?a := xs)"
        "mset (pn_heads t') = mset ((pn_heads t)[0 := x])" "is_heap price_key (pn_heads t')"
    using pn_Shift_step [OF assms(1,2), of sender] assms(3) by auto
  then have "is_heap price_key (pn_heads t') \<and> pending_size as t = Suc (pending_size as t') \<and>
      (\<forall>a. waiting t' a \<noteq> [] \<longrightarrow> a \<in> set as) \<and> pn_elems t' \<subseteq> pn_elems t"
  proof cases
    case pop
    then show ?thesis using pending_size_Pop [OF assms(1,2) pop] assms(5) by auto
  next
    case more
    have "length (pn_heads t') = length (pn_heads t)" using arg_cong [OF more(3), of size] by simp
    moreover have "(\<lambda>b. length (waiting t' b)) = (\<lambda>b. length (waiting t b))(?a := length xs)"
      by (simp add: more(2) fun_eq_iff)
    ultimately have "pending_size as t = Suc (pending_size as t')"
      using sum_list_update_one [OF assms(4), of ?a "\<lambda>b. length (waiting t b)" "length xs"] assms(5) [of ?a] more(1)
      by (simp add: pending_size_def fun_upd_def)
    moreover have "set (pn_heads t') \<subseteq> insert x (set (pn_heads t))"
      using mset_eq_setD [OF more(3)] set_update_subset_insert by metis
    moreover have "x \<in> set (waiting t ?a)" "\<And>b. set (waiting t' b) \<subseteq> set (waiting t b)" using more(1,2) by auto
    ultimately have "pending_size as t = Suc (pending_size as t')" "pn_elems t' \<subseteq> pn_elems t"
      unfolding pn_elems_def by blast+
    then show ?thesis using more(1,2,4) assms(5) by auto
  qed
  then show "is_heap price_key (pn_heads t')" "pending_size as t = Suc (pending_size as t')"
    "\<And>a. waiting t' a \<noteq> [] \<Longrightarrow> a \<in> set as" "pn_elems t' \<subseteq> pn_elems t" by auto
qed

lemma commitTransaction_header:
  "\<exists>gp1 used s1 r. commitTransaction env tx gp header s = (gp1, header\<lparr>h_GasUsed := used\<rparr>, s1, r)"
proof -
  obtain gp1 used r where a: "me_ApplyTransaction env header gp tx s = (gp1, used, r)" by (cases "me_ApplyTransaction env header gp tx s")
  show ?thesis by (cases r) (auto simp: commitTransaction_def a)
qed

text \<open>The price and nonce set as the loop keeps it: a heap whose waiting accounts are known.\<close>

definition pn_bounded :: "address list \<Rightarrow> price_nonce \<Rightarrow> bool" where
  "pn_bounded as t \<longleftrightarrow> is_heap price_key (pn_heads t) \<and> distinct as \<and> (\<forall>a. waiting t a \<noteq> [] \<longrightarrow> a \<in> set as)"

lemma commit_loop_turn:
  assumes b: "pn_bounded as txes" and ne: "pn_heads txes \<noteq> []"
  shows "\<exists>t' gp' new pubs' privs' used s'.
    commit_loop (Suc n) env txes gp committed pubs privs header s =
      commit_loop n env t' gp' (committed @ new) pubs' privs' (header\<lparr>h_GasUsed := used\<rparr>) s' \<and>
    pn_bounded as t' \<and> pending_size as txes = Suc (pending_size as t') \<and> pn_elems t' \<union> set new \<subseteq> pn_elems txes"
proof -
  let ?sender = "sender_of (me_crypto env) (current_signer env)"
  let ?tx = "pn_heads txes ! 0"
  have h: "is_heap price_key (pn_heads txes)" "distinct as" "\<And>a. waiting txes a \<noteq> [] \<Longrightarrow> a \<in> set as"
    using b by (auto simp: pn_bounded_def)
  have tx: "?tx \<in> pn_elems txes" using ne by (simp add: pn_elems_def)
  obtain gp1 used s1 r where c: "commitTransaction env ?tx gp header
      (me_Prepare env (tx_Hash (kec (me_crypto env)) ?tx) (length committed) s) = (gp1, header\<lparr>h_GasUsed := used\<rparr>, s1, r)"
    using commitTransaction_header [of env ?tx gp header "me_Prepare env (tx_Hash (kec (me_crypto env)) ?tx) (length committed) s"]
    by auto
  show ?thesis
  proof (cases r)
    case None
    obtain t' where t': "pn_Pop txes = Some t'" using pn_Pop_step [OF h(1) ne] by blast
    note p = pending_size_Pop [OF h(1) ne t']
    have "commit_loop (Suc n) env txes gp committed pubs privs header s =
        commit_loop n env t' gp1 (committed @ []) pubs privs (header\<lparr>h_GasUsed := used\<rparr>) s1"
      by (simp add: commit_loop.simps [of "Suc n"] pn_Peek_def ne c None t')
    moreover have "pn_bounded as t'" using p(1,3) h by (auto simp: pn_bounded_def)
    moreover have "pn_elems t' \<union> set [] \<subseteq> pn_elems txes" using p(4) by simp
    ultimately show ?thesis using p(2) [of as] by blast
  next
    case (Some pr)
    obtain pub priv where pr: "pr = (pub, priv)" by (cases pr)
    obtain t' where t': "pn_Shift ?sender txes = Some t'" using pn_Shift_step [OF h(1) ne] by blast
    note p = pending_size_Shift [OF h(1) ne t' h(2,3)]
    have "commit_loop (Suc n) env txes gp committed pubs privs header s =
        commit_loop n env t' gp1 (committed @ [?tx]) (pubs @ [pub]) (case priv of None \<Rightarrow> privs | Some q \<Rightarrow> privs @ [q])
          (header\<lparr>h_GasUsed := used\<rparr>) s1"
      by (simp add: commit_loop.simps [of "Suc n"] pn_Peek_def ne c Some pr t')
    moreover have "pn_bounded as t'" using p(1,3) h by (auto simp: pn_bounded_def)
    moreover have "pn_elems t' \<union> set [?tx] \<subseteq> pn_elems txes" using p(4) tx by simp
    ultimately show ?thesis using p(2) by blast
  qed
qed

lemma commit_loop_ends:
  assumes "pn_bounded as txes" "pending_size as txes \<le> n"
  shows "\<exists>new pubs' privs' used s'.
    commit_loop n env txes gp committed pubs privs header s =
      Some (committed @ new, pubs', privs', header\<lparr>h_GasUsed := used\<rparr>, s') \<and> set new \<subseteq> pn_elems txes"
  using assms
proof (induction n arbitrary: txes gp committed pubs privs header s)
  case 0
  then have "pn_heads txes = []" by (simp add: pending_size_def)
  then show ?case by (auto simp: commit_loop.simps [of 0] pn_Peek_def intro!: exI [of _ "h_GasUsed header"])
next
  case (Suc n)
  show ?case
  proof (cases "pn_heads txes = []")
    case True
    then show ?thesis by (auto simp: commit_loop.simps [of "Suc n"] pn_Peek_def intro!: exI [of _ "h_GasUsed header"])
  next
    case False
    from commit_loop_turn [OF Suc.prems(1) False, of n env gp committed pubs privs header s]
    obtain t' gp' new pubs' privs' used s' where
      e: "commit_loop (Suc n) env txes gp committed pubs privs header s =
        commit_loop n env t' gp' (committed @ new) pubs' privs' (header\<lparr>h_GasUsed := used\<rparr>) s'" and
      t': "pn_bounded as t'" "pending_size as txes = Suc (pending_size as t')" "pn_elems t' \<union> set new \<subseteq> pn_elems txes"
      by blast
    from Suc.IH [OF t'(1), of gp' "committed @ new" pubs' privs' "header\<lparr>h_GasUsed := used\<rparr>" s'] t'(2) Suc.prems(2)
    obtain new' pubs2 privs2 u s2 where
      "commit_loop (Suc n) env txes gp committed pubs privs header s =
        Some (committed @ (new @ new'), pubs2, privs2, header\<lparr>h_GasUsed := u\<rparr>, s2)" "set new' \<subseteq> pn_elems t'"
      using e by auto
    moreover have "set (new @ new') \<subseteq> pn_elems txes" using t'(3) calculation(2) by auto
    ultimately show ?thesis by blast
  qed
qed

text \<open>The set that \<open>getTransactions\<close> builds holds transactions of the pending map that are not proposed.\<close>

definition map_txs :: "(address \<rightharpoonup> txdata list) \<Rightarrow> txdata set" where
  "map_txs m = {x. \<exists>a xs. m a = Some xs \<and> x \<in> set xs}"

lemma collect_heads_elems:
  assumes "collect_heads sender ks txs hds = Some (txs', hds')"
  shows "set hds' \<subseteq> set hds \<union> map_txs txs \<and> map_txs txs' \<subseteq> set hds \<union> map_txs txs \<and>
    dom txs' \<subseteq> dom txs \<union> sender ` set hds' \<and> set hds \<subseteq> set hds'"
  using assms
proof (induction ks arbitrary: txs hds)
  case (Cons k ks)
  then obtain t ts where t: "txs k = Some (t # ts)"
    and r: "collect_heads sender ks (txs(sender t \<mapsto> ts)) (hds @ [t]) = Some (txs', hds')"
    by (auto split: option.splits list.splits)
  have k: "insert t (set ts) \<subseteq> map_txs txs" using t by (force simp: map_txs_def)
  have u: "map_txs (txs(sender t \<mapsto> ts)) \<subseteq> set ts \<union> map_txs txs" by (auto simp: map_txs_def split: if_splits)
  have s: "set (hds @ [t]) = insert t (set hds)" "dom (txs(sender t \<mapsto> ts)) = insert (sender t) (dom txs)" by auto
  show ?case using Cons.IH [OF r] k u unfolding s by blast
qed simp

lemma waiting_map_txs: "set (waiting t a) \<subseteq> map_txs (pn_txs t)"
  by (cases "pn_txs t a") (auto simp: waiting_def map_txs_def)

lemma without_elems: "x \<in> map_txs (withoutProposedTxes k txs c) \<Longrightarrow> tx_Hash k x \<notin> sc_proposedTxes c"
  by (auto simp: map_txs_def withoutProposedTxes_def Let_def split: option.splits if_splits)

lemma getTransactions_Some:
  assumes "getTransactions env c = Some t"
  shows "\<exists>p. me_Pending env = Some p \<and> is_heap price_key (pn_heads t) \<and>
    pn_elems t \<subseteq> map_txs (withoutProposedTxes (kec (me_crypto env)) p c) \<and>
    dom (pn_txs t) \<subseteq> dom p \<union> sender_of (me_crypto env) (current_signer env) ` set (pn_heads t)"
proof -
  obtain p txs1 hds where p: "me_Pending env = Some p"
    and h: "collect_heads (sender_of (me_crypto env) (current_signer env))
      (filter (\<lambda>a. withoutProposedTxes (kec (me_crypto env)) p c a \<noteq> None) (me_keys env))
      (withoutProposedTxes (kec (me_crypto env)) p c) [] = Some (txs1, hds)"
    and t: "pn_txs t = txs1" "pn_heads t = heap_Init price_key hds"
    using assms(1) by (auto simp: getTransactions_def NewTransactionsByPriceAndNonce_def Let_def split: option.splits)
  have s: "set (pn_heads t) = set hds" using heap_Init_heap(2) [of price_key hds] t(2) by (metis set_mset_mset)
  have "dom (withoutProposedTxes (kec (me_crypto env)) p c) \<subseteq> dom p"
    by (auto simp: withoutProposedTxes_def split: option.splits)
  moreover have "pn_elems t \<subseteq> set hds \<union> map_txs txs1" using waiting_map_txs [of t] s t(1) by (auto simp: pn_elems_def)
  moreover have "set hds \<union> map_txs txs1 \<subseteq> map_txs (withoutProposedTxes (kec (me_crypto env)) p c)"
    "dom txs1 \<subseteq> dom (withoutProposedTxes (kec (me_crypto env)) p c) \<union> sender_of (me_crypto env) (current_signer env) ` set hds"
    using collect_heads_elems [OF h] by auto
  ultimately have "pn_elems t \<subseteq> map_txs (withoutProposedTxes (kec (me_crypto env)) p c)"
    "dom txs1 \<subseteq> dom p \<union> sender_of (me_crypto env) (current_signer env) ` set hds" by blast+
  then show ?thesis unfolding s t(1) using p heap_Init_heap(1) [of price_key hds] t(2) by metis
qed

text \<open>The order in which the pending map is walked lists its accounts.\<close>

definition walks_pending :: "('s, 'r) mint_env \<Rightarrow> bool" where
  "walks_pending env \<longleftrightarrow> distinct (me_keys env) \<and> (\<forall>p. me_Pending env = Some p \<longrightarrow> set (me_keys env) = dom p)"

lemma commitTransactions_ends:
  assumes "walks_pending env" "getTransactions env c = Some t"
  shows "\<exists>new pubs privs used s'. commitTransactions env t header s = Some (new, pubs, privs, header\<lparr>h_GasUsed := used\<rparr>, s') \<and>
    (\<forall>tx \<in> set new. tx_Hash (kec (me_crypto env)) tx \<notin> sc_proposedTxes c)"
proof -
  obtain p where p: "me_Pending env = Some p" "is_heap price_key (pn_heads t)"
    "pn_elems t \<subseteq> map_txs (withoutProposedTxes (kec (me_crypto env)) p c)"
    "dom (pn_txs t) \<subseteq> dom p \<union> sender_of (me_crypto env) (current_signer env) ` set (pn_heads t)"
    using getTransactions_Some [OF assms(2)] by blast
  have "a \<in> dom (pn_txs t)" if "waiting t a \<noteq> []" for a using that by (auto simp: waiting_def split: option.splits)
  moreover have "set (pending_accounts env t) = dom p \<union> sender_of (me_crypto env) (current_signer env) ` set (pn_heads t)"
    using assms(1) p(1) by (simp add: walks_pending_def pending_accounts_def)
  ultimately have "a \<in> set (pending_accounts env t)" if "waiting t a \<noteq> []" for a using p(4) that by blast
  then have "pn_bounded (pending_accounts env t) t"
    using p(2) by (simp add: pn_bounded_def) (simp add: pending_accounts_def)
  from commit_loop_ends [OF this order_refl, of env "h_GasLimit header" "[]" "[]" "[]" header s] show ?thesis
    using p(3) without_elems unfolding commitTransactions_def by fastforce
qed

section \<open>The invariant of the speculative chain\<close>

text \<open>The recorded hashes are those of the transactions in unapplied blocks, and no two unapplied blocks
  share a transaction.\<close>

definition spec_ok :: "(bytes \<Rightarrow> hash) \<Rightarrow> speculative_chain \<Rightarrow> bool" where
  "spec_ok k c \<longleftrightarrow> sc_proposedTxes c = (\<Union>b \<in> set (sc_unappliedBlocks c). set (tx_hashes k b)) \<and>
     sorted_wrt (\<lambda>a b. set (tx_hashes k a) \<inter> set (tx_hashes k b) = {}) (sc_unappliedBlocks c)"

lemma spec_ok_clear [simp]: "spec_ok k (sc_clear b c)"
  by (simp add: spec_ok_def sc_clear_def)

lemma spec_ok_setHead [simp]: "spec_ok k (sc_setHead b c) = spec_ok k c"
  by (simp add: spec_ok_def sc_setHead_def)

lemma spec_ok_extend:
  assumes "spec_ok k c" "\<forall>tx \<in> set (b_transactions b). tx_Hash k tx \<notin> sc_proposedTxes c"
  shows "spec_ok k (sc_extend k b c)"
proof -
  have "set (tx_hashes k b) \<inter> sc_proposedTxes c = {}" using assms(2) by (auto simp: tx_hashes_def)
  moreover have "tx_Hash k ` set (b_transactions b) = set (tx_hashes k b)" by (simp add: tx_hashes_def)
  ultimately show ?thesis
    using assms(1) by (auto simp: spec_ok_def sc_extend_def recordProposedTransactions_def sorted_wrt_append)
qed

lemma spec_ok_accept:
  assumes "spec_ok k c"
    and "\<And>b. b \<in> set (sc_unappliedBlocks c) \<Longrightarrow> block_Hash k b = block_Hash k a \<Longrightarrow> b_transactions b = b_transactions a"
  shows "spec_ok k (sc_accept k a c)"
proof (cases "sc_unappliedBlocks c")
  case Nil
  then show ?thesis using assms(1) by (simp add: spec_ok_def sc_accept_def removeProposedTxes_def)
next
  case (Cons e rest)
  show ?thesis
  proof (cases "block_Hash k e = block_Hash k a")
    case True
    then have "tx_Hash k ` set (b_transactions a) = set (tx_hashes k e)"
      using assms(2) [of e] Cons by (simp add: tx_hashes_def)
    then show ?thesis
      using assms(1) Cons True by (auto simp: spec_ok_def sc_accept_def removeProposedTxes_def)
  qed (simp add: sc_accept_def Cons)
qed

lemma spec_ok_drop_last:
  assumes "spec_ok k c" "sc_unappliedBlocks c = rest @ [b]"
  shows "spec_ok k (removeProposedTxes k b (c\<lparr>sc_unappliedBlocks := rest, sc_head := x\<rparr>))"
proof -
  have "tx_Hash k ` set (b_transactions b) = set (tx_hashes k b)" by (simp add: tx_hashes_def)
  then show ?thesis using assms by (auto simp: spec_ok_def removeProposedTxes_def sorted_wrt_append)
qed

lemma spec_ok_unwind_loop:
  "spec_ok k c \<Longrightarrow> sc_unappliedBlocks c = rev bs \<Longrightarrow> spec_ok k (unwind_loop k h hb bs c)"
proof (induction bs arbitrary: c)
  case (Cons b bs)
  let ?c = "removeProposedTxes k b (c\<lparr>sc_unappliedBlocks := rev bs, sc_head := Some (case bs of [] \<Rightarrow> hb | b # _ \<Rightarrow> b)\<rparr>)"
  have "spec_ok k ?c" using spec_ok_drop_last [OF Cons.prems(1)] Cons.prems(2) by simp
  moreover from this have "spec_ok k (?c\<lparr>sc_expectedInvalid := insert (block_Hash k b) (sc_expectedInvalid ?c)\<rparr>)"
    by (simp add: spec_ok_def)
  moreover have "sc_unappliedBlocks (?c\<lparr>sc_expectedInvalid := insert (block_Hash k b) (sc_expectedInvalid ?c)\<rparr>) = rev bs"
    by (simp add: removeProposedTxes_def)
  ultimately show ?case using Cons.IH by (simp add: Let_def)
qed (simp add: spec_ok_def)

lemma spec_ok_unwindFrom: "spec_ok k c \<Longrightarrow> spec_ok k (unwindFrom k h hb c)"
  using spec_ok_unwind_loop [of k c "rev (sc_unappliedBlocks c)" h hb] by (simp add: unwindFrom_def) (simp add: spec_ok_def)

section \<open>Minted blocks\<close>

text \<open>What a new block says of its parent, and that its transactions are new.\<close>

definition extends :: "('s, 'r) mint_env \<Rightarrow> speculative_chain \<Rightarrow> block \<Rightarrow> block \<Rightarrow> bool" where
  "extends env c par b \<longleftrightarrow> b_transactions b \<noteq> [] \<and>
     (\<forall>tx \<in> set (b_transactions b). tx_Hash (kec (me_crypto env)) tx \<notin> sc_proposedTxes c) \<and>
     h_ParentHash (b_header b) = block_Hash (kec (me_crypto env)) par \<and>
     h_Number (b_header b) = h_Number (b_header par) + 1 \<and>
     h_Time (b_header b) = generateNanoTimestamp (me_nanotime env) par"

lemma NewBlock_fields [simp]:
  "b_transactions (NewBlock k dt dr cb h txs us rs) = txs"
  "h_ParentHash (b_header (NewBlock k dt dr cb h txs us rs)) = h_ParentHash h"
  "h_Number (b_header (NewBlock k dt dr cb h txs us rs)) = h_Number h"
  "h_Time (b_header (NewBlock k dt dr cb h txs us rs)) = h_Time h"
  by (simp_all add: NewBlock_def Let_def)

lemma mintNewBlock_work:
  assumes "walks_pending env" "createWork env c = Some (header, s)" "getTransactions env c = Some t"
    and "sc_head c = Some par"
  shows "mintNewBlock env c = Some (None, c) \<or>
    (\<exists>b ok. extends env c par b \<and> mintNewBlock env c = (if ok then Some (Some b, sc_extend (kec (me_crypto env)) b c) else None) \<and>
       ((\<forall>d s. me_CommitTo env d s) \<longrightarrow> ok))"
proof -
  obtain new pubs privs used s' where n: "commitTransactions env t header s = Some (new, pubs, privs, header\<lparr>h_GasUsed := used\<rparr>, s')"
    and f: "\<forall>tx \<in> set new. tx_Hash (kec (me_crypto env)) tx \<notin> sc_proposedTxes c"
    using commitTransactions_ends [OF assms(1,3)] by blast
  have h: "h_ParentHash header = block_Hash (kec (me_crypto env)) par" "h_Number header = h_Number (b_header par) + 1"
    "h_Time header = generateNanoTimestamp (me_nanotime env) par"
    using assms(2,4) by (auto simp: createWork_def Let_def split: option.splits)
  let ?del = "IsEIP158 (me_config env) (Some (h_Number header))"
  obtain s2 root where r: "me_IntermediateRoot env ?del (me_AccumulateRewards env (header\<lparr>h_GasUsed := used\<rparr>) s') = (s2, root)"
    by fastforce
  let ?b = "NewBlock (kec (me_crypto env)) (me_deriveTx env) (me_deriveRc env) (me_CreateBloom env)
    (header\<lparr>h_GasUsed := used, h_Root := root, h_Bloom := me_CreateBloom env (pubs @ privs)\<rparr>) new [] pubs"
  show ?thesis
  proof (cases "new = []")
    case True
    then show ?thesis by (simp add: mintNewBlock_def assms n)
  next
    case False
    then have "extends env c par ?b" using f h by (simp add: extends_def)
    moreover have "mintNewBlock env c =
        (if me_CommitTo env ?del s2 then Some (Some ?b, sc_extend (kec (me_crypto env)) ?b c) else None)"
      using False r by (simp add: mintNewBlock_def assms n Let_def)
    ultimately show ?thesis by blast
  qed
qed

lemma mintNewBlock_cases:
  assumes "walks_pending env" "mintNewBlock env c = Some (ob, c')"
  obtains "ob = None" "c' = c"
    | par b where "ob = Some b" "sc_head c = Some par" "c' = sc_extend (kec (me_crypto env)) b c" "extends env c par b"
proof -
  obtain header s t where w: "createWork env c = Some (header, s)" "getTransactions env c = Some t"
    using assms(2) by (auto simp: mintNewBlock_def split: Option.bind_splits)
  then obtain par where p: "sc_head c = Some par" by (auto simp: createWork_def split: option.splits)
  from mintNewBlock_work [OF assms(1) w p] that p assms(2) show thesis by (auto split: if_splits)
qed

lemma getTransactions_exists:
  assumes "me_Pending env = Some p" "walks_pending env"
    and "\<And>a xs x. p a = Some xs \<Longrightarrow> x \<in> set xs \<Longrightarrow> sender_of (me_crypto env) (current_signer env) x = a"
  shows "\<exists>t. getTransactions env c = Some t"
proof -
  let ?w = "withoutProposedTxes (kec (me_crypto env)) p c" and ?sender = "sender_of (me_crypto env) (current_signer env)"
  let ?ks = "filter (\<lambda>a. ?w a \<noteq> None) (me_keys env)"
  have "\<exists>t ts. ?w a = Some (t # ts) \<and> (\<forall>x \<in> set (t # ts). ?sender x = a)" if a: "a \<in> set ?ks" for a
  proof -
    obtain xs where xs: "?w a = Some xs" using a by auto
    then obtain ys where ys: "p a = Some ys" "xs \<noteq> []" "set xs \<subseteq> set ys"
      by (auto simp: withoutProposedTxes_def Let_def split: option.splits if_splits)
    then show ?thesis using xs assms(3) [OF ys(1)] by (cases xs) auto
  qed
  then obtain txs' new where "collect_heads ?sender ?ks ?w [] = Some (txs', [] @ new)"
    using collect_heads_ok [of ?ks ?w ?sender "[]"] assms(2) by (auto simp: walks_pending_def)
  then show ?thesis by (simp add: getTransactions_def NewTransactionsByPriceAndNonce_def assms(1) Let_def)
qed

lemma minter_step_spec_ok:
  assumes "minter_step k envs m m'" "\<forall>env \<in> envs. walks_pending env" "spec_ok k (mi_chain m)"
  shows "spec_ok k (mi_chain m')"
  using assms
proof (cases rule: minter_step.cases)
  case (step_event ev hasBlock flag)
  show ?thesis
  proof (cases ev)
    case (ChainHeadEvent b)
    then have "spec_ok k (sc_accept k b (mi_chain m))" using step_event(2) assms(3) by (auto intro!: spec_ok_accept)
    then show ?thesis using assms(3) by (simp add: step_event(1) ChainHeadEvent requestMinting_def updateSpeculativeChainPerNewHead_def)
  qed (use assms(3) step_event(1) in \<open>simp_all add: requestMinting_def updateSpeculativeChainPerInvalidOrdering_def
      Let_def spec_ok_unwindFrom\<close>)
next
  case (step_mint env ob c)
  then show ?thesis
    using assms(2,3) spec_ok_extend [of k "mi_chain m"]
    by (auto simp: extends_def elim!: mintNewBlock_cases [of env "mi_chain m" ob c, rotated])
qed (simp_all add: minter_start_def minter_stop_def requestMinting_def)

lemma unwind_loop_suffix:
  assumes "\<forall>b \<in> set ps. block_Hash k b \<noteq> h" "block_Hash k b = h"
  shows "unwind_loop k h hb (ps @ b # qs) c =
    c\<lparr>sc_unappliedBlocks := rev qs, sc_head := Some (case qs of [] \<Rightarrow> hb | q # _ \<Rightarrow> q),
      sc_expectedInvalid := sc_expectedInvalid c \<union> block_Hash k ` set ps,
      sc_proposedTxes := sc_proposedTxes c - (\<Union>x \<in> set (b # ps). set (tx_hashes k x))\<rparr>"
  using assms(1)
proof (induction ps arbitrary: c)
  case Nil
  then show ?case using assms(2) by (simp add: Let_def removeProposedTxes_def tx_hashes_def)
next
  case (Cons p ps)
  have "block_Hash k p \<noteq> h" using Cons.prems by simp
  moreover have "insert (block_Hash k p) g \<union> block_Hash k ` set ps = g \<union> block_Hash k ` set (p # ps)" for g by simp
  moreover have "t - tx_Hash k ` set (b_transactions p) - (\<Union>x \<in> set (b # ps). set (tx_hashes k x)) =
      t - (\<Union>x \<in> set (b # p # ps). set (tx_hashes k x))" for t by (auto simp: tx_hashes_def)
  ultimately show ?case using Cons.IH Cons.prems by (simp add: Let_def removeProposedTxes_def)
qed

section \<open>A small example\<close>

definition toy_parent :: block where
  "toy_parent = \<lparr>b_header = \<lparr>h_ParentHash = 0, h_UncleHash = 0, h_Coinbase = 0, h_Root = 0, h_TxHash = 0, h_ReceiptHash = 0,
     h_Bloom = replicate 256 0, h_Difficulty = 0, h_Number = 4, h_GasLimit = 0, h_GasUsed = 0, h_Time = 100, h_Extra = [],
     h_MixDigest = 0, h_Nonce = replicate 8 0\<rparr>, b_uncles = [], b_transactions = []\<rparr>"

definition toy_block :: "nat \<Rightarrow> int \<Rightarrow> block" where
  "toy_block nonce n = toy_parent\<lparr>b_header := (b_header toy_parent)\<lparr>h_Number := n\<rparr>, b_transactions := [toy_tx nonce 3]\<rparr>"

definition toy_mint :: "(unit, unit) mint_env" where
  "toy_mint = \<lparr>me_crypto = toy_signing, me_config = (homestead_at 0 0)\<lparr>cc_IsBitmed := True\<rparr>, me_coinbase = 0, me_nanotime = 50,
     me_CalcDifficulty = (\<lambda>_ _. 1), me_CalcGasLimit = (\<lambda>_. 50000), me_StateAt = (\<lambda>_. Some ()), me_Prepare = (\<lambda>_ _ s. s),
     me_ApplyTransaction = (\<lambda>h gp tx s. (gp - 21000, h_GasUsed h + 21000, Some ((), None, ()))),
     me_AccumulateRewards = (\<lambda>_ s. s), me_IntermediateRoot = (\<lambda>_ s. (s, 0)), me_CommitTo = (\<lambda>_ _. True),
     me_deriveTx = (\<lambda>_. 0), me_deriveRc = (\<lambda>_. 0), me_CreateBloom = (\<lambda>_. []), me_currentBlock = toy_parent,
     me_Pending = Some [0 \<mapsto> [toy_tx 1 3]], me_keys = [0]\<rparr>"

lemma toy_sender: "sender_of toy_signing HomesteadSigner (toy_tx n p) = 0"
  by (simp add: sender_of_def homestead_Sender_def recoverPlain_def Let_def ValidateSignatureValues_def
      toy_tx_def NewTransaction_def newTransaction_def big_BitLen_def nat_BitLen.simps)

lemma toy_mint_ok:
  "walks_pending toy_mint" "me_Pending toy_mint = Some [0 \<mapsto> [toy_tx 1 3]]" "me_StateAt toy_mint r = Some ()"
  "me_CommitTo toy_mint d s" "kec (me_crypto toy_mint) = (\<lambda>_. 7)" "me_nanotime toy_mint = 50"
  by (auto simp: walks_pending_def toy_mint_def toy_signing_def split: if_splits)

lemma toy_mint_sender:
  "[0 \<mapsto> [toy_tx 1 3]] a = Some xs \<Longrightarrow> x \<in> set xs \<Longrightarrow> sender_of (me_crypto toy_mint) (current_signer toy_mint) x = a"
  by (auto simp: toy_mint_def current_signer_def MakeSigner_def toy_sender split: if_splits)

lemma toy_transactions:
  assumes "7 \<notin> sc_proposedTxes c"
  shows "\<exists>m. getTransactions toy_mint c = Some \<lparr>pn_txs = m, pn_heads = [toy_tx 1 3]\<rparr> \<and> m 0 = Some [] \<and> dom m = {0}"
proof -
  have "withoutProposedTxes (\<lambda>_. 7) [0 \<mapsto> [toy_tx 1 3]] c = [0 \<mapsto> [toy_tx 1 3]]"
    using assms by (auto simp: withoutProposedTxes_def fun_eq_iff Let_def tx_Hash_def rlpHash_def)
  moreover have "heap_Init price_key [toy_tx 1 3] = [toy_tx 1 3]" by (simp add: heap_Init_def)
  moreover have "me_keys toy_mint = [0]" "current_signer toy_mint = HomesteadSigner" "me_crypto toy_mint = toy_signing"
    "kec toy_signing = (\<lambda>_. 7)"
    by (simp_all add: toy_mint_def current_signer_def MakeSigner_def toy_signing_def)
  ultimately show ?thesis
    using toy_sender [of 1 3] by (simp add: getTransactions_def toy_mint_ok NewTransactionsByPriceAndNonce_def Let_def del: One_nat_def)
qed

lemma toy_commits:
  assumes "m 0 = Some []" "dom m = {0}"
  shows "\<exists>pubs privs h' s'. commitTransactions toy_mint \<lparr>pn_txs = m, pn_heads = [toy_tx 1 3]\<rparr> header s =
    Some ([toy_tx 1 3], pubs, privs, h', s')"
proof -
  let ?t = "\<lparr>pn_txs = m, pn_heads = [toy_tx 1 3]\<rparr>"
  have e: "me_keys toy_mint = [0]" "sender_of (me_crypto toy_mint) (current_signer toy_mint) (toy_tx 1 3) = 0"
    by (auto intro!: toy_mint_sender) (simp add: toy_mint_def)
  have "pn_Shift (sender_of (me_crypto toy_mint) (current_signer toy_mint)) ?t = Some \<lparr>pn_txs = m, pn_heads = []\<rparr>"
    using assms(1) e(2) by (simp add: pn_Shift_def pn_Pop_def heap_Pop_def swap_def heap_down.simps)
  moreover have "pending_size (pending_accounts toy_mint ?t) ?t = Suc 0"
    using assms(1) e by (simp add: pending_size_def pending_accounts_def waiting_def)
  ultimately show ?thesis
    by (simp add: commitTransactions_def commit_loop.simps pn_Peek_def commitTransaction_def)
      (simp add: toy_mint_def)
qed

lemma toy_mint_block:
  assumes "sc_head c = Some toy_parent" "7 \<notin> sc_proposedTxes c"
  shows "\<exists>b. mintNewBlock toy_mint c = Some (Some b, sc_extend (\<lambda>_. 7) b c)"
proof -
  obtain m where m: "getTransactions toy_mint c = Some \<lparr>pn_txs = m, pn_heads = [toy_tx 1 3]\<rparr>" "m 0 = Some []" "dom m = {0}"
    using toy_transactions [OF assms(2)] by blast
  obtain header s where "createWork toy_mint c = Some (header, s)" using assms(1) by (auto simp: createWork_def toy_mint_ok Let_def)
  then show ?thesis using m(1) toy_commits [OF m(2,3), of header s]
    by (auto simp: mintNewBlock_def toy_mint_ok Let_def split: prod.splits)
qed

section \<open>Properties of minting\<close>

text \<open>C10. Minting never runs out of turns and never panics while the states of the chain can be read and
  written and the pool sorts transactions by sender. Either nothing could be committed and the chain is as
  before, or the new block has a transaction, none of them proposed before, names the head as its parent
  with the next number and a later time, and is the last unapplied block and the head.\<close>

theorem minted_block_extends_head:
  assumes "sc_head c = Some par" "me_StateAt env (h_Root (b_header par)) \<noteq> None" "\<forall>d s. me_CommitTo env d s"
    and "me_Pending env = Some p" "walks_pending env"
    and "\<And>a xs x. p a = Some xs \<Longrightarrow> x \<in> set xs \<Longrightarrow> sender_of (me_crypto env) (current_signer env) x = a"
    and "0 \<le> h_Time (b_header par)" "h_Time (b_header par) < 2 ^ 63 - 1"
  shows "mintNewBlock env c = Some (None, c) \<or>
    (\<exists>b c'. mintNewBlock env c = Some (Some b, c') \<and> b_transactions b \<noteq> [] \<and>
       (\<forall>tx \<in> set (b_transactions b). tx_Hash (kec (me_crypto env)) tx \<notin> sc_proposedTxes c \<and>
          tx_Hash (kec (me_crypto env)) tx \<in> sc_proposedTxes c') \<and>
       h_ParentHash (b_header b) = block_Hash (kec (me_crypto env)) par \<and> h_Number (b_header b) = h_Number (b_header par) + 1 \<and>
       h_Time (b_header par) < h_Time (b_header b) \<and>
       sc_head c' = Some b \<and> sc_unappliedBlocks c' = sc_unappliedBlocks c @ [b])"
proof -
  obtain header s where w: "createWork env c = Some (header, s)" using assms(1,2) by (auto simp: createWork_def Let_def)
  obtain t where t: "getTransactions env c = Some t" using getTransactions_exists [OF assms(4,5), of c] assms(6) by blast
  have "h_Time (b_header par) < generateNanoTimestamp (me_nanotime env) par"
    using assms(7,8) by (simp add: generateNanoTimestamp_def Let_def big_Int64_def big_Uint64_small wrap_i64_def)
  then show ?thesis
    using mintNewBlock_work [OF assms(5) w t assms(1)] assms(3)
    by (auto simp: extends_def sc_extend_def recordProposedTransactions_def Let_def)
qed

theorem minted_block_extends_head_witness:
  "\<exists>b c'. mintNewBlock toy_mint (sc_clear toy_parent newSpeculativeChain) = Some (Some b, c') \<and>
     h_Time (b_header b) > 100 \<and> h_Number (b_header b) = 5 \<and> sc_unappliedBlocks c' = [b]"
proof -
  let ?c = "sc_clear toy_parent newSpeculativeChain"
  have c: "sc_head ?c = Some toy_parent" "7 \<notin> sc_proposedTxes ?c" "sc_unappliedBlocks ?c = []" by (simp_all add: sc_clear_def)
  have p: "h_Time (b_header toy_parent) = 100" "h_Number (b_header toy_parent) = 4" by (simp_all add: toy_parent_def)
  obtain b where b: "mintNewBlock toy_mint ?c = Some (Some b, sc_extend (\<lambda>_. 7) b ?c)" using toy_mint_block [OF c(1,2)] by blast
  from minted_block_extends_head [OF c(1) _ _ toy_mint_ok(2,1) toy_mint_sender] show ?thesis
    using b c(3) by (simp add: toy_mint_ok p)
qed

text \<open>C9. However the goroutines of the minter interleave, the recorded hashes are exactly those of the
  transactions in unapplied blocks, and no transaction is in two unapplied blocks.\<close>

theorem minter_never_proposes_twice:
  assumes "(minter_step k envs)\<^sup>*\<^sup>* (newMinter current) m" "\<forall>env \<in> envs. walks_pending env"
  shows "sc_proposedTxes (mi_chain m) = (\<Union>b \<in> set (sc_unappliedBlocks (mi_chain m)). set (tx_hashes k b)) \<and>
    (\<forall>i j. i < j \<longrightarrow> j < length (sc_unappliedBlocks (mi_chain m)) \<longrightarrow>
       set (tx_hashes k (sc_unappliedBlocks (mi_chain m) ! i)) \<inter> set (tx_hashes k (sc_unappliedBlocks (mi_chain m) ! j)) = {})"
proof -
  have "spec_ok k (mi_chain m)"
    using assms(1) by (induction rule: rtranclp_induct) (auto simp: newMinter_def intro: minter_step_spec_ok [OF _ assms(2)])
  then show ?thesis by (auto simp: spec_ok_def sorted_wrt_iff_nth_less)
qed

theorem minter_never_proposes_twice_witness:
  "\<exists>m b. (minter_step (\<lambda>_. 7) {toy_mint})\<^sup>*\<^sup>* (newMinter toy_parent) m \<and> sc_unappliedBlocks (mi_chain m) = [b] \<and>
     sc_proposedTxes (mi_chain m) = set (tx_hashes (\<lambda>_. 7) b)"
proof -
  let ?m = "newMinter toy_parent"
  have c: "sc_head (mi_chain ?m) = Some toy_parent" "7 \<notin> sc_proposedTxes (mi_chain ?m)" "sc_unappliedBlocks (mi_chain ?m) = []"
    by (simp_all add: newMinter_def sc_clear_def)
  obtain b where b: "mintNewBlock toy_mint (mi_chain ?m) = Some (Some b, sc_extend (\<lambda>_. 7) b (mi_chain ?m))"
    using toy_mint_block [OF c(1,2)] by blast
  let ?m' = "?m\<lparr>mi_chain := sc_extend (\<lambda>_. 7) b (mi_chain ?m)\<rparr>"
  have "minter_step (\<lambda>_. 7) {toy_mint} ?m ?m'" using b by (intro step_mint [of toy_mint]) (simp_all add: toy_mint_ok)
  then have r: "(minter_step (\<lambda>_. 7) {toy_mint})\<^sup>*\<^sup>* ?m ?m'" by blast
  have u: "sc_unappliedBlocks (mi_chain ?m') = [b]" by (simp add: sc_extend_def recordProposedTransactions_def Let_def c(3))
  have "sc_proposedTxes (mi_chain ?m') = (\<Union>b \<in> set (sc_unappliedBlocks (mi_chain ?m')). set (tx_hashes (\<lambda>_. 7) b))"
    using minter_never_proposes_twice [OF r] toy_mint_ok(1) by blast
  then show ?thesis using r u by auto
qed

text \<open>C26. Unwinding from an invalid block removes this block and its descendants and nothing else: the chain
  ends in the block before it, or in the head of the blockchain; the transactions of the removed blocks
  can be proposed again; and the descendants are on guard, so that the later report of each of them only
  takes it off the guard.\<close>

theorem unwind_removes_descendants:
  assumes "sc_unappliedBlocks c = before @ b # after" "\<forall>x \<in> set after. block_Hash k x \<noteq> block_Hash k b"
    and "block_Hash k b \<notin> sc_expectedInvalid c" "c' = unwindFrom k (block_Hash k b) headBlock c"
  shows "sc_unappliedBlocks c' = before \<and> sc_head c' = Some (last (headBlock # before)) \<and>
    sc_proposedTxes c' = sc_proposedTxes c - (\<Union>x \<in> set (b # after). set (tx_hashes k x)) \<and>
    (\<forall>x \<in> set after. unwindFrom k (block_Hash k x) headBlock' c' =
       c'\<lparr>sc_expectedInvalid := sc_expectedInvalid c' - {block_Hash k x}\<rparr>)"
proof -
  have "(case rev before of [] \<Rightarrow> headBlock | q # _ \<Rightarrow> q) = last (headBlock # before)"
    by (cases before rule: rev_cases) simp_all
  then have "c' = c\<lparr>sc_unappliedBlocks := before, sc_head := Some (last (headBlock # before)),
      sc_expectedInvalid := sc_expectedInvalid c \<union> block_Hash k ` set after,
      sc_proposedTxes := sc_proposedTxes c - (\<Union>x \<in> set (b # after). set (tx_hashes k x))\<rparr>"
    using unwind_loop_suffix [of "rev after" k "block_Hash k b" b headBlock "rev before" c] assms
    by (simp add: unwindFrom_def)
  then show ?thesis by (auto simp: unwindFrom_def)
qed

definition toy_hash :: "bytes \<Rightarrow> hash" where
  "toy_hash bs = (if bs = enc_spec (header_rval (b_header (toy_block 2 6))) then 1 else 0)"

lemma toy_hashes_differ: "block_Hash toy_hash (toy_block 3 7) \<noteq> block_Hash toy_hash (toy_block 2 6)"
proof -
  have ok: "header_ok (b_header (toy_block n (int m)))" if "m < 8" for n m
    by (rule header_okI) (use that in \<open>simp_all add: toy_block_def toy_parent_def\<close>)
  have h: "block_Hash toy_hash (toy_block n (int m)) = toy_hash (enc_spec (header_rval (b_header (toy_block n (int m)))))"
    if "m < 8" for n m
    using Encode_header [OF ok [OF that]] by (simp add: block_Hash_def header_Hash_def rlpHash_def toy_block_def toy_parent_def IstanbulDigest_def)
  have "b_header (toy_block 3 7) \<noteq> b_header (toy_block 2 6)" by (simp add: toy_block_def toy_parent_def)
  then have "enc_spec (header_rval (b_header (toy_block 3 7))) \<noteq> enc_spec (header_rval (b_header (toy_block 2 6)))"
    using header_codec.enc_inject [OF ok [of 7 3] ok [of 6 2]] by auto
  then show ?thesis using h [of 7 3] h [of 6 2] by (simp add: toy_hash_def)
qed

theorem unwind_removes_descendants_witness:
  "\<exists>c. sc_unappliedBlocks c = [toy_block 1 5, toy_block 2 6, toy_block 3 7] \<and>
     sc_unappliedBlocks (unwindFrom toy_hash (block_Hash toy_hash (toy_block 2 6)) toy_parent c) = [toy_block 1 5] \<and>
     sc_head (unwindFrom toy_hash (block_Hash toy_hash (toy_block 2 6)) toy_parent c) = Some (toy_block 1 5)"
proof -
  let ?c = "newSpeculativeChain\<lparr>sc_unappliedBlocks := [toy_block 1 5, toy_block 2 6, toy_block 3 7]\<rparr>"
  from unwind_removes_descendants [of ?c "[toy_block 1 5]" "toy_block 2 6" "[toy_block 3 7]" toy_hash _ toy_parent, OF _ _ _ refl]
  show ?thesis using toy_hashes_differ by (intro exI [of _ ?c]) (simp add: newSpeculativeChain_def)
qed

text \<open>C36. When a block of another node arrives while nothing is unapplied, the minter keeps its old head: the next
  block it mints has the old head as its parent, not the new head of the blockchain.\<close>

theorem stale_parent_after_foreign_block:
  assumes "sc_unappliedBlocks (mi_chain m) = []" "sc_head (mi_chain m) = Some old" "mi_minting m" "walks_pending env"
    and "m' = eventLoop_turn (kec (me_crypto env)) hasBlock (mi_minting m) (ChainHeadEvent foreign) m"
    and "mintNewBlock env (mi_chain m') = Some (Some b, c)"
  shows "h_ParentHash (b_header b) = block_Hash (kec (me_crypto env)) old \<and>
    h_Number (b_header b) = h_Number (b_header old) + 1"
proof -
  have "sc_head (mi_chain m') = Some old"
    using assms(1,2,3,5) by (simp add: requestMinting_def updateSpeculativeChainPerNewHead_def sc_accept_def removeProposedTxes_def)
  then show ?thesis using assms(4,6) by (auto simp: extends_def elim!: mintNewBlock_cases [rotated])
qed

theorem stale_parent_after_foreign_block_witness:
  "\<exists>b c. mintNewBlock toy_mint (mi_chain (eventLoop_turn (\<lambda>_. 7) (\<lambda>_ _. True) True (ChainHeadEvent (toy_block 2 5))
       (minter_start (newMinter toy_parent)))) = Some (Some b, c) \<and> h_Number (b_header b) = 5"
proof -
  let ?m = "minter_start (newMinter toy_parent)"
  let ?m' = "eventLoop_turn (\<lambda>_. 7) (\<lambda>_ _. True) True (ChainHeadEvent (toy_block 2 5)) ?m"
  have m: "sc_unappliedBlocks (mi_chain ?m) = []" "sc_head (mi_chain ?m) = Some toy_parent" "mi_minting ?m"
    by (simp_all add: minter_start_def requestMinting_def newMinter_def sc_clear_def)
  have "sc_head (mi_chain ?m') = Some toy_parent" "7 \<notin> sc_proposedTxes (mi_chain ?m')"
    by (simp_all add: minter_start_def requestMinting_def newMinter_def sc_clear_def updateSpeculativeChainPerNewHead_def
        sc_accept_def removeProposedTxes_def)
  then obtain b c where b: "mintNewBlock toy_mint (mi_chain ?m') = Some (Some b, c)" using toy_mint_block by blast
  have "h_Number (b_header b) = h_Number (b_header toy_parent) + 1"
    using stale_parent_after_foreign_block [OF m toy_mint_ok(1) _ b] m(3) by (simp add: toy_mint_ok)
  then show ?thesis using b by (auto simp: toy_parent_def)
qed

end
