(* ===== verification/State_DB.thy ===== *)
theory State_DB
  imports Chain_Types
begin

text \<open>
  The state database (\<^verbatim>\<open>src/core/state/statedb.go\<close>, \<^verbatim>\<open>state_object.go\<close>, \<^verbatim>\<open>journal.go\<close>): live account objects over
  the account trie, a journal of changes, and snapshots that the journal is undone to.

  The account trie is the map of its accounts. A live object is kept under its address, so that a method
  of an object is an update of the map; \<open>so_onDirty\<close> says whether the callback that marks the object as
  dirty is still set. Storage tries, contract code and trie roots are fields of \<open>state_env\<close>, and reads
  of the database succeed. A nil dereference and a failed revert are \<^verbatim>\<open>None\<close>.
\<close>

record account =
  ac_Nonce :: nat
  ac_Balance :: int
  ac_Root :: hash
  ac_CodeHash :: hash

record state_object =
  so_data :: account
  so_code :: "bytes option"
  so_cachedStorage :: "hash \<rightharpoonup> hash"
  so_dirtyStorage :: "hash \<rightharpoonup> hash"
  so_dirtyCode :: bool
  so_suicided :: bool
  so_touched :: bool
  so_deleted :: bool
  so_onDirty :: bool

record state_log =
  lg_Address :: address
  lg_Topics :: "hash list"
  lg_Data :: bytes
  lg_TxHash :: hash
  lg_BlockHash :: hash
  lg_TxIndex :: nat
  lg_Index :: nat

datatype journal_entry =
    createObjectChange address
  | resetObjectChange address state_object
  | suicideChange address bool int
  | balanceChange address int
  | nonceChange address nat
  | storageChange address hash hash
  | codeChange address "bytes option" hash
  | refundChange int
  | addLogChange hash
  | addPreimageChange hash
  | touchChange address bool bool

record revision =
  rv_id :: nat
  rv_journalIndex :: nat

record statedb =
  sd_trie :: "address \<rightharpoonup> account"
  sd_stateObjects :: "address \<rightharpoonup> state_object"
  sd_stateObjectsDirty :: "address set"
  sd_refund :: int
  sd_thash :: hash
  sd_bhash :: hash
  sd_txIndex :: nat
  sd_logs :: "hash \<rightharpoonup> state_log list"
  sd_logSize :: nat
  sd_preimages :: "hash \<rightharpoonup> bytes"
  sd_journal :: "journal_entry list"
  sd_validRevisions :: "revision list"
  sd_nextRevisionId :: nat

record state_env =
  se_kec :: "bytes \<Rightarrow> hash"
  se_storage :: "hash \<Rightarrow> hash \<Rightarrow> hash"
  se_updateTrie :: "hash \<Rightarrow> (hash \<rightharpoonup> hash) \<Rightarrow> hash"
  se_ContractCode :: "hash \<Rightarrow> bytes"
  se_root :: "(address \<rightharpoonup> account) \<Rightarrow> hash"

definition state_New :: "(address \<rightharpoonup> account) \<Rightarrow> statedb" where
  "state_New tr = \<lparr>sd_trie = tr, sd_stateObjects = Map.empty, sd_stateObjectsDirty = {}, sd_refund = 0, sd_thash = 0,
     sd_bhash = 0, sd_txIndex = 0, sd_logs = Map.empty, sd_logSize = 0, sd_preimages = Map.empty, sd_journal = [],
     sd_validRevisions = [], sd_nextRevisionId = 0\<rparr>"

definition clearJournalAndRefund :: "statedb \<Rightarrow> statedb" where
  "clearJournalAndRefund s = s\<lparr>sd_journal := [], sd_validRevisions := [], sd_refund := 0\<rparr>"

definition state_Reset :: "(address \<rightharpoonup> account) \<Rightarrow> statedb \<Rightarrow> statedb" where
  "state_Reset tr s = clearJournalAndRefund
     (s\<lparr>sd_trie := tr, sd_stateObjects := Map.empty, sd_stateObjectsDirty := {}, sd_thash := 0, sd_bhash := 0,
        sd_txIndex := 0, sd_logs := Map.empty, sd_logSize := 0, sd_preimages := Map.empty\<rparr>)"

definition state_Prepare :: "hash \<Rightarrow> hash \<Rightarrow> nat \<Rightarrow> statedb \<Rightarrow> statedb" where
  "state_Prepare thash bhash ti s = s\<lparr>sd_thash := thash, sd_bhash := bhash, sd_txIndex := ti\<rparr>"

definition journal_add :: "journal_entry \<Rightarrow> statedb \<Rightarrow> statedb" where
  "journal_add e s = s\<lparr>sd_journal := sd_journal s @ [e]\<rparr>"

section \<open>State objects\<close>

definition newObject :: "account \<Rightarrow> state_object" where
  "newObject data = \<lparr>so_data = data, so_code = None, so_cachedStorage = Map.empty, so_dirtyStorage = Map.empty,
     so_dirtyCode = False, so_suicided = False, so_touched = False, so_deleted = False, so_onDirty = True\<rparr>"

definition emptyAccount :: "state_env \<Rightarrow> account" where
  "emptyAccount env = \<lparr>ac_Nonce = 0, ac_Balance = 0, ac_Root = 0, ac_CodeHash = se_kec env []\<rparr>"

definition so_empty :: "state_env \<Rightarrow> state_object \<Rightarrow> bool" where
  "so_empty env obj \<longleftrightarrow> ac_Nonce (so_data obj) = 0 \<and> ac_Balance (so_data obj) = 0 \<and> ac_CodeHash (so_data obj) = se_kec env []"

text \<open>A change of an object ends with the callback that marks it as dirty, which is then dropped.\<close>

definition store_dirty :: "address \<Rightarrow> state_object \<Rightarrow> statedb \<Rightarrow> statedb" where
  "store_dirty a obj s =
     s\<lparr>sd_stateObjects := (sd_stateObjects s)(a \<mapsto> obj\<lparr>so_onDirty := False\<rparr>),
       sd_stateObjectsDirty := (if so_onDirty obj then insert a (sd_stateObjectsDirty s) else sd_stateObjectsDirty s)\<rparr>"

definition so_setBalance :: "address \<Rightarrow> int \<Rightarrow> state_object \<Rightarrow> statedb \<Rightarrow> statedb" where
  "so_setBalance a amount obj = store_dirty a (obj\<lparr>so_data := (so_data obj)\<lparr>ac_Balance := amount\<rparr>\<rparr>)"

definition so_setNonce :: "address \<Rightarrow> nat \<Rightarrow> state_object \<Rightarrow> statedb \<Rightarrow> statedb" where
  "so_setNonce a nonce obj = store_dirty a (obj\<lparr>so_data := (so_data obj)\<lparr>ac_Nonce := nonce\<rparr>\<rparr>)"

definition so_setCode :: "address \<Rightarrow> hash \<Rightarrow> bytes option \<Rightarrow> state_object \<Rightarrow> statedb \<Rightarrow> statedb" where
  "so_setCode a codeHash code obj =
     store_dirty a (obj\<lparr>so_code := code, so_data := (so_data obj)\<lparr>ac_CodeHash := codeHash\<rparr>, so_dirtyCode := True\<rparr>)"

definition so_setState :: "address \<Rightarrow> hash \<Rightarrow> hash \<Rightarrow> state_object \<Rightarrow> statedb \<Rightarrow> statedb" where
  "so_setState a key v obj =
     store_dirty a (obj\<lparr>so_cachedStorage := (so_cachedStorage obj)(key \<mapsto> v), so_dirtyStorage := (so_dirtyStorage obj)(key \<mapsto> v)\<rparr>)"

definition so_GetState :: "state_env \<Rightarrow> state_object \<Rightarrow> hash \<Rightarrow> hash" where
  "so_GetState env obj key =
     (case so_cachedStorage obj key of Some v \<Rightarrow> v | None \<Rightarrow> se_storage env (ac_Root (so_data obj)) key)"

definition so_Code :: "state_env \<Rightarrow> state_object \<Rightarrow> bytes option" where
  "so_Code env obj =
     (case so_code obj of
        Some code \<Rightarrow> Some code
      | None \<Rightarrow> if ac_CodeHash (so_data obj) = se_kec env [] then None else Some (se_ContractCode env (ac_CodeHash (so_data obj))))"

definition so_touch :: "address \<Rightarrow> state_object \<Rightarrow> statedb \<Rightarrow> statedb" where
  "so_touch a obj s = store_dirty a (obj\<lparr>so_touched := True\<rparr>) (journal_add (touchChange a (so_touched obj) (\<not> so_onDirty obj)) s)"

definition so_SetBalance :: "address \<Rightarrow> int \<Rightarrow> state_object \<Rightarrow> statedb \<Rightarrow> statedb" where
  "so_SetBalance a amount obj s = so_setBalance a amount obj (journal_add (balanceChange a (ac_Balance (so_data obj))) s)"

definition so_AddBalance :: "state_env \<Rightarrow> address \<Rightarrow> int \<Rightarrow> state_object \<Rightarrow> statedb \<Rightarrow> statedb" where
  "so_AddBalance env a amount obj s =
     (if amount = 0 then if so_empty env obj then so_touch a obj s else s
      else so_SetBalance a (ac_Balance (so_data obj) + amount) obj s)"

definition so_SubBalance :: "address \<Rightarrow> int \<Rightarrow> state_object \<Rightarrow> statedb \<Rightarrow> statedb" where
  "so_SubBalance a amount obj s =
     (if amount = 0 then s else so_SetBalance a (ac_Balance (so_data obj) - amount) obj s)"

definition so_SetNonce :: "address \<Rightarrow> nat \<Rightarrow> state_object \<Rightarrow> statedb \<Rightarrow> statedb" where
  "so_SetNonce a nonce obj s = so_setNonce a nonce obj (journal_add (nonceChange a (ac_Nonce (so_data obj))) s)"

definition so_SetCode :: "state_env \<Rightarrow> address \<Rightarrow> hash \<Rightarrow> bytes \<Rightarrow> state_object \<Rightarrow> statedb \<Rightarrow> statedb" where
  "so_SetCode env a codeHash code obj s =
     so_setCode a codeHash (Some code) (obj\<lparr>so_code := so_Code env obj\<rparr>)
       (journal_add (codeChange a (so_Code env obj) (ac_CodeHash (so_data obj))) s)"

definition so_SetState :: "state_env \<Rightarrow> address \<Rightarrow> hash \<Rightarrow> hash \<Rightarrow> state_object \<Rightarrow> statedb \<Rightarrow> statedb" where
  "so_SetState env a key v obj s = so_setState a key v obj (journal_add (storageChange a key (so_GetState env obj key)) s)"

section \<open>Looking up and creating objects\<close>

text \<open>A lookup loads an account of the trie into the live set.\<close>

definition getStateObject :: "address \<Rightarrow> statedb \<Rightarrow> state_object option \<times> statedb" where
  "getStateObject a s =
     (case sd_stateObjects s a of
        Some obj \<Rightarrow> if so_deleted obj then (None, s) else (Some obj, s)
      | None \<Rightarrow>
          (case sd_trie s a of
             None \<Rightarrow> (None, s)
           | Some data \<Rightarrow>
               (let obj = newObject data in (Some obj, s\<lparr>sd_stateObjects := (sd_stateObjects s)(a \<mapsto> obj)\<rparr>))))"

definition createObject :: "state_env \<Rightarrow> address \<Rightarrow> statedb \<Rightarrow> state_object \<times> state_object option \<times> statedb" where
  "createObject env a s =
     (let (prev, s1) = getStateObject a s;
          newobj = newObject (emptyAccount env);
          s2 = journal_add (case prev of None \<Rightarrow> createObjectChange a | Some p \<Rightarrow> resetObjectChange a p) s1
      in (newobj\<lparr>so_onDirty := False\<rparr>, prev, so_setNonce a 0 newobj s2))"

definition GetOrNewStateObject :: "state_env \<Rightarrow> address \<Rightarrow> statedb \<Rightarrow> state_object \<times> statedb" where
  "GetOrNewStateObject env a s =
     (case getStateObject a s of
        (Some obj, s1) \<Rightarrow> (obj, s1)
      | (None, s1) \<Rightarrow> (case createObject env a s1 of (obj, _, s2) \<Rightarrow> (obj, s2)))"

definition CreateAccount :: "state_env \<Rightarrow> address \<Rightarrow> statedb \<Rightarrow> statedb" where
  "CreateAccount env a s =
     (case createObject env a s of
        (obj, None, s1) \<Rightarrow> s1
      | (obj, Some prev, s1) \<Rightarrow> so_setBalance a (ac_Balance (so_data prev)) obj s1)"

definition Exist :: "address \<Rightarrow> statedb \<Rightarrow> bool \<times> statedb" where
  "Exist a s = (case getStateObject a s of (obj, s1) \<Rightarrow> (obj \<noteq> None, s1))"

definition state_Empty :: "state_env \<Rightarrow> address \<Rightarrow> statedb \<Rightarrow> bool \<times> statedb" where
  "state_Empty env a s =
     (case getStateObject a s of (None, s1) \<Rightarrow> (True, s1) | (Some obj, s1) \<Rightarrow> (so_empty env obj, s1))"

definition GetBalance :: "address \<Rightarrow> statedb \<Rightarrow> int \<times> statedb" where
  "GetBalance a s =
     (case getStateObject a s of (None, s1) \<Rightarrow> (0, s1) | (Some obj, s1) \<Rightarrow> (ac_Balance (so_data obj), s1))"

definition GetNonce :: "address \<Rightarrow> statedb \<Rightarrow> nat \<times> statedb" where
  "GetNonce a s =
     (case getStateObject a s of (None, s1) \<Rightarrow> (0, s1) | (Some obj, s1) \<Rightarrow> (ac_Nonce (so_data obj), s1))"

definition HasSuicided :: "address \<Rightarrow> statedb \<Rightarrow> bool \<times> statedb" where
  "HasSuicided a s =
     (case getStateObject a s of (None, s1) \<Rightarrow> (False, s1) | (Some obj, s1) \<Rightarrow> (so_suicided obj, s1))"

definition GetLogs :: "hash \<Rightarrow> statedb \<Rightarrow> state_log list" where
  "GetLogs h s = (case sd_logs s h of None \<Rightarrow> [] | Some ls \<Rightarrow> ls)"

section \<open>Changes\<close>

definition AddBalance :: "state_env \<Rightarrow> address \<Rightarrow> int \<Rightarrow> statedb \<Rightarrow> statedb" where
  "AddBalance env a amount s = (case GetOrNewStateObject env a s of (obj, s1) \<Rightarrow> so_AddBalance env a amount obj s1)"

definition SubBalance :: "state_env \<Rightarrow> address \<Rightarrow> int \<Rightarrow> statedb \<Rightarrow> statedb" where
  "SubBalance env a amount s = (case GetOrNewStateObject env a s of (obj, s1) \<Rightarrow> so_SubBalance a amount obj s1)"

definition SetBalance :: "state_env \<Rightarrow> address \<Rightarrow> int \<Rightarrow> statedb \<Rightarrow> statedb" where
  "SetBalance env a amount s = (case GetOrNewStateObject env a s of (obj, s1) \<Rightarrow> so_SetBalance a amount obj s1)"

definition SetNonce :: "state_env \<Rightarrow> address \<Rightarrow> nat \<Rightarrow> statedb \<Rightarrow> statedb" where
  "SetNonce env a nonce s = (case GetOrNewStateObject env a s of (obj, s1) \<Rightarrow> so_SetNonce a nonce obj s1)"

definition SetCode :: "state_env \<Rightarrow> address \<Rightarrow> bytes \<Rightarrow> statedb \<Rightarrow> statedb" where
  "SetCode env a code s = (case GetOrNewStateObject env a s of (obj, s1) \<Rightarrow> so_SetCode env a (se_kec env code) code obj s1)"

definition SetState :: "state_env \<Rightarrow> address \<Rightarrow> hash \<Rightarrow> hash \<Rightarrow> statedb \<Rightarrow> statedb" where
  "SetState env a key v s = (case GetOrNewStateObject env a s of (obj, s1) \<Rightarrow> so_SetState env a key v obj s1)"

definition Suicide :: "address \<Rightarrow> statedb \<Rightarrow> bool \<times> statedb" where
  "Suicide a s =
     (case getStateObject a s of
        (None, s1) \<Rightarrow> (False, s1)
      | (Some obj, s1) \<Rightarrow>
          (True, store_dirty a (obj\<lparr>so_suicided := True, so_data := (so_data obj)\<lparr>ac_Balance := 0\<rparr>\<rparr>)
                   (journal_add (suicideChange a (so_suicided obj) (ac_Balance (so_data obj))) s1)))"

definition AddRefund :: "int \<Rightarrow> statedb \<Rightarrow> statedb" where
  "AddRefund gas s = (journal_add (refundChange (sd_refund s)) s)\<lparr>sd_refund := sd_refund s + gas\<rparr>"

definition AddLog :: "state_log \<Rightarrow> statedb \<Rightarrow> statedb" where
  "AddLog l s =
     (let s1 = journal_add (addLogChange (sd_thash s)) s;
          l1 = l\<lparr>lg_TxHash := sd_thash s, lg_BlockHash := sd_bhash s, lg_TxIndex := sd_txIndex s, lg_Index := sd_logSize s\<rparr>
      in s1\<lparr>sd_logs := (sd_logs s)(sd_thash s \<mapsto> GetLogs (sd_thash s) s @ [l1]), sd_logSize := sd_logSize s + 1\<rparr>)"

definition AddPreimage :: "hash \<Rightarrow> bytes \<Rightarrow> statedb \<Rightarrow> statedb" where
  "AddPreimage h preimage s =
     (if sd_preimages s h = None
      then (journal_add (addPreimageChange h) s)\<lparr>sd_preimages := (sd_preimages s)(h \<mapsto> preimage)\<rparr>
      else s)"

section \<open>Undoing changes\<close>

definition ripemd :: address where
  "ripemd = 3"

definition on_object :: "address \<Rightarrow> (state_object \<Rightarrow> statedb \<Rightarrow> statedb) \<Rightarrow> statedb \<Rightarrow> statedb option" where
  "on_object a f s = (case getStateObject a s of (None, _) \<Rightarrow> None | (Some obj, s1) \<Rightarrow> Some (f obj s1))"

fun undo :: "journal_entry \<Rightarrow> statedb \<Rightarrow> statedb option" where
  "undo (createObjectChange a) s =
     Some (s\<lparr>sd_stateObjects := (sd_stateObjects s)(a := None), sd_stateObjectsDirty := sd_stateObjectsDirty s - {a}\<rparr>)"
| "undo (resetObjectChange a prev) s = Some (s\<lparr>sd_stateObjects := (sd_stateObjects s)(a \<mapsto> prev)\<rparr>)"
| "undo (suicideChange a prev prevbalance) s =
     (case getStateObject a s of
        (None, s1) \<Rightarrow> Some s1
      | (Some obj, s1) \<Rightarrow> Some (so_setBalance a prevbalance (obj\<lparr>so_suicided := prev\<rparr>) s1))"
| "undo (touchChange a prev prevDirty) s =
     (if \<not> prev \<and> a \<noteq> ripemd then
        on_object a (\<lambda>obj s1.
          (let s2 = s1\<lparr>sd_stateObjects := (sd_stateObjects s1)(a \<mapsto> obj\<lparr>so_touched := prev\<rparr>)\<rparr>
           in if \<not> prevDirty then s2\<lparr>sd_stateObjectsDirty := sd_stateObjectsDirty s2 - {a}\<rparr> else s2)) s
      else Some s)"
| "undo (balanceChange a prev) s = on_object a (so_setBalance a prev) s"
| "undo (nonceChange a prev) s = on_object a (so_setNonce a prev) s"
| "undo (codeChange a prevcode prevhash) s = on_object a (so_setCode a prevhash prevcode) s"
| "undo (storageChange a key prevalue) s = on_object a (so_setState a key prevalue) s"
| "undo (refundChange prev) s = Some (s\<lparr>sd_refund := prev\<rparr>)"
| "undo (addLogChange txhash) s =
     (let logs = GetLogs txhash s
      in if logs = [] then None
         else Some (s\<lparr>sd_logs := (sd_logs s)(txhash := (if length logs = 1 then None else Some (butlast logs))),
                      sd_logSize := sd_logSize s - 1\<rparr>))"
| "undo (addPreimageChange h) s = Some (s\<lparr>sd_preimages := (sd_preimages s)(h := None)\<rparr>)"

primrec fold_option :: "('e \<Rightarrow> 's \<Rightarrow> 's option) \<Rightarrow> 'e list \<Rightarrow> 's \<Rightarrow> 's option" where
  "fold_option f [] s = Some s"
| "fold_option f (e # es) s = Option.bind (f e s) (fold_option f es)"

definition state_Snapshot :: "statedb \<Rightarrow> nat \<times> statedb" where
  "state_Snapshot s =
     (let i = sd_nextRevisionId s
      in (i, s\<lparr>sd_nextRevisionId := i + 1,
               sd_validRevisions := sd_validRevisions s @ [\<lparr>rv_id = i, rv_journalIndex = length (sd_journal s)\<rparr>]\<rparr>))"

text \<open>\<^verbatim>\<open>sort.Search\<close> on the ids, which grow: the first revision that is not smaller.\<close>

definition RevertToSnapshot :: "nat \<Rightarrow> statedb \<Rightarrow> statedb option" where
  "RevertToSnapshot revid s =
     (let idx = length (takeWhile (\<lambda>r. rv_id r < revid) (sd_validRevisions s))
      in if idx = length (sd_validRevisions s) \<or> rv_id (sd_validRevisions s ! idx) \<noteq> revid then None
         else
           (let snapshot = rv_journalIndex (sd_validRevisions s ! idx)
            in map_option (\<lambda>s1. s1\<lparr>sd_journal := take snapshot (sd_journal s1), sd_validRevisions := take idx (sd_validRevisions s1)\<rparr>)
                 (fold_option undo (rev (drop snapshot (sd_journal s))) s)))"

section \<open>Writing to the trie\<close>

definition updateRoot :: "state_env \<Rightarrow> state_object \<Rightarrow> state_object" where
  "updateRoot env obj =
     obj\<lparr>so_data := (so_data obj)\<lparr>ac_Root := se_updateTrie env (ac_Root (so_data obj)) (so_dirtyStorage obj)\<rparr>,
         so_dirtyStorage := Map.empty\<rparr>"

definition finalise_deletes :: "state_env \<Rightarrow> bool \<Rightarrow> state_object \<Rightarrow> bool" where
  "finalise_deletes env deleteEmptyObjects obj \<longleftrightarrow> so_suicided obj \<or> deleteEmptyObjects \<and> so_empty env obj"

text \<open>The loop over the dirty addresses treats each of them apart, so that its order does not matter.\<close>

definition Finalise :: "state_env \<Rightarrow> bool \<Rightarrow> statedb \<Rightarrow> statedb option" where
  "Finalise env deleteEmptyObjects s =
     (if \<not> (\<forall>a \<in> sd_stateObjectsDirty s. sd_stateObjects s a \<noteq> None) then None
      else
        Some (clearJournalAndRefund
          (s\<lparr>sd_stateObjects := (\<lambda>a. if a \<in> sd_stateObjectsDirty s
               then map_option (\<lambda>obj. if finalise_deletes env deleteEmptyObjects obj then obj\<lparr>so_deleted := True\<rparr> else updateRoot env obj)
                      (sd_stateObjects s a)
               else sd_stateObjects s a),
             sd_trie := (\<lambda>a. if a \<in> sd_stateObjectsDirty s
               then Option.bind (sd_stateObjects s a)
                      (\<lambda>obj. if finalise_deletes env deleteEmptyObjects obj then None else Some (so_data (updateRoot env obj)))
               else sd_trie s a)\<rparr>)))"

definition IntermediateRoot :: "state_env \<Rightarrow> bool \<Rightarrow> statedb \<Rightarrow> (hash \<times> statedb) option" where
  "IntermediateRoot env deleteEmptyObjects s = map_option (\<lambda>s1. (se_root env (sd_trie s1), s1)) (Finalise env deleteEmptyObjects s)"

definition DeleteSuicides :: "statedb \<Rightarrow> statedb option" where
  "DeleteSuicides s =
     (if \<not> (\<forall>a \<in> sd_stateObjectsDirty s. sd_stateObjects s a \<noteq> None) then None
      else
        (let s1 = clearJournalAndRefund s
         in Some (s1\<lparr>sd_stateObjects := (\<lambda>a. if a \<in> sd_stateObjectsDirty s1
                        then map_option (\<lambda>obj. if so_suicided obj then obj\<lparr>so_deleted := True\<rparr> else obj) (sd_stateObjects s1 a)
                        else sd_stateObjects s1 a),
                     sd_stateObjectsDirty := {}\<rparr>)))"

section \<open>What a state shows\<close>

record obj_view =
  ov_data :: account
  ov_code :: "bytes option"
  ov_storage :: "hash \<Rightarrow> hash"
  ov_suicided :: bool

record state_view =
  v_accounts :: "address \<rightharpoonup> obj_view"
  v_trie :: "address \<rightharpoonup> account"
  v_refund :: int
  v_logs :: "hash \<Rightarrow> state_log list"
  v_logSize :: nat
  v_preimages :: "hash \<rightharpoonup> bytes"

definition object_view :: "state_env \<Rightarrow> state_object \<Rightarrow> obj_view" where
  "object_view env obj = \<lparr>ov_data = so_data obj, ov_code = so_Code env obj, ov_storage = so_GetState env obj, ov_suicided = so_suicided obj\<rparr>"

definition account_view :: "state_env \<Rightarrow> statedb \<Rightarrow> address \<Rightarrow> obj_view option" where
  "account_view env s a = map_option (object_view env) (fst (getStateObject a s))"

definition view_of :: "state_env \<Rightarrow> statedb \<Rightarrow> state_view" where
  "view_of env s = \<lparr>v_accounts = account_view env s, v_trie = sd_trie s, v_refund = sd_refund s,
     v_logs = (\<lambda>h. GetLogs h s), v_logSize = sd_logSize s, v_preimages = sd_preimages s\<rparr>"

text \<open>The effect of undoing an entry on what the state shows.\<close>

definition on_view :: "address \<Rightarrow> (obj_view \<Rightarrow> obj_view) \<Rightarrow> state_view \<Rightarrow> state_view option" where
  "on_view a f v = map_option (\<lambda>x. v\<lparr>v_accounts := (v_accounts v)(a \<mapsto> f x)\<rparr>) (v_accounts v a)"

fun undo_view :: "state_env \<Rightarrow> journal_entry \<Rightarrow> state_view \<Rightarrow> state_view option" where
  "undo_view env (createObjectChange a) v =
     Some (v\<lparr>v_accounts := (v_accounts v)(a := map_option (\<lambda>d. object_view env (newObject d)) (v_trie v a))\<rparr>)"
| "undo_view env (resetObjectChange a prev) v = Some (v\<lparr>v_accounts := (v_accounts v)(a \<mapsto> object_view env prev)\<rparr>)"
| "undo_view env (suicideChange a prev prevbalance) v =
     (if v_accounts v a = None then Some v
      else on_view a (\<lambda>x. x\<lparr>ov_suicided := prev, ov_data := (ov_data x)\<lparr>ac_Balance := prevbalance\<rparr>\<rparr>) v)"
| "undo_view env (touchChange a prev prevDirty) v = (if \<not> prev \<and> a \<noteq> ripemd then on_view a id v else Some v)"
| "undo_view env (balanceChange a prev) v = on_view a (\<lambda>x. x\<lparr>ov_data := (ov_data x)\<lparr>ac_Balance := prev\<rparr>\<rparr>) v"
| "undo_view env (nonceChange a prev) v = on_view a (\<lambda>x. x\<lparr>ov_data := (ov_data x)\<lparr>ac_Nonce := prev\<rparr>\<rparr>) v"
| "undo_view env (codeChange a prevcode prevhash) v =
     on_view a (\<lambda>x. x\<lparr>ov_data := (ov_data x)\<lparr>ac_CodeHash := prevhash\<rparr>,
       ov_code := (case prevcode of Some code \<Rightarrow> Some code
         | None \<Rightarrow> if prevhash = se_kec env [] then None else Some (se_ContractCode env prevhash))\<rparr>) v"
| "undo_view env (storageChange a key prevalue) v = on_view a (\<lambda>x. x\<lparr>ov_storage := (ov_storage x)(key := prevalue)\<rparr>) v"
| "undo_view env (refundChange prev) v = Some (v\<lparr>v_refund := prev\<rparr>)"
| "undo_view env (addLogChange h) v =
     (if v_logs v h = [] then None
      else Some (v\<lparr>v_logs := (v_logs v)(h := butlast (v_logs v h)), v_logSize := v_logSize v - 1\<rparr>))"
| "undo_view env (addPreimageChange h) v = Some (v\<lparr>v_preimages := (v_preimages v)(h := None)\<rparr>)"

lemma fold_option_append: "fold_option f (es @ fs) v = Option.bind (fold_option f es v) (fold_option f fs)"
  by (induction es arbitrary: v) (auto split: Option.bind_splits)

text \<open>Well-formed states: a deleted object has left the trie and will do so again, and dirty addresses are live.\<close>

definition sd_ok :: "state_env \<Rightarrow> bool \<Rightarrow> statedb \<Rightarrow> bool" where
  "sd_ok env del s \<longleftrightarrow>
     (\<forall>a obj. sd_stateObjects s a = Some obj \<longrightarrow> so_deleted obj \<longrightarrow> sd_trie s a = None \<and> finalise_deletes env del obj) \<and>
     (\<forall>a \<in> sd_stateObjectsDirty s. sd_stateObjects s a \<noteq> None)"

fun entry_ok :: "journal_entry \<Rightarrow> bool" where
  "entry_ok (resetObjectChange a prev) \<longleftrightarrow> \<not> so_deleted prev"
| "entry_ok _ \<longleftrightarrow> True"

lemma getStateObject_cases:
  obtains "getStateObject a s = (None, s)" "account_view env s a = None"
  | obj s1 where "getStateObject a s = (Some obj, s1)" "account_view env s a = Some (object_view env obj)" "\<not> so_deleted obj"
      "s1 = s\<lparr>sd_stateObjects := (sd_stateObjects s)(a \<mapsto> obj)\<rparr>"
      "sd_stateObjects s a = Some obj \<or> sd_stateObjects s a = None \<and> sd_trie s a = Some (so_data obj) \<and> obj = newObject (so_data obj)"
proof (cases "sd_stateObjects s a")
  case None
  show thesis
  proof (cases "sd_trie s a")
    case (Some d)
    then show thesis using that(2) [of "newObject d"] None
      by (simp add: getStateObject_def account_view_def newObject_def Let_def)
  qed (use that(1) None in \<open>simp add: getStateObject_def account_view_def\<close>)
next
  case (Some obj)
  then have "s\<lparr>sd_stateObjects := (sd_stateObjects s)(a \<mapsto> obj)\<rparr> = s" by (simp add: fun_upd_idem)
  then show thesis using that Some by (cases "so_deleted obj") (auto simp: getStateObject_def account_view_def)
qed

lemma account_view_eq:
  "account_view env s a =
     (case sd_stateObjects s a of
        Some obj \<Rightarrow> if so_deleted obj then None else Some (object_view env obj)
      | None \<Rightarrow> map_option (\<lambda>d. object_view env (newObject d)) (sd_trie s a))"
  by (auto simp: account_view_def getStateObject_def Let_def split: option.splits)

lemma account_view_put:
  "account_view env (s\<lparr>sd_stateObjects := (sd_stateObjects s)(a \<mapsto> obj)\<rparr>) =
     (account_view env s)(a := if so_deleted obj then None else Some (object_view env obj))"
  by (auto simp: account_view_eq fun_eq_iff split: option.split)

lemma object_view_clean [simp]:
  "object_view env (obj\<lparr>so_onDirty := b\<rparr>) = object_view env obj"
  "object_view env (obj\<lparr>so_touched := b\<rparr>) = object_view env obj"
  "object_view env (obj\<lparr>so_code := so_Code env obj\<rparr>) = object_view env obj"
  by (auto simp: object_view_def so_Code_def so_GetState_def fun_eq_iff split: option.splits)

lemma view_store_dirty:
  assumes "\<not> so_deleted obj"
  shows "view_of env (store_dirty a obj s) = (view_of env s)\<lparr>v_accounts := (account_view env s)(a \<mapsto> object_view env obj)\<rparr>"
  using assms by (auto simp: view_of_def store_dirty_def account_view_eq GetLogs_def fun_eq_iff split: option.split)

lemma view_load:
  assumes "account_view env s a = Some (object_view env obj)" "\<not> so_deleted obj"
  shows "view_of env (s\<lparr>sd_stateObjects := (sd_stateObjects s)(a \<mapsto> obj)\<rparr>) = view_of env s"
  using assms by (auto simp: view_of_def account_view_put GetLogs_def fun_eq_iff)

lemma view_journal_add [simp]: "view_of env (journal_add e s) = view_of env s"
  by (simp add: view_of_def journal_add_def account_view_eq GetLogs_def fun_eq_iff split: option.split)

lemma view_dirty: "view_of env (s\<lparr>sd_stateObjectsDirty := D\<rparr>) = view_of env s"
  by (simp add: view_of_def account_view_eq GetLogs_def fun_eq_iff split: option.split)

lemma view_frame: "view_of env (s\<lparr>sd_journal := j, sd_validRevisions := r\<rparr>) = view_of env s"
  by (simp add: view_of_def account_view_eq GetLogs_def fun_eq_iff split: option.split)

lemma sd_ok_store_dirty: "sd_ok env del s \<Longrightarrow> \<not> so_deleted obj \<Longrightarrow> sd_ok env del (store_dirty a obj s)"
  by (auto simp: sd_ok_def store_dirty_def)

lemma sd_ok_dirty: "sd_ok env del s \<Longrightarrow> D \<subseteq> sd_stateObjectsDirty s \<Longrightarrow> sd_ok env del (s\<lparr>sd_stateObjectsDirty := D\<rparr>)"
  unfolding sd_ok_def by auto

lemma sd_ok_load: "sd_ok env del s \<Longrightarrow> \<not> so_deleted obj \<Longrightarrow> sd_ok env del (s\<lparr>sd_stateObjects := (sd_stateObjects s)(a \<mapsto> obj)\<rparr>)"
  by (auto simp: sd_ok_def)

lemma sd_ok_journal_add [simp]: "sd_ok env del (journal_add e s) = sd_ok env del s"
  by (simp add: sd_ok_def journal_add_def)

lemmas setter_defs = so_setBalance_def so_setNonce_def so_setCode_def so_setState_def

text \<open>A setter changes the view of its object only.\<close>

lemma object_view_setters:
  "object_view env (obj\<lparr>so_data := (so_data obj)\<lparr>ac_Balance := i\<rparr>\<rparr>) = (object_view env obj)\<lparr>ov_data := (so_data obj)\<lparr>ac_Balance := i\<rparr>\<rparr>"
  "object_view env (obj\<lparr>so_data := (so_data obj)\<lparr>ac_Nonce := n\<rparr>\<rparr>) = (object_view env obj)\<lparr>ov_data := (so_data obj)\<lparr>ac_Nonce := n\<rparr>\<rparr>"
  "object_view env (obj\<lparr>so_code := c, so_data := (so_data obj)\<lparr>ac_CodeHash := h\<rparr>, so_dirtyCode := b\<rparr>) =
     (object_view env obj)\<lparr>ov_data := (so_data obj)\<lparr>ac_CodeHash := h\<rparr>,
       ov_code := (case c of Some code \<Rightarrow> Some code | None \<Rightarrow> if h = se_kec env [] then None else Some (se_ContractCode env h))\<rparr>"
  "object_view env (obj\<lparr>so_cachedStorage := (so_cachedStorage obj)(key \<mapsto> v), so_dirtyStorage := ds\<rparr>) =
     (object_view env obj)\<lparr>ov_storage := (so_GetState env obj)(key := v)\<rparr>"
  by (auto simp: object_view_def so_Code_def so_GetState_def fun_eq_iff split: option.splits)

lemma object_view_sel [simp]:
  "ov_data (object_view env obj) = so_data obj" "ov_code (object_view env obj) = so_Code env obj"
  "ov_storage (object_view env obj) = so_GetState env obj" "ov_suicided (object_view env obj) = so_suicided obj"
  by (simp_all add: object_view_def)

lemma view_of_sel [simp]:
  "v_accounts (view_of env s) = account_view env s" "v_trie (view_of env s) = sd_trie s" "v_refund (view_of env s) = sd_refund s"
  "v_logs (view_of env s) h = GetLogs h s" "v_logSize (view_of env s) = sd_logSize s" "v_preimages (view_of env s) = sd_preimages s"
  by (simp_all add: view_of_def)

text \<open>Undoing on the state is undoing on its view.\<close>

definition undone :: "state_env \<Rightarrow> bool \<Rightarrow> statedb option \<Rightarrow> state_view option \<Rightarrow> statedb \<Rightarrow> bool" where
  "undone env del r v s \<longleftrightarrow> map_option (view_of env) r = v \<and>
     (\<forall>s1. r = Some s1 \<longrightarrow> sd_ok env del s1 \<and> sd_journal s1 = sd_journal s \<and> sd_validRevisions s1 = sd_validRevisions s \<and>
        sd_nextRevisionId s1 = sd_nextRevisionId s)"

lemma undone_on_object:
  assumes ok: "sd_ok env del s"
    and f: "\<And>obj t. f obj t = store_dirty a (g obj) t" "\<And>obj. object_view env (g obj) = h (object_view env obj)" "\<And>obj. so_deleted (g obj) = so_deleted obj"
  shows "undone env del (on_object a f s) (on_view a h (view_of env s)) s"
proof (rule getStateObject_cases [of a s env])
  assume "getStateObject a s = (None, s)" "account_view env s a = None"
  then show ?thesis by (simp add: on_object_def on_view_def undone_def)
next
  fix obj s1
  assume o: "getStateObject a s = (Some obj, s1)" "account_view env s a = Some (object_view env obj)" "\<not> so_deleted obj"
    "s1 = s\<lparr>sd_stateObjects := (sd_stateObjects s)(a \<mapsto> obj)\<rparr>"
  have "view_of env s1 = view_of env s" "sd_ok env del s1" using view_load [OF o(2,3)] sd_ok_load [OF ok o(3)] o(4) by simp_all
  then show ?thesis
    using o view_store_dirty [of "g obj" env a s1] sd_ok_store_dirty [of env del s1 "g obj" a] f
    by (auto simp: on_object_def on_view_def undone_def) (auto simp: view_of_def store_dirty_def)
qed

lemma undone_same_objects:
  assumes "sd_ok env del s" "sd_stateObjects s' = sd_stateObjects s" "sd_trie s' = sd_trie s" "sd_stateObjectsDirty s' = sd_stateObjectsDirty s"
    and "sd_journal s' = sd_journal s" "sd_validRevisions s' = sd_validRevisions s" "sd_nextRevisionId s' = sd_nextRevisionId s"
    and "v = (view_of env s)\<lparr>v_refund := sd_refund s', v_logs := (\<lambda>h. GetLogs h s'), v_logSize := sd_logSize s', v_preimages := sd_preimages s'\<rparr>"
  shows "undone env del (Some s') (Some v) s"
proof -
  have "account_view env s' = account_view env s" using assms(2,3) by (simp add: account_view_eq fun_eq_iff split: option.split)
  then show ?thesis using assms by (simp add: undone_def view_of_def sd_ok_def)
qed

lemma undo_create:
  assumes "sd_ok env del s"
  shows "undone env del (undo (createObjectChange a) s) (undo_view env (createObjectChange a) (view_of env s)) s"
  using assms by (auto simp: undone_def view_of_def account_view_eq GetLogs_def sd_ok_def fun_eq_iff split: option.split)

lemma undo_reset:
  assumes "sd_ok env del s" "\<not> so_deleted prev"
  shows "undone env del (undo (resetObjectChange a prev) s) (undo_view env (resetObjectChange a prev) (view_of env s)) s"
  using assms by (auto simp: undone_def view_of_def account_view_put GetLogs_def sd_ok_def fun_eq_iff)

lemma undo_suicide:
  assumes "sd_ok env del s"
  shows "undone env del (undo (suicideChange a p b) s) (undo_view env (suicideChange a p b) (view_of env s)) s"
proof -
  let ?g = "\<lambda>obj. obj\<lparr>so_suicided := p, so_data := (so_data obj)\<lparr>ac_Balance := b\<rparr>\<rparr>"
  let ?h = "\<lambda>x. x\<lparr>ov_suicided := p, ov_data := (ov_data x)\<lparr>ac_Balance := b\<rparr>\<rparr>"
  have "undone env del (on_object a (\<lambda>obj. store_dirty a (?g obj)) s) (on_view a ?h (view_of env s)) s"
    by (rule undone_on_object [OF assms, where g = ?g]) (auto simp: object_view_def so_Code_def so_GetState_def fun_eq_iff split: option.split)
  moreover have "undo (suicideChange a p b) s = (case getStateObject a s of (None, s1) \<Rightarrow> Some s1 | _ \<Rightarrow> on_object a (\<lambda>obj. store_dirty a (?g obj)) s)"
    by (auto simp: on_object_def so_setBalance_def split: option.split prod.split)
  ultimately show ?thesis
    using assms by (cases rule: getStateObject_cases [of a s env]) (auto simp: undone_def)
qed

lemma undo_touch:
  assumes ok: "sd_ok env del s"
  shows "undone env del (undo (touchChange a p d) s) (undo_view env (touchChange a p d) (view_of env s)) s"
proof (cases "\<not> p \<and> a \<noteq> ripemd")
  case t: True
  show ?thesis
  proof (rule getStateObject_cases [of a s env])
    assume "getStateObject a s = (None, s)" "account_view env s a = None"
    then show ?thesis using t by (simp add: on_object_def on_view_def undone_def)
  next
    fix obj s1
    assume o: "getStateObject a s = (Some obj, s1)" "account_view env s a = Some (object_view env obj)" "\<not> so_deleted obj"
      "s1 = s\<lparr>sd_stateObjects := (sd_stateObjects s)(a \<mapsto> obj)\<rparr>"
    let ?s2 = "s\<lparr>sd_stateObjects := (sd_stateObjects s)(a \<mapsto> obj\<lparr>so_touched := p\<rparr>)\<rparr>"
    have v: "view_of env ?s2 = view_of env s" "sd_ok env del ?s2"
      using view_load [of env s a "obj\<lparr>so_touched := p\<rparr>"] sd_ok_load [OF ok, of "obj\<lparr>so_touched := p\<rparr>" a] o(2,3) by simp_all
    have "sd_ok env del (?s2\<lparr>sd_stateObjectsDirty := sd_stateObjectsDirty ?s2 - {a}\<rparr>)" by (rule sd_ok_dirty [OF v(2)]) auto
    moreover have "(view_of env s)\<lparr>v_accounts := (account_view env s)(a \<mapsto> object_view env obj)\<rparr> = view_of env s"
      using o(2) by (simp add: view_of_def fun_upd_idem)
    ultimately show ?thesis using t o v view_dirty [of env _ ?s2] by (simp add: on_object_def on_view_def undone_def Let_def)
  qed
qed (use ok in \<open>auto simp: undone_def\<close>)

lemma undo_log:
  assumes "sd_ok env del s"
  shows "undone env del (undo (addLogChange h) s) (undo_view env (addLogChange h) (view_of env s)) s"
proof (cases "GetLogs h s = []")
  case False
  let ?s = "s\<lparr>sd_logs := (sd_logs s)(h := (if length (GetLogs h s) = 1 then None else Some (butlast (GetLogs h s)))), sd_logSize := sd_logSize s - 1\<rparr>"
  have "length (GetLogs h s) = 1 \<Longrightarrow> butlast (GetLogs h s) = []" by (cases "GetLogs h s") auto
  then have "(\<lambda>x. GetLogs x ?s) = (\<lambda>x. GetLogs x s)(h := butlast (GetLogs h s))" by (auto simp: GetLogs_def fun_eq_iff)
  then have "undone env del (Some ?s) (Some ((view_of env s)\<lparr>v_logs := (v_logs (view_of env s))(h := butlast (GetLogs h s)), v_logSize := sd_logSize s - 1\<rparr>)) s"
    using assms by (intro undone_same_objects) (simp_all add: view_of_def)
  then show ?thesis using False by (simp add: Let_def)
qed (simp add: undone_def)

lemma undo_undone:
  assumes "sd_ok env del s" "entry_ok e"
  shows "undone env del (undo e s) (undo_view env e (view_of env s)) s"
proof (cases e)
  case (balanceChange a b)
  show ?thesis unfolding balanceChange undo.simps undo_view.simps
    by (rule undone_on_object [OF assms(1), where g = "\<lambda>obj. obj\<lparr>so_data := (so_data obj)\<lparr>ac_Balance := b\<rparr>\<rparr>"])
      (simp_all add: so_setBalance_def object_view_setters)
next
  case (nonceChange a n)
  show ?thesis unfolding nonceChange undo.simps undo_view.simps
    by (rule undone_on_object [OF assms(1), where g = "\<lambda>obj. obj\<lparr>so_data := (so_data obj)\<lparr>ac_Nonce := n\<rparr>\<rparr>"])
      (simp_all add: so_setNonce_def object_view_setters)
next
  case (codeChange a c h)
  show ?thesis unfolding codeChange undo.simps undo_view.simps
    by (rule undone_on_object [OF assms(1), where g = "\<lambda>obj. obj\<lparr>so_code := c, so_data := (so_data obj)\<lparr>ac_CodeHash := h\<rparr>, so_dirtyCode := True\<rparr>"])
      (simp_all add: so_setCode_def object_view_setters)
next
  case (storageChange a key v)
  show ?thesis unfolding storageChange undo.simps undo_view.simps
    by (rule undone_on_object [OF assms(1), where g = "\<lambda>obj. obj\<lparr>so_cachedStorage := (so_cachedStorage obj)(key \<mapsto> v), so_dirtyStorage := (so_dirtyStorage obj)(key \<mapsto> v)\<rparr>"])
      (simp_all add: so_setState_def object_view_setters)
next
  case (refundChange r)
  show ?thesis unfolding refundChange undo.simps undo_view.simps
    using assms(1) by (intro undone_same_objects) (simp_all add: view_of_def GetLogs_def)
next
  case (addPreimageChange h)
  show ?thesis unfolding addPreimageChange undo.simps undo_view.simps
    using assms(1) by (intro undone_same_objects) (simp_all add: view_of_def GetLogs_def)
qed (use assms undo_create undo_reset undo_suicide undo_touch undo_log in auto)

section \<open>Journals\<close>

text \<open>The contract of a journal: undoing an entry of the state is undoing it on what the state shows.\<close>

locale journal =
  fixes undo_entry :: "'e \<Rightarrow> 's \<Rightarrow> 's option" and view :: "'s \<Rightarrow> 'v" and undo_on_view :: "'e \<Rightarrow> 'v \<Rightarrow> 'v option"
    and ok :: "'s \<Rightarrow> bool" and good :: "'e \<Rightarrow> bool"
  assumes undo_commutes: "ok s \<Longrightarrow> good e \<Longrightarrow> map_option view (undo_entry e s) = undo_on_view e (view s)"
    and undo_ok: "ok s \<Longrightarrow> good e \<Longrightarrow> undo_entry e s = Some s' \<Longrightarrow> ok s'"
begin

lemma undo_list_commutes:
  "ok s \<Longrightarrow> list_all good es \<Longrightarrow> map_option view (fold_option undo_entry es s) = fold_option undo_on_view es (view s)"
proof (induction es arbitrary: s)
  case (Cons e es)
  have e: "map_option view (undo_entry e s) = undo_on_view e (view s)" using undo_commutes Cons.prems by simp
  show ?case
  proof (cases "undo_entry e s")
    case None
    then show ?thesis using e [symmetric] by simp
  next
    case (Some s')
    then have "ok s'" using undo_ok Cons.prems by auto
    then show ?thesis using e [symmetric] Some Cons by simp
  qed
qed simp

lemma undo_list_ok: "ok s \<Longrightarrow> list_all good es \<Longrightarrow> fold_option undo_entry es s = Some s' \<Longrightarrow> ok s'"
  by (induction es arbitrary: s) (auto simp: Option.bind_eq_Some_conv dest: undo_ok)

end

interpretation state_journal: journal undo "view_of env" "undo_view env" "sd_ok env del" entry_ok for env del
proof unfold_locales
  fix s e s'
  assume "sd_ok env del s" "entry_ok e"
  from undo_undone [OF this] show "map_option (view_of env) (undo e s) = undo_view env e (view_of env s)"
    "undo e s = Some s' \<Longrightarrow> sd_ok env del s'" by (simp_all add: undone_def)
qed

lemma undo_all_frame:
  "sd_ok env del s \<Longrightarrow> list_all entry_ok es \<Longrightarrow> fold_option undo es s = Some s' \<Longrightarrow>
     sd_journal s' = sd_journal s \<and> sd_validRevisions s' = sd_validRevisions s \<and> sd_nextRevisionId s' = sd_nextRevisionId s"
proof (induction es arbitrary: s)
  case (Cons e es)
  then obtain s1 where s1: "undo e s = Some s1" "fold_option undo es s1 = Some s'" by (auto simp: Option.bind_eq_Some_conv)
  with undo_undone [OF Cons.prems(1), of e] Cons.prems(2) Cons.IH [of s1] show ?case by (auto simp: undone_def)
qed simp

text \<open>An operation that appends entries which lead back to the view it started from.\<close>

definition journaled :: "state_env \<Rightarrow> bool \<Rightarrow> statedb \<Rightarrow> statedb \<Rightarrow> bool" where
  "journaled env del s s' \<longleftrightarrow> sd_ok env del s' \<and> sd_validRevisions s' = sd_validRevisions s \<and> sd_nextRevisionId s' = sd_nextRevisionId s \<and>
     (\<exists>es. sd_journal s' = sd_journal s @ es \<and> list_all entry_ok es \<and> fold_option (undo_view env) (rev es) (view_of env s') = Some (view_of env s))"

lemma journaled_refl: "sd_ok env del s \<Longrightarrow> journaled env del s s"
  by (simp add: journaled_def)

lemma journaled_trans:
  assumes "journaled env del s t" "journaled env del t u"
  shows "journaled env del s u"
proof -
  obtain es fs where e: "sd_journal t = sd_journal s @ es" "list_all entry_ok es" "fold_option (undo_view env) (rev es) (view_of env t) = Some (view_of env s)"
    and f: "sd_journal u = sd_journal t @ fs" "list_all entry_ok fs" "fold_option (undo_view env) (rev fs) (view_of env u) = Some (view_of env t)"
    using assms unfolding journaled_def by blast
  have "fold_option (undo_view env) (rev (es @ fs)) (view_of env u) = Some (view_of env s)" using e(3) f(3) by (simp add: fold_option_append)
  then show ?thesis using assms e f unfolding journaled_def by (metis append.assoc list_all_append)
qed

lemma journaled_one:
  assumes "sd_ok env del s'" "sd_validRevisions s' = sd_validRevisions s" "sd_nextRevisionId s' = sd_nextRevisionId s"
    and "sd_journal s' = sd_journal s @ [e]" "entry_ok e" "undo_view env e (view_of env s') = Some (view_of env s)"
  shows "journaled env del s s'"
  unfolding journaled_def using assms by (auto intro!: exI [of _ "[e]"])

lemma store_dirty_frame [simp]:
  "sd_journal (store_dirty a obj s) = sd_journal s" "sd_validRevisions (store_dirty a obj s) = sd_validRevisions s"
  "sd_nextRevisionId (store_dirty a obj s) = sd_nextRevisionId s"
  "sd_journal (journal_add e s) = sd_journal s @ [e]" "sd_validRevisions (journal_add e s) = sd_validRevisions s"
  "sd_nextRevisionId (journal_add e s) = sd_nextRevisionId s"
  by (simp_all add: store_dirty_def journal_add_def)

text \<open>An object that is live, as the view shows it.\<close>

definition holds_object :: "state_env \<Rightarrow> bool \<Rightarrow> address \<Rightarrow> state_object \<Rightarrow> statedb \<Rightarrow> bool" where
  "holds_object env del a obj s \<longleftrightarrow> sd_ok env del s \<and> \<not> so_deleted obj \<and> account_view env s a = Some (object_view env obj)"

lemma journaled_store:
  assumes "holds_object env del a obj s" "\<not> so_deleted obj'" "entry_ok e"
    and "\<And>v. v_accounts v a = Some (object_view env obj') \<Longrightarrow>
      undo_view env e v = Some (v\<lparr>v_accounts := (v_accounts v)(a \<mapsto> object_view env obj)\<rparr>)"
  shows "journaled env del s (store_dirty a obj' (journal_add e s))"
proof (rule journaled_one [where e = e])
  have v: "view_of env (store_dirty a obj' (journal_add e s)) = (view_of env s)\<lparr>v_accounts := (account_view env s)(a \<mapsto> object_view env obj')\<rparr>"
    using view_store_dirty [OF assms(2), of env a "journal_add e s"] by (simp add: view_of_def account_view_eq journal_add_def fun_eq_iff GetLogs_def split: option.split)
  have "(account_view env s)(a \<mapsto> object_view env obj) = account_view env s" using assms(1) by (simp add: holds_object_def fun_upd_idem)
  then show "undo_view env e (view_of env (store_dirty a obj' (journal_add e s))) = Some (view_of env s)"
    unfolding v using assms(4) by (simp add: view_of_def)
  show "sd_ok env del (store_dirty a obj' (journal_add e s))"
    using assms(1,2) by (auto intro!: sd_ok_store_dirty simp: holds_object_def)
qed (use assms(3) in simp_all)

lemma getStateObject_journaled:
  assumes "sd_ok env del s" "getStateObject a s = (r, s1)"
  shows "journaled env del s s1" "view_of env s1 = view_of env s" "sd_journal s1 = sd_journal s"
    "r = Some obj \<Longrightarrow> holds_object env del a obj s1"
proof -
  have "journaled env del s s1 \<and> view_of env s1 = view_of env s \<and> sd_journal s1 = sd_journal s \<and> (\<forall>obj. r = Some obj \<longrightarrow> holds_object env del a obj s1)"
  proof (rule getStateObject_cases [of a s env])
    assume "getStateObject a s = (None, s)"
    then show ?thesis using assms by (simp add: journaled_refl)
  next
    fix obj t
    assume o: "getStateObject a s = (Some obj, t)" "account_view env s a = Some (object_view env obj)" "\<not> so_deleted obj"
      "t = s\<lparr>sd_stateObjects := (sd_stateObjects s)(a \<mapsto> obj)\<rparr>"
    have "view_of env t = view_of env s" "sd_ok env del t" using view_load [OF o(2,3)] sd_ok_load [OF assms(1) o(3)] o(4) by simp_all
    moreover have "account_view env t a = Some (object_view env obj)" using o by (simp add: account_view_put)
    ultimately show ?thesis using o assms(2) by (auto simp: journaled_def holds_object_def)
  qed
  then show "journaled env del s s1" "view_of env s1 = view_of env s" "sd_journal s1 = sd_journal s"
    "r = Some obj \<Longrightarrow> holds_object env del a obj s1" by auto
qed

lemma journaled_replace:
  assumes ok: "sd_ok env del s" and g: "getStateObject a s = (prev, s1)"
    and e: "e = (case prev of None \<Rightarrow> createObjectChange a | Some p \<Rightarrow> resetObjectChange a p)"
    and s': "sd_ok env del s'" "sd_validRevisions s' = sd_validRevisions s" "sd_nextRevisionId s' = sd_nextRevisionId s"
      "sd_journal s' = sd_journal s @ [e]" "view_of env s' = (view_of env s)\<lparr>v_accounts := (account_view env s)(a \<mapsto> x)\<rparr>"
  shows "journaled env del s s'"
proof (rule journaled_one [OF s'(1-4)])
  have same: "(account_view env s)(a := account_view env s a) = account_view env s" by simp
  show "entry_ok e" using g e by (cases rule: getStateObject_cases [of a s env]) (auto split: option.splits)
  show "undo_view env e (view_of env s') = Some (view_of env s)"
  proof (cases rule: getStateObject_cases [of a s env])
    case 1
    then have "sd_trie s a = None" using ok by (auto simp: account_view_eq sd_ok_def split: option.splits if_splits)
    then show ?thesis using 1 g e same unfolding s'(5) by (simp add: view_of_def)
  next
    case (2 obj t)
    then show ?thesis using g e same unfolding s'(5) by (simp add: view_of_def)
  qed
qed

lemma createObject_facts:
  assumes ok: "sd_ok env del s" and c: "createObject env a s = (obj, prev, s')"
  shows "\<exists>s1. getStateObject a s = (prev, s1)" "sd_ok env del s'" "sd_validRevisions s' = sd_validRevisions s"
    "sd_nextRevisionId s' = sd_nextRevisionId s"
    "sd_journal s' = sd_journal s @ [case prev of None \<Rightarrow> createObjectChange a | Some p \<Rightarrow> resetObjectChange a p]"
    "view_of env s' = (view_of env s)\<lparr>v_accounts := (account_view env s)(a \<mapsto> object_view env obj)\<rparr>" "\<not> so_deleted obj"
proof -
  obtain r s1 where g: "getStateObject a s = (r, s1)" by fastforce
  note j = getStateObject_journaled [OF ok g]
  let ?e = "case r of None \<Rightarrow> createObjectChange a | Some p \<Rightarrow> resetObjectChange a p"
  let ?n = "newObject (emptyAccount env)"
  have n: "\<not> so_deleted ?n" "?n\<lparr>so_data := (so_data ?n)\<lparr>ac_Nonce := 0\<rparr>\<rparr> = ?n" by (simp_all add: newObject_def emptyAccount_def)
  have c': "prev = r" "obj = ?n\<lparr>so_onDirty := False\<rparr>" "s' = store_dirty a ?n (journal_add ?e s1)"
    using c g n(2) by (auto simp: createObject_def so_setNonce_def Let_def)
  show "\<exists>s1. getStateObject a s = (prev, s1)" "\<not> so_deleted obj" using g c' n by auto
  show "sd_ok env del s'" using j(1) n(1) unfolding c'(3) by (intro sd_ok_store_dirty) (simp_all add: journaled_def)
  show "sd_validRevisions s' = sd_validRevisions s" "sd_nextRevisionId s' = sd_nextRevisionId s"
    using j(1) unfolding c'(3) by (simp_all add: journaled_def)
  show "sd_journal s' = sd_journal s @ [case prev of None \<Rightarrow> createObjectChange a | Some p \<Rightarrow> resetObjectChange a p]"
    using j(3) unfolding c' by simp
  have "account_view env (journal_add ?e s1) = account_view env s"
    using arg_cong [OF j(2), of v_accounts] view_journal_add [of env ?e s1] by (metis view_of_sel(1))
  then show "view_of env s' = (view_of env s)\<lparr>v_accounts := (account_view env s)(a \<mapsto> object_view env obj)\<rparr>"
    unfolding c' view_store_dirty [OF n(1)] using j(2) by simp
qed

lemma createObject_journaled:
  assumes "sd_ok env del s" "createObject env a s = (obj, prev, s')"
  shows "journaled env del s s'" "holds_object env del a obj s'"
proof -
  note f = createObject_facts [OF assms]
  from f(1) obtain s1 where "getStateObject a s = (prev, s1)" by blast
  from journaled_replace [OF assms(1) this refl f(2-6)] show "journaled env del s s'" .
  have "account_view env s' = (account_view env s)(a \<mapsto> object_view env obj)" using arg_cong [OF f(6), of v_accounts] by simp
  then show "holds_object env del a obj s'" using f(2,7) by (simp add: holds_object_def)
qed

lemma GetOrNewStateObject_journaled:
  assumes "sd_ok env del s" "GetOrNewStateObject env a s = (obj, s')"
  shows "journaled env del s s'" "holds_object env del a obj s'"
proof -
  have "journaled env del s s' \<and> holds_object env del a obj s'"
  proof (cases rule: getStateObject_cases [of a s env])
    case 1
    then have "\<exists>prev. createObject env a s = (obj, prev, s')" using assms(2) by (auto simp: GetOrNewStateObject_def split: prod.splits)
    then show ?thesis using createObject_journaled [OF assms(1)] by blast
  next
    case (2 obj1 s1)
    then have "obj = obj1" "s' = s1" using assms(2) by (auto simp: GetOrNewStateObject_def)
    then show ?thesis using getStateObject_journaled [OF assms(1) 2(1)] by blast
  qed
  then show "journaled env del s s'" "holds_object env del a obj s'" by auto
qed

lemma CreateAccount_journaled:
  assumes "sd_ok env del s"
  shows "journaled env del s (CreateAccount env a s)"
proof -
  obtain obj prev s1 where c: "createObject env a s = (obj, prev, s1)" by (cases "createObject env a s") auto
  note f = createObject_facts [OF assms c]
  from f(1) obtain s0 where g: "getStateObject a s = (prev, s0)" by blast
  show ?thesis
  proof (cases prev)
    case None
    then show ?thesis using createObject_journaled [OF assms c] c by (simp add: CreateAccount_def)
  next
    case (Some p)
    let ?o = "obj\<lparr>so_data := (so_data obj)\<lparr>ac_Balance := ac_Balance (so_data p)\<rparr>\<rparr>"
    have e: "CreateAccount env a s = store_dirty a ?o s1" using c Some by (simp add: CreateAccount_def so_setBalance_def)
    have "account_view env s1 = (account_view env s)(a \<mapsto> object_view env obj)" using arg_cong [OF f(6), of v_accounts] by simp
    then have "view_of env (store_dirty a ?o s1) = (view_of env s)\<lparr>v_accounts := (account_view env s)(a \<mapsto> object_view env ?o)\<rparr>"
      using f(7) by (simp add: view_store_dirty f(6))
    then show ?thesis unfolding e
      using f(2-5,7) by (intro journaled_replace [OF assms g refl]) (auto intro!: sd_ok_store_dirty)
  qed
qed

lemma view_idem [simp]:
  "(object_view env obj)\<lparr>ov_data := so_data obj\<rparr> = object_view env obj"
  "(object_view env obj)\<lparr>ov_storage := so_GetState env obj\<rparr> = object_view env obj"
  "(object_view env obj)\<lparr>ov_code := so_Code env obj\<rparr> = object_view env obj"
  "(object_view env obj)\<lparr>ov_suicided := so_suicided obj\<rparr> = object_view env obj"
  "(object_view env obj)\<lparr>ov_suicided := so_suicided obj, ov_data := so_data obj\<rparr> = object_view env obj"
  "d\<lparr>ac_Balance := ac_Balance d\<rparr> = d" "d\<lparr>ac_Nonce := ac_Nonce d\<rparr> = d" "d\<lparr>ac_CodeHash := ac_CodeHash d\<rparr> = d"
  by (simp_all add: object_view_def)

lemma so_SetBalance_journaled:
  "holds_object env del a obj s \<Longrightarrow> journaled env del s (so_SetBalance a i obj s)"
  unfolding so_SetBalance_def so_setBalance_def
  by (rule journaled_store) (auto simp: holds_object_def on_view_def object_view_setters)

lemma so_SetNonce_journaled:
  "holds_object env del a obj s \<Longrightarrow> journaled env del s (so_SetNonce a n obj s)"
  unfolding so_SetNonce_def so_setNonce_def
  by (rule journaled_store) (auto simp: holds_object_def on_view_def object_view_setters)

lemma so_SetState_journaled:
  "holds_object env del a obj s \<Longrightarrow> journaled env del s (so_SetState env a key v obj s)"
  unfolding so_SetState_def so_setState_def
  by (rule journaled_store) (auto simp: holds_object_def on_view_def object_view_setters)

lemma code_again:
  "(case so_Code env obj of Some code \<Rightarrow> Some code
    | None \<Rightarrow> if ac_CodeHash (so_data obj) = se_kec env [] then None else Some (se_ContractCode env (ac_CodeHash (so_data obj)))) = so_Code env obj"
  by (auto simp: so_Code_def split: option.splits)

lemma so_SetCode_journaled:
  assumes "holds_object env del a obj s"
  shows "journaled env del s (so_SetCode env a h code obj s)"
  unfolding so_SetCode_def so_setCode_def
proof (rule journaled_store [where obj = obj])
  let ?o = "obj\<lparr>so_code := so_Code env obj\<rparr>"
  have v: "object_view env (obj\<lparr>so_code := Some code, so_data := (so_data obj)\<lparr>ac_CodeHash := h\<rparr>, so_dirtyCode := True\<rparr>) =
      (object_view env obj)\<lparr>ov_data := (so_data obj)\<lparr>ac_CodeHash := h\<rparr>, ov_code := Some code\<rparr>"
    by (simp add: object_view_setters)
  show "undo_view env (codeChange a (so_Code env obj) (ac_CodeHash (so_data obj))) v =
      Some (v\<lparr>v_accounts := (v_accounts v)(a \<mapsto> object_view env obj)\<rparr>)"
    if "v_accounts v a = Some (object_view env (?o\<lparr>so_code := Some code, so_data := (so_data ?o)\<lparr>ac_CodeHash := h\<rparr>, so_dirtyCode := True\<rparr>))" for v
    using that by (simp add: v on_view_def code_again)
qed (use assms in \<open>auto simp: holds_object_def\<close>)

lemma so_touch_journaled:
  "holds_object env del a obj s \<Longrightarrow> journaled env del s (so_touch a obj s)"
  unfolding so_touch_def
  by (rule journaled_store) (auto simp: holds_object_def on_view_def fun_upd_idem)

lemma so_AddBalance_journaled: "holds_object env del a obj s \<Longrightarrow> journaled env del s (so_AddBalance env a i obj s)"
  by (auto simp: so_AddBalance_def so_SetBalance_journaled so_touch_journaled holds_object_def journaled_refl)

lemma so_SubBalance_journaled: "holds_object env del a obj s \<Longrightarrow> journaled env del s (so_SubBalance a i obj s)"
  by (auto simp: so_SubBalance_def so_SetBalance_journaled holds_object_def journaled_refl)

lemma on_new_object_journaled:
  assumes "sd_ok env del s" "\<And>obj t. holds_object env del a obj t \<Longrightarrow> journaled env del t (f obj t)"
  shows "journaled env del s (case GetOrNewStateObject env a s of (obj, s1) \<Rightarrow> f obj s1)"
proof -
  obtain obj s1 where g: "GetOrNewStateObject env a s = (obj, s1)" by fastforce
  from GetOrNewStateObject_journaled [OF assms(1) g] assms(2) [of obj s1] show ?thesis
    unfolding g prod.case by (blast intro: journaled_trans)
qed

lemma Suicide_journaled:
  assumes "sd_ok env del s"
  shows "journaled env del s (snd (Suicide a s))"
proof (cases rule: getStateObject_cases [of a s env])
  case (2 obj s1)
  let ?o = "obj\<lparr>so_suicided := True, so_data := (so_data obj)\<lparr>ac_Balance := 0\<rparr>\<rparr>"
  note j = getStateObject_journaled [OF assms 2(1)]
  have "object_view env ?o = (object_view env obj)\<lparr>ov_suicided := True, ov_data := (so_data obj)\<lparr>ac_Balance := 0\<rparr>\<rparr>"
    by (auto simp: object_view_def so_Code_def so_GetState_def fun_eq_iff split: option.split)
  then have "journaled env del s1 (store_dirty a ?o (journal_add (suicideChange a (so_suicided obj) (ac_Balance (so_data obj))) s1))"
    using 2(3) j(4) [of obj] by (intro journaled_store [where obj = obj]) (auto simp: on_view_def)
  then show ?thesis using journaled_trans [OF j(1)] 2(1) by (simp add: Suicide_def)
qed (use assms in \<open>simp add: Suicide_def journaled_refl\<close>)

lemma journaled_same_objects:
  assumes "sd_ok env del s" "sd_stateObjects s' = sd_stateObjects s" "sd_trie s' = sd_trie s" "sd_stateObjectsDirty s' = sd_stateObjectsDirty s"
    and "sd_validRevisions s' = sd_validRevisions s" "sd_nextRevisionId s' = sd_nextRevisionId s" "sd_journal s' = sd_journal s @ [e]"
    and "entry_ok e" "undo_view env e (view_of env s') = Some (view_of env s)"
  shows "journaled env del s s'"
  using assms by (intro journaled_one [where e = e]) (simp_all add: sd_ok_def)

lemma account_view_same:
  "sd_stateObjects s' = sd_stateObjects s \<Longrightarrow> sd_trie s' = sd_trie s \<Longrightarrow> account_view env s' = account_view env s"
  by (simp add: account_view_eq fun_eq_iff split: option.split)

lemma AddRefund_journaled: "sd_ok env del s \<Longrightarrow> journaled env del s (AddRefund g s)"
  by (rule journaled_same_objects [where e = "refundChange (sd_refund s)"])
    (auto simp: AddRefund_def journal_add_def view_of_def GetLogs_def intro!: account_view_same)

lemma AddPreimage_journaled: "sd_ok env del s \<Longrightarrow> journaled env del s (AddPreimage h b s)"
proof (cases "sd_preimages s h")
  case None
  assume "sd_ok env del s"
  then show ?thesis using None
    by (intro journaled_same_objects [where e = "addPreimageChange h"])
      (auto simp: AddPreimage_def journal_add_def view_of_def GetLogs_def fun_upd_idem intro!: account_view_same)
qed (simp add: AddPreimage_def journaled_refl)

lemma AddLog_journaled:
  assumes "sd_ok env del s"
  shows "journaled env del s (AddLog l s)"
proof (rule journaled_same_objects [OF assms, where e = "addLogChange (sd_thash s)"])
  let ?s = "AddLog l s"
  have "account_view env ?s = account_view env s" by (rule account_view_same) (simp_all add: AddLog_def journal_add_def Let_def)
  moreover have "(\<lambda>h. GetLogs h ?s) = (\<lambda>h. GetLogs h s)(sd_thash s := GetLogs (sd_thash s) ?s)" "GetLogs (sd_thash s) ?s \<noteq> []"
    "butlast (GetLogs (sd_thash s) ?s) = GetLogs (sd_thash s) s"
    by (auto simp: AddLog_def journal_add_def Let_def GetLogs_def fun_eq_iff)
  moreover have "sd_refund ?s = sd_refund s" "sd_logSize ?s = sd_logSize s + 1" "sd_preimages ?s = sd_preimages s" "sd_trie ?s = sd_trie s"
    by (simp_all add: AddLog_def journal_add_def Let_def)
  ultimately show "undo_view env (addLogChange (sd_thash s)) (view_of env ?s) = Some (view_of env s)"
    by (simp add: view_of_def fun_upd_idem)
qed (simp_all add: AddLog_def journal_add_def Let_def)

section \<open>Snapshots\<close>

text \<open>What the virtual machine and the block processing do to a state between two commits. Not among the
  operations: \<^verbatim>\<open>DeleteSuicides\<close>, which only the debug interface calls and which flags objects as deleted
  without removing them from the trie, \<^verbatim>\<open>Reset\<close> and \<^verbatim>\<open>CommitTo\<close>, which start over on a new trie. The
  flag \<^verbatim>\<open>deleteEmptyObjects\<close> of \<^verbatim>\<open>Finalise\<close> is the same in the whole run, as it is for the blocks of one
  fork.\<close>

datatype state_op =
    OpAddBalance address int | OpSubBalance address int | OpSetBalance address int | OpSetNonce address nat
  | OpSetCode address bytes | OpSetState address hash hash | OpSuicide address | OpCreateAccount address
  | OpAddRefund int | OpAddLog state_log | OpAddPreimage hash bytes | OpExist address
  | OpPrepare hash hash nat | OpSnapshot | OpRevertToSnapshot nat | OpFinalise

fun state_exec :: "state_env \<Rightarrow> bool \<Rightarrow> state_op \<Rightarrow> statedb \<Rightarrow> statedb option" where
  "state_exec env del (OpAddBalance a i) s = Some (AddBalance env a i s)"
| "state_exec env del (OpSubBalance a i) s = Some (SubBalance env a i s)"
| "state_exec env del (OpSetBalance a i) s = Some (SetBalance env a i s)"
| "state_exec env del (OpSetNonce a n) s = Some (SetNonce env a n s)"
| "state_exec env del (OpSetCode a c) s = Some (SetCode env a c s)"
| "state_exec env del (OpSetState a k v) s = Some (SetState env a k v s)"
| "state_exec env del (OpSuicide a) s = Some (snd (Suicide a s))"
| "state_exec env del (OpCreateAccount a) s = Some (CreateAccount env a s)"
| "state_exec env del (OpAddRefund g) s = Some (AddRefund g s)"
| "state_exec env del (OpAddLog l) s = Some (AddLog l s)"
| "state_exec env del (OpAddPreimage h b) s = Some (AddPreimage h b s)"
| "state_exec env del (OpExist a) s = Some (snd (Exist a s))"
| "state_exec env del (OpPrepare th bh i) s = Some (state_Prepare th bh i s)"
| "state_exec env del OpSnapshot s = Some (snd (state_Snapshot s))"
| "state_exec env del (OpRevertToSnapshot i) s = RevertToSnapshot i s"
| "state_exec env del OpFinalise s = Finalise env del s"

text \<open>Changes, as opposed to snapshots, reverts and the end of a transaction.\<close>

fun changes :: "state_op \<Rightarrow> bool" where
  "changes OpSnapshot \<longleftrightarrow> False"
| "changes (OpRevertToSnapshot i) \<longleftrightarrow> False"
| "changes OpFinalise \<longleftrightarrow> False"
| "changes _ \<longleftrightarrow> True"

lemma changes_journaled:
  assumes "sd_ok env del s" "changes op"
  shows "\<exists>s'. state_exec env del op s = Some s' \<and> journaled env del s s'"
proof (cases op)
  case (OpPrepare th bh i)
  have "view_of env (state_Prepare th bh i s) = view_of env s"
    by (simp add: view_of_def state_Prepare_def GetLogs_def account_view_eq fun_eq_iff split: option.split)
  then show ?thesis using OpPrepare assms(1) by (simp add: journaled_def state_Prepare_def sd_ok_def)
next
  case (OpExist a)
  obtain r s1 where "getStateObject a s = (r, s1)" by fastforce
  then show ?thesis using getStateObject_journaled [OF assms(1)] OpExist by (simp add: Exist_def)
qed (use assms in \<open>auto simp: AddBalance_def SubBalance_def SetBalance_def SetNonce_def SetCode_def SetState_def
    intro!: on_new_object_journaled so_AddBalance_journaled so_SubBalance_journaled so_SetBalance_journaled so_SetNonce_journaled
      so_SetCode_journaled so_SetState_journaled Suicide_journaled CreateAccount_journaled AddRefund_journaled AddLog_journaled
      AddPreimage_journaled\<close>)

text \<open>Every valid revision leads back to the view recorded for it; \<open>G\<close> maps revision ids to these views.\<close>

definition snap_ok :: "state_env \<Rightarrow> bool \<Rightarrow> (nat \<Rightarrow> state_view) \<Rightarrow> statedb \<Rightarrow> bool" where
  "snap_ok env del G s \<longleftrightarrow> sd_ok env del s \<and> list_all entry_ok (sd_journal s) \<and>
     sorted_wrt (\<lambda>q r. rv_id q < rv_id r \<and> rv_journalIndex q \<le> rv_journalIndex r) (sd_validRevisions s) \<and>
     (\<forall>r \<in> set (sd_validRevisions s). rv_id r < sd_nextRevisionId s \<and> rv_journalIndex r \<le> length (sd_journal s) \<and>
        fold_option (undo_view env) (rev (drop (rv_journalIndex r) (sd_journal s))) (view_of env s) = Some (G (rv_id r)))"

lemma snap_ok_journaled:
  assumes "snap_ok env del G s" "journaled env del s s'"
  shows "snap_ok env del G s'"
proof -
  obtain es where es: "sd_journal s' = sd_journal s @ es" "list_all entry_ok es"
    "fold_option (undo_view env) (rev es) (view_of env s') = Some (view_of env s)" using assms(2) unfolding journaled_def by blast
  have "fold_option (undo_view env) (rev (drop i (sd_journal s'))) (view_of env s') =
      fold_option (undo_view env) (rev (drop i (sd_journal s))) (view_of env s)" if "i \<le> length (sd_journal s)" for i
    using that es(1,3) by (simp add: fold_option_append)
  then show ?thesis using assms es unfolding snap_ok_def journaled_def by auto
qed

lemma snap_ok_Snapshot:
  assumes "snap_ok env del G s" "state_Snapshot s = (i, s')"
  shows "snap_ok env del (G(i := view_of env s)) s'" "view_of env s' = view_of env s" "i = sd_nextRevisionId s"
    "sd_validRevisions s' = sd_validRevisions s @ [\<lparr>rv_id = i, rv_journalIndex = length (sd_journal s)\<rparr>]" "i < sd_nextRevisionId s'"
proof -
  have s': "s' = s\<lparr>sd_nextRevisionId := Suc i, sd_validRevisions := sd_validRevisions s @ [\<lparr>rv_id = i, rv_journalIndex = length (sd_journal s)\<rparr>]\<rparr>"
    and i: "i = sd_nextRevisionId s" using assms(2) by (auto simp: state_Snapshot_def Let_def)
  show "i = sd_nextRevisionId s" "i < sd_nextRevisionId s'"
    "sd_validRevisions s' = sd_validRevisions s @ [\<lparr>rv_id = i, rv_journalIndex = length (sd_journal s)\<rparr>]" using s' i by simp_all
  show v: "view_of env s' = view_of env s"
    unfolding s' by (simp add: view_of_def GetLogs_def account_view_eq fun_eq_iff split: option.split)
  have "sd_ok env del s'" using assms(1) unfolding s' snap_ok_def sd_ok_def by simp
  then show "snap_ok env del (G(i := view_of env s)) s'"
    using assms(1) v i unfolding snap_ok_def by (auto simp: s' sorted_wrt_append less_Suc_eq)
qed

lemma takeWhile_revision:
  assumes "sorted_wrt (\<lambda>q r. rv_id q < rv_id r \<and> P q r) (xs @ r # ys)"
  shows "takeWhile (\<lambda>q. rv_id q < rv_id r) (xs @ r # ys) = xs"
  using assms by (simp add: sorted_wrt_append takeWhile_append2)

lemma RevertToSnapshot_cases:
  assumes "sorted_wrt (\<lambda>q r. rv_id q < rv_id r \<and> P q r) (sd_validRevisions s)"
  obtains "RevertToSnapshot i s = None" "i \<notin> rv_id ` set (sd_validRevisions s)"
  | xs r ys where "sd_validRevisions s = xs @ r # ys" "rv_id r = i"
      "RevertToSnapshot i s = map_option (\<lambda>s1. s1\<lparr>sd_journal := take (rv_journalIndex r) (sd_journal s1),
          sd_validRevisions := take (length xs) (sd_validRevisions s1)\<rparr>)
        (fold_option undo (rev (drop (rv_journalIndex r) (sd_journal s))) s)"
proof (cases "i \<in> rv_id ` set (sd_validRevisions s)")
  case True
  then obtain r where r: "r \<in> set (sd_validRevisions s)" "rv_id r = i" by blast
  then obtain xs ys where xs: "sd_validRevisions s = xs @ r # ys" by (meson split_list)
  then have "takeWhile (\<lambda>q. rv_id q < i) (sd_validRevisions s) = xs" using assms r(2) takeWhile_revision [of P xs r ys] by simp
  then show thesis using that(2) [OF xs r(2)] xs r(2) by (simp add: RevertToSnapshot_def Let_def)
next
  case False
  let ?n = "length (takeWhile (\<lambda>q. rv_id q < i) (sd_validRevisions s))"
  have "rv_id (sd_validRevisions s ! ?n) \<noteq> i" if "?n \<noteq> length (sd_validRevisions s)"
    using False that by (metis image_eqI length_takeWhile_le nth_mem order_le_neq_trans)
  then have "RevertToSnapshot i s = None" by (auto simp: RevertToSnapshot_def Let_def)
  then show thesis using that(1) False by blast
qed

lemma snap_ok_Revert:
  assumes "snap_ok env del G s" "i \<in> rv_id ` set (sd_validRevisions s)"
  shows "\<exists>s' xs r ys. RevertToSnapshot i s = Some s' \<and> sd_validRevisions s = xs @ r # ys \<and> rv_id r = i \<and> sd_validRevisions s' = xs \<and>
    sd_nextRevisionId s' = sd_nextRevisionId s \<and> snap_ok env del G s' \<and> view_of env s' = G i"
proof -
  let ?P = "\<lambda>q r. rv_journalIndex q \<le> rv_journalIndex r" and ?J = "sd_journal s"
  have sorted: "sorted_wrt (\<lambda>q r. rv_id q < rv_id r \<and> ?P q r) (sd_validRevisions s)" using assms(1) by (simp add: snap_ok_def)
  obtain xs r ys where x: "sd_validRevisions s = xs @ r # ys" "rv_id r = i"
    "RevertToSnapshot i s = map_option (\<lambda>s1. s1\<lparr>sd_journal := take (rv_journalIndex r) (sd_journal s1),
        sd_validRevisions := take (length xs) (sd_validRevisions s1)\<rparr>) (fold_option undo (rev (drop (rv_journalIndex r) ?J)) s)"
    by (rule RevertToSnapshot_cases [OF sorted, of i]) (use assms(2) in auto)
  let ?n = "rv_journalIndex r" and ?es = "rev (drop (rv_journalIndex r) ?J)"
  have ok: "sd_ok env del s" "list_all entry_ok ?es" "list_all entry_ok (take ?n ?J)"
    using assms(1) by (auto simp: snap_ok_def list_all_iff dest: in_set_takeD in_set_dropD)
  have r: "fold_option (undo_view env) ?es (view_of env s) = Some (G i)" "?n \<le> length ?J" using assms(1) x(1,2) by (auto simp: snap_ok_def)
  obtain s1 where s1: "fold_option undo ?es s = Some s1" "view_of env s1 = G i"
    using state_journal.undo_list_commutes [OF ok(1,2)] r(1) by auto
  note f = undo_all_frame [OF ok(1,2) s1(1)]
  let ?s = "s1\<lparr>sd_journal := take ?n ?J, sd_validRevisions := xs\<rparr>"
  have e: "RevertToSnapshot i s = Some ?s" using x s1 f by simp
  have v: "view_of env ?s = G i"
    using s1(2) view_frame by simp
  have "sd_ok env del ?s" using state_journal.undo_list_ok [OF ok(1,2) s1(1)] by (simp add: sd_ok_def)
  moreover have "fold_option (undo_view env) (rev (drop (rv_journalIndex q) (take ?n ?J))) (G i) = Some (G (rv_id q))"
    if q: "q \<in> set xs" for q
  proof -
    have "rv_journalIndex q \<le> ?n" using sorted x(1) q by (simp add: sorted_wrt_append)
    then have "drop (rv_journalIndex q) ?J = drop (rv_journalIndex q) (take ?n ?J) @ drop ?n ?J"
      using drop_append [of "rv_journalIndex q" "take ?n ?J" "drop ?n ?J"] r(2) by simp
    moreover have "fold_option (undo_view env) (rev (drop (rv_journalIndex q) ?J)) (view_of env s) = Some (G (rv_id q))"
      using assms(1) x(1) q by (simp add: snap_ok_def)
    ultimately show ?thesis using r(1) by (simp add: fold_option_append)
  qed
  moreover have "sorted_wrt (\<lambda>q r. rv_id q < rv_id r \<and> ?P q r) xs" using sorted x(1) by (simp add: sorted_wrt_append)
  moreover have "rv_id q < sd_nextRevisionId s \<and> rv_journalIndex q \<le> ?n" if "q \<in> set xs" for q
    using assms(1) x(1) sorted that by (auto simp: snap_ok_def sorted_wrt_append)
  ultimately have "snap_ok env del G ?s" using ok(3) v f r(2) by (auto simp: snap_ok_def)
  then show ?thesis using e x(1,2) v f by auto
qed

lemma Finalise_ok:
  assumes "sd_ok env del s"
  shows "\<exists>s'. Finalise env del s = Some s' \<and> sd_ok env del s' \<and> sd_journal s' = [] \<and> sd_validRevisions s' = [] \<and> sd_nextRevisionId s' = sd_nextRevisionId s"
proof -
  have ok: "\<And>a obj. sd_stateObjects s a = Some obj \<Longrightarrow> so_deleted obj \<Longrightarrow> sd_trie s a = None \<and> finalise_deletes env del obj"
    "\<And>a. a \<in> sd_stateObjectsDirty s \<Longrightarrow> sd_stateObjects s a \<noteq> None" using assms unfolding sd_ok_def by blast+
  have d: "finalise_deletes env del (obj\<lparr>so_deleted := b\<rparr>) = finalise_deletes env del obj" "so_deleted (updateRoot env obj) = so_deleted obj"
    "finalise_deletes env del (updateRoot env obj) = finalise_deletes env del obj" for obj b
    by (simp_all add: finalise_deletes_def so_empty_def updateRoot_def)
  from ok(2) obtain s' where s': "Finalise env del s = Some s'" by (simp add: Finalise_def)
  then have "sd_ok env del s'"
    using ok by (auto simp: Finalise_def clearJournalAndRefund_def sd_ok_def d split: if_splits)
  then show ?thesis using s' by (auto simp: Finalise_def clearJournalAndRefund_def split: if_splits)
qed

text \<open>A run keeps the revisions it does not revert; a revert to a later revision keeps the earlier ones.\<close>

definition keeps :: "nat \<Rightarrow> state_op \<Rightarrow> bool" where
  "keeps i op \<longleftrightarrow> op \<noteq> OpFinalise \<and> (\<forall>j. op = OpRevertToSnapshot j \<longrightarrow> i < j)"

lemma exec_snap_ok:
  assumes "snap_ok env del G s" "state_exec env del op s = Some s'"
  shows "\<exists>G'. snap_ok env del G' s' \<and> sd_nextRevisionId s \<le> sd_nextRevisionId s' \<and> (\<forall>i < sd_nextRevisionId s. G' i = G i) \<and>
    (\<forall>i. keeps i op \<longrightarrow> i \<in> rv_id ` set (sd_validRevisions s) \<longrightarrow> i \<in> rv_id ` set (sd_validRevisions s'))"
proof (cases "changes op")
  case True
  have "sd_ok env del s" using assms(1) by (simp add: snap_ok_def)
  then have "journaled env del s s'" using changes_journaled True assms(2) by fastforce
  then show ?thesis using snap_ok_journaled [OF assms(1)] by (auto simp: journaled_def)
next
  case False
  then consider "op = OpSnapshot" | i where "op = OpRevertToSnapshot i" | "op = OpFinalise" by (cases op) auto
  then show ?thesis
  proof cases
    case 1
    then have s: "state_Snapshot s = (fst (state_Snapshot s), s')" using assms(2) by (cases "state_Snapshot s") auto
    note f = snap_ok_Snapshot [OF assms(1) s]
    show ?thesis using f(1,3,4,5) by (intro exI [of _ "G(fst (state_Snapshot s) := view_of env s)"]) auto
  next
    case (2 i)
    have "i \<in> rv_id ` set (sd_validRevisions s)"
    proof (rule ccontr)
      assume "i \<notin> rv_id ` set (sd_validRevisions s)"
      then have "RevertToSnapshot i s = None"
        using assms(1) RevertToSnapshot_cases [of "\<lambda>q r. rv_journalIndex q \<le> rv_journalIndex r" s i] by (force simp: snap_ok_def)
      then show False using 2 assms(2) by simp
    qed
    from snap_ok_Revert [OF assms(1) this] obtain xs r ys where x: "sd_validRevisions s = xs @ r # ys" "rv_id r = i"
      "sd_validRevisions s' = xs" "sd_nextRevisionId s' = sd_nextRevisionId s" "snap_ok env del G s'"
      using 2 assms(2) by auto
    have "j \<in> rv_id ` set xs" if "j < i" "j \<in> rv_id ` set (sd_validRevisions s)" for j
      using assms(1) that x(1,2) by (auto simp: snap_ok_def sorted_wrt_append)
    then show ?thesis using x 2 by (auto simp: keeps_def)
  next
    case 3
    then show ?thesis using Finalise_ok [of env del s] assms by (auto simp: snap_ok_def keeps_def)
  qed
qed

definition state_run :: "state_env \<Rightarrow> bool \<Rightarrow> state_op list \<Rightarrow> statedb \<Rightarrow> statedb option" where
  "state_run env del = fold_option (state_exec env del)"

lemma run_snap_ok:
  assumes "snap_ok env del G s" "state_run env del ops s = Some s'"
  shows "\<exists>G'. snap_ok env del G' s' \<and> (\<forall>i < sd_nextRevisionId s. G' i = G i) \<and>
    (\<forall>i. list_all (keeps i) ops \<longrightarrow> i \<in> rv_id ` set (sd_validRevisions s) \<longrightarrow> i \<in> rv_id ` set (sd_validRevisions s'))"
  using assms
proof (induction ops arbitrary: s G)
  case Nil
  then show ?case by (auto simp: state_run_def)
next
  case (Cons op ops)
  then obtain s1 where s1: "state_exec env del op s = Some s1" "state_run env del ops s1 = Some s'"
    by (auto simp: state_run_def Option.bind_eq_Some_conv)
  obtain G1 where g: "snap_ok env del G1 s1" "sd_nextRevisionId s \<le> sd_nextRevisionId s1" "\<forall>i < sd_nextRevisionId s. G1 i = G i"
    "\<forall>i. keeps i op \<longrightarrow> i \<in> rv_id ` set (sd_validRevisions s) \<longrightarrow> i \<in> rv_id ` set (sd_validRevisions s1)"
    using exec_snap_ok [OF Cons.prems(1) s1(1)] by blast
  obtain G2 where "snap_ok env del G2 s'" "\<forall>i < sd_nextRevisionId s1. G2 i = G1 i"
    "\<forall>i. list_all (keeps i) ops \<longrightarrow> i \<in> rv_id ` set (sd_validRevisions s1) \<longrightarrow> i \<in> rv_id ` set (sd_validRevisions s')"
    using Cons.IH [OF g(1) s1(2)] by blast
  then show ?case using g(2-4) by (intro exI [of _ G2]) auto
qed

lemma snap_ok_New: "snap_ok env del G (state_New tr)"
  by (simp add: snap_ok_def sd_ok_def state_New_def)

section \<open>Properties of the state database\<close>

definition toy_state_env :: state_env where
  "toy_state_env = \<lparr>se_kec = (\<lambda>_. 7), se_storage = (\<lambda>_ _. 0), se_updateTrie = (\<lambda>r _. r), se_ContractCode = (\<lambda>_. []), se_root = (\<lambda>_. 0)\<rparr>"

definition toy_trie :: "address \<rightharpoonup> account" where
  "toy_trie = [5 \<mapsto> \<lparr>ac_Nonce = 0, ac_Balance = 0, ac_Root = 0, ac_CodeHash = 7\<rparr>, 6 \<mapsto> \<lparr>ac_Nonce = 2, ac_Balance = 100, ac_Root = 0, ac_CodeHash = 7\<rparr>]"

text \<open>C11. After any sequence of the operations of \<open>state_op\<close> on a new state, and whatever of these is done
  after a snapshot before the end of the transaction, with inner snapshots and reverts, reverting to the snapshot succeeds and shows again what the state showed when it was taken: the same
  accounts with nonces, balances, code, storage and suicides, the same refund, logs and preimages.\<close>

theorem revert_restores_snapshot:
  assumes "state_run env del ops (state_New tr) = Some s" "state_Snapshot s = (i, s1)"
    and "state_run env del ops' s1 = Some s2"
    and "\<forall>op \<in> set ops'. op \<noteq> OpFinalise \<and> (\<forall>j. op = OpRevertToSnapshot j \<longrightarrow> i < j)"
  shows "\<exists>s3. RevertToSnapshot i s2 = Some s3 \<and> view_of env s3 = view_of env s"
proof -
  obtain G where G: "snap_ok env del G s" using run_snap_ok [OF snap_ok_New [of env del "\<lambda>_. view_of env s"] assms(1)] by blast
  note f = snap_ok_Snapshot [OF G assms(2)]
  from run_snap_ok [OF f(1) assms(3)] obtain G' where g: "snap_ok env del G' s2" "\<forall>j < sd_nextRevisionId s1. G' j = (G(i := view_of env s)) j"
    "\<forall>j. list_all (keeps j) ops' \<longrightarrow> j \<in> rv_id ` set (sd_validRevisions s1) \<longrightarrow> j \<in> rv_id ` set (sd_validRevisions s2)"
    by blast
  have "list_all (keeps i) ops'" using assms(4) by (simp add: list_all_iff keeps_def)
  moreover have "i \<in> rv_id ` set (sd_validRevisions s1)" unfolding f(4) by simp
  ultimately have "i \<in> rv_id ` set (sd_validRevisions s2)" using g(3) by blast
  from snap_ok_Revert [OF g(1) this] obtain s3 where s3: "RevertToSnapshot i s2 = Some s3" "view_of env s3 = G' i" by blast
  have "G' i = view_of env s" using g(2) [rule_format, OF f(5)] by simp
  then show ?thesis using s3 by auto
qed

theorem revert_restores_snapshot_witness:
  "\<exists>s2 s3. state_run toy_state_env True [OpSubBalance 6 40, OpSuicide 6, OpSnapshot, OpAddBalance 5 9, OpRevertToSnapshot 1, OpAddBalance 5 0]
       (snd (state_Snapshot (state_New toy_trie))) = Some s2 \<and>
     RevertToSnapshot 0 s2 = Some s3 \<and> view_of toy_state_env s3 = view_of toy_state_env (state_New toy_trie)"
proof -
  let ?ops = "[OpSubBalance 6 40, OpSuicide 6, OpSnapshot, OpAddBalance 5 9, OpRevertToSnapshot 1, OpAddBalance 5 0]"
  have n: "state_Snapshot (state_New toy_trie) = (0, snd (state_Snapshot (state_New toy_trie)))" by (simp add: state_Snapshot_def state_New_def)
  have "state_run toy_state_env True ?ops (snd (state_Snapshot (state_New toy_trie))) \<noteq> None" by code_simp
  then obtain s2 where s2: "state_run toy_state_env True ?ops (snd (state_Snapshot (state_New toy_trie))) = Some s2" by (cases "state_run toy_state_env True ?ops (snd (state_Snapshot (state_New toy_trie)))") simp_all
  have "state_run toy_state_env True [] (state_New toy_trie) = Some (state_New toy_trie)" by (simp add: state_run_def)
  from revert_restores_snapshot [OF this n s2] s2 show ?thesis by auto
qed

text \<open>C35. Touching an account of the trie that is empty and reverting the touch takes the account off the dirty
  set and leaves it without its callback: a later credit is visible in the state but is not written to the
  trie. Without the reverted touch it is written.\<close>

theorem reverted_touch_loses_credit:
  assumes "tr a = Some d" "ac_Nonce d = 0" "ac_Balance d = 0" "ac_CodeHash d = se_kec env []" "a \<noteq> ripemd" "v \<noteq> 0"
  shows "\<exists>s3 s5. RevertToSnapshot 0 (AddBalance env a 0 (snd (state_Snapshot (state_New tr)))) = Some s3 \<and>
    fst (GetBalance a (AddBalance env a v s3)) = v \<and>
    Finalise env False (AddBalance env a v s3) = Some s5 \<and> map_option ac_Balance (sd_trie s5 a) = Some 0 \<and>
    (\<exists>s6. Finalise env False (AddBalance env a v (state_New tr)) = Some s6 \<and> map_option ac_Balance (sd_trie s6 a) = Some v)"
proof -
  let ?o = "newObject d" and ?s1 = "snd (state_Snapshot (state_New tr))"
  have o: "so_empty env ?o" "\<not> so_touched ?o" "so_onDirty ?o" "\<not> so_deleted ?o" "so_data ?o = d" "\<not> so_suicided ?o"
    using assms(2-4) by (simp_all add: so_empty_def newObject_def)
  have load: "GetOrNewStateObject env a s = (?o, s\<lparr>sd_stateObjects := (sd_stateObjects s)(a \<mapsto> ?o)\<rparr>)"
    if "sd_stateObjects s a = None" "sd_trie s a = Some d" for s
    using that by (simp add: GetOrNewStateObject_def getStateObject_def Let_def)
  have again: "GetOrNewStateObject env a s = (obj, s)" if "sd_stateObjects s a = Some obj" "\<not> so_deleted obj" for s obj
    using that by (simp add: GetOrNewStateObject_def getStateObject_def)
  let ?s2 = "AddBalance env a 0 ?s1"
  have s1: "sd_stateObjects ?s1 = Map.empty" "sd_trie ?s1 = tr" "sd_journal ?s1 = []" "sd_validRevisions ?s1 = [\<lparr>rv_id = 0, rv_journalIndex = 0\<rparr>]"
    "sd_stateObjectsDirty ?s1 = {}"
    by (simp_all add: state_Snapshot_def state_New_def Let_def)
  have s2: "?s2 = so_touch a ?o (?s1\<lparr>sd_stateObjects := [a \<mapsto> ?o]\<rparr>)"
    using load [of ?s1] s1 assms(1) o(1) by (simp add: AddBalance_def so_AddBalance_def)
  have f2: "sd_stateObjects ?s2 = [a \<mapsto> ?o\<lparr>so_touched := True, so_onDirty := False\<rparr>]" "sd_stateObjectsDirty ?s2 = {a}" "sd_trie ?s2 = tr"
    "sd_journal ?s2 = [touchChange a False False]" "sd_validRevisions ?s2 = [\<lparr>rv_id = 0, rv_journalIndex = 0\<rparr>]"
    unfolding s2 using s1 o by (simp_all add: so_touch_def store_dirty_def journal_add_def)
  let ?o3 = "?o\<lparr>so_onDirty := False, so_touched := False\<rparr>"
  have "\<exists>s3. RevertToSnapshot 0 ?s2 = Some s3 \<and> sd_stateObjects s3 = [a \<mapsto> ?o3] \<and> sd_stateObjectsDirty s3 = {} \<and> sd_trie s3 = tr"
    using f2 o assms(5) by (simp add: RevertToSnapshot_def on_object_def getStateObject_def Let_def)
  then obtain s3 where s3: "RevertToSnapshot 0 ?s2 = Some s3" "sd_stateObjects s3 = [a \<mapsto> ?o3]" "sd_stateObjectsDirty s3 = {}" "sd_trie s3 = tr" by blast
  let ?s4 = "AddBalance env a v s3"
  let ?o4 = "?o\<lparr>so_touched := False, so_data := d\<lparr>ac_Balance := v\<rparr>, so_onDirty := False\<rparr>"
  have s4: "sd_stateObjects ?s4 = [a \<mapsto> ?o4]" "sd_stateObjectsDirty ?s4 = {}" "sd_trie ?s4 = tr"
    using again [of s3 ?o3] s3(2-4) o assms(3,6)
    by (simp_all add: AddBalance_def so_AddBalance_def so_SetBalance_def so_setBalance_def store_dirty_def journal_add_def)
  then have f4: "fst (GetBalance a ?s4) = v" using o by (simp add: GetBalance_def getStateObject_def)
  have "\<exists>s5. Finalise env False ?s4 = Some s5 \<and> map_option ac_Balance (sd_trie s5 a) = Some 0"
    using s4 assms(1,3) by (simp add: Finalise_def clearJournalAndRefund_def)
  moreover have "sd_stateObjects (AddBalance env a v (state_New tr)) a = Some (?o\<lparr>so_data := d\<lparr>ac_Balance := v\<rparr>, so_onDirty := False\<rparr>)"
    "sd_stateObjectsDirty (AddBalance env a v (state_New tr)) = {a}"
    using load [of "state_New tr"] o assms(1,3,6)
    by (simp_all add: state_New_def AddBalance_def so_AddBalance_def so_SetBalance_def so_setBalance_def store_dirty_def journal_add_def)
  then have "\<exists>s6. Finalise env False (AddBalance env a v (state_New tr)) = Some s6 \<and> map_option ac_Balance (sd_trie s6 a) = Some v"
    using o by (simp add: Finalise_def clearJournalAndRefund_def finalise_deletes_def updateRoot_def)
  ultimately show ?thesis using s3(1) f4 by blast
qed

theorem reverted_touch_loses_credit_witness:
  "\<exists>s3 s5. RevertToSnapshot 0 (AddBalance toy_state_env 5 0 (snd (state_Snapshot (state_New toy_trie)))) = Some s3 \<and>
    fst (GetBalance 5 (AddBalance toy_state_env 5 9 s3)) = 9 \<and>
    Finalise toy_state_env False (AddBalance toy_state_env 5 9 s3) = Some s5 \<and> map_option ac_Balance (sd_trie s5 5) = Some 0"
proof -
  let ?d = "\<lparr>ac_Nonce = 0, ac_Balance = 0, ac_Root = 0, ac_CodeHash = 7\<rparr> :: account"
  have "toy_trie 5 = Some ?d" "ac_Nonce ?d = 0" "ac_Balance ?d = 0" "ac_CodeHash ?d = se_kec toy_state_env []" "5 \<noteq> ripemd" "(9 :: int) \<noteq> 0"
    by (simp_all add: toy_trie_def toy_state_env_def ripemd_def)
  from reverted_touch_loses_credit [of toy_trie 5 ?d toy_state_env 9, OF this] show ?thesis by blast
qed

end
