(* ===== verification/Spec2Isabelle.thy ===== *)
theory Spec2Isabelle
  imports RLP_Raw Istanbul_Theorems Istanbul_Engine Raft_Minter State_DB
begin

text \<open>
  Verification of bxmp, a node for permissioned Ethereum chains with two kinds of consensus, Istanbul BFT
  and raft. The development models the path from bytes on the wire to a decided block: the RLP codec, the
  blocks and transactions encoded with it, the validator set and the votes that change it, the consensus
  state machine of a validator, the engine that verifies headers and seals blocks, transaction signing
  and ordering, and the minter that builds blocks under raft.

  \<^bold>\<open>How the parts interact.\<close> A message arrives at the engine (\<open>HandleMsg\<close>), which drops duplicates and posts it to
  the core. The core decodes it and checks its signature against the validator set (\<open>FromPayload\<close>), then
  \<open>handleEvent\<close> runs one handler; a message of a later view goes to a priority queue per validator. A handler
  asks the engine to verify a proposal (\<open>backend_Verify\<close>) and hands a decided block back with its seals
  (\<open>backend_Commit\<close>), which writes them into the header (\<open>writeCommittedSeals\<close>). Every other node verifies the header
  (\<open>VerifyHeader\<close>): it finds the validator set of the parent by replaying the votes in earlier headers
  (\<open>backend_snapshot\<close>) and counts the seals. Under raft the minter orders the pending transactions by price and
  nonce and builds blocks on blocks that raft has not yet applied.

  \<^bold>\<open>Theories and sources.\<close>
  \<^item> \<^verbatim>\<open>Go_Prelude\<close>: bytes, hashes, results with panics, big integers and their wrap-around to 64 bits.
  \<^item> \<^verbatim>\<open>RLP_Encode\<close>: \<^verbatim>\<open>src/rlp/encode.go\<close>. \<open>encbuf\<close> is the buffer with its list headers kept apart; \<open>rlp_write\<close> is
    the writer chosen by the type, which is a constructor of \<open>rval\<close> (an \<^verbatim>\<open>EncodeRLP\<close> method is the list of
    values it writes and the error it returns); \<open>enc_spec\<close> is the recursive format.
  \<^item> \<^verbatim>\<open>RLP_Stream\<close>: \<^verbatim>\<open>src/rlp/decode.go\<close>, the stream with its stack of open lists, and the typed decoders as
    combinators. \<^verbatim>\<open>RLP_Codec\<close> proves the stream invariant and the laws of codecs (locales \<open>rlp_codec\<close>,
    \<open>strict_codec\<close>). \<^verbatim>\<open>RLP_Raw\<close>: \<^verbatim>\<open>src/rlp/raw.go\<close>.
  \<^item> \<^verbatim>\<open>Chain_Types\<close>: \<^verbatim>\<open>src/core/types/{block,transaction,istanbul}.go\<close>, data, codecs and hashes.
  \<^item> \<^verbatim>\<open>Validator_Set\<close>: \<^verbatim>\<open>src/consensus/istanbul/validator/\<close> and \<^verbatim>\<open>utils.go\<close>; the locale \<open>validator_set\<close> is the interface
    the consensus relies on, \<open>quorum_system\<close> the overlap of quorums.
  \<^item> \<^verbatim>\<open>Go_Heap\<close>: \<^verbatim>\<open>container/heap\<close> and the vendored \<^verbatim>\<open>prque\<close>; the locale \<open>priority_queue\<close> is the contract of its users.
  \<^item> \<^verbatim>\<open>Istanbul_Types\<close>, \<^verbatim>\<open>Istanbul_State\<close>, \<^verbatim>\<open>Istanbul_Core\<close>: \<^verbatim>\<open>src/consensus/istanbul/core/\<close>; the struct \<^verbatim>\<open>core\<close> is the record
    \<open>core\<close>, every handler is one function, and what it sends or hands to the backend is a log in the state.
  \<^item> \<^verbatim>\<open>Istanbul_Voting\<close>: the abstract automaton of a validator. \<^verbatim>\<open>Istanbul_Safety\<close> proves the simulation and
    \<^verbatim>\<open>Istanbul_Theorems\<close> the guarantees of the core.
  \<^item> \<^verbatim>\<open>Istanbul_Snapshot\<close>, \<^verbatim>\<open>Istanbul_Engine\<close>: \<^verbatim>\<open>src/consensus/istanbul/backend/\<close>. The engine's operations pass the record
    \<open>engine\<close> along and may fail or panic; the chain, clock and signing key are fields of \<open>engine_env\<close>.
  \<^item> \<^verbatim>\<open>Chain_Config\<close>: \<^verbatim>\<open>src/params/\<close>. \<^verbatim>\<open>Tx_Signing\<close>: \<^verbatim>\<open>src/core/types/transaction_signing.go\<close> and the rest of
    \<^verbatim>\<open>transaction.go\<close>. \<^verbatim>\<open>Raft_Minter\<close>: \<^verbatim>\<open>src/raft/{speculative_chain,minter}.go\<close>.
  \<^item> \<^verbatim>\<open>State_DB\<close>: \<^verbatim>\<open>src/core/state/{statedb,state_object,journal}.go\<close>, live account objects over the account trie with the
    journal of changes; the locale \<open>journal\<close> is the contract that makes undoing independent of the caches.

  \<^bold>\<open>What is shown.\<close>
  \<^item> Codec: the encoder's buffer yields the recursive format, and fails with the first of the
    faults of a value (negative integers, \<^verbatim>\<open>Encoder\<close> values without an address or with an error of their own,
    types without a writer) and on no other value; every stream operation keeps the nesting of sizes; headers and lists of byte strings decode exactly from their
    own encodings, so that encodings are unique; blocks survive a round trip.
  \<^item> Consensus: every event is a sequence of steps of the voting automaton, for any order of events. Hence
    decisions carry a quorum of commit messages, a validator never votes for two digests in one view, and
    commits to one digest per height while its decisions are accepted. Any two quorums
    share more than F members exactly when the number of validators is 3F + 1; with two, three or six
    validators there are disjoint quorums. Timeouts make progress, and no handler
    dereferences nil.
  \<^item> Engine: an accepted header, unless its number is zero modulo \<open>2 ^ 64\<close>, carries the seals of a quorum of the
    set obtained by replay; members change
    only by majority; the cache never changes a snapshot; a block the engine built is accepted by the others.
  \<^item> Transactions: the recovered sender is the signer, except with the EIP155 signer of chain ids below two;
    that signer drops the private marker, the others keep it. The price and nonce set yields the greedy merge of the
    accounts; the conflict search of the configuration ends at a rewind target without conflict.
  \<^item> Raft: no interleaving of the minter's goroutines proposes a transaction twice; minting ends and extends the
    head; unwinding removes the descendants of an invalid block and nothing else.
  \<^item> State: reverting to a snapshot shows the state of the moment it was taken, whatever the operations of
    \<open>state_op\<close> did in between.
  \<^item> Deviations: some theorems state what the code does where it departs from its comments, for example the
    private marker on chain id one, the stale head of the minter, credits lost after a reverted touch, and stored snapshots that are never read.

  \<^bold>\<open>Parameters and bounds.\<close> Keccak and public key recovery are the record \<open>crypto\<close>; signing, the chain, the execution
  of transactions, trie roots and the bloom filter are arguments. What a theorem needs of them is among its hypotheses.
  Loops are structurally recursive or have termination proofs. Two bounds remain: the element
  loop of the list decoder takes the number of bytes left, which \<open>decodeSliceElems_reads\<close> shows to be enough, and
  \<open>commit_loop\<close> the number of waiting transactions, for which \<open>commit_loop_ends\<close> does so. The round timer is kept as a 64 bit value, and block numbers are
  truncated where the code truncates them.

  \<^bold>\<open>Not modelled.\<close>
  \<^item> Reflection in the RLP package (the type chooses a constructor or combinator instead), streaming to
    readers and writers, and the tail tag of the decoder.
  \<^item> Locks, channels and logging; goroutines appear as steps in any order. \<^verbatim>\<open>Stop\<close> of the core and subscriptions.
  \<^item> The virtual machine, the tries, committing the state to disk, the blockchain and the transaction pool, which
    are databases and caches around the modelled parts and enter as arguments.
  \<^item> The other engines (ethash, clique), the light client, synchronisation, networking, RPC, key storage,
    whisper, swarm and the command line, which are input and output or independent services.
\<close>

end
